(* ===== verification/KV_Prelude.thy ===== *)
theory KV_Prelude
  imports Main "HOL-Library.Word" "HOL-Library.AList"
begin

text \<open>
  Shared vocabulary of the development: machine integers and byte strings as Go has them, the
  little- and big-endian encodings of \<^verbatim>\<open>encoding/binary\<close>, Go maps as association lists with
  distinct keys, and the list facts the components share.
\<close>

section \<open>Machine integers and byte strings\<close>

type_synonym byte = "8 word"
type_synonym int32 = "32 word"
type_synonym uint32 = "32 word"
type_synonym int64 = "64 word"
type_synonym uint64 = "64 word"
type_synonym bytes = "byte list"

text \<open>
  Signed comparisons of Go's \<^verbatim>\<open>int64\<close>: the two's complement reading \<^term>\<open>sint\<close> of the word.
  Addition and subtraction of the words wrap, as they do in Go.
\<close>

definition slt64 :: "int64 \<Rightarrow> int64 \<Rightarrow> bool" where
  "slt64 a b \<longleftrightarrow> sint a < sint b"

definition sle64 :: "int64 \<Rightarrow> int64 \<Rightarrow> bool" where
  "sle64 a b \<longleftrightarrow> sint a \<le> sint b"

text \<open>\<^verbatim>\<open>int64(len(b))\<close>.\<close>

definition len64 :: "'a list \<Rightarrow> int64" where
  "len64 xs = word_of_nat (length xs)"

text \<open>A Go string is a byte sequence; \<^verbatim>\<open>[]byte(s)\<close> exposes the bytes.\<close>

definition str_bytes :: "string \<Rightarrow> bytes" where
  "str_bytes s = map (\<lambda>c. word_of_nat (of_char c)) s"

section \<open>Proof collections\<close>

named_theorems codec_simps \<open>sizes and round trips of the byte encodings\<close>
named_theorems gomap_simps \<open>lookups after an update or a deletion of a Go map\<close>

section \<open>Strings as bytes\<close>

lemma byte_of_char_inj: "(word_of_nat (of_char c) :: byte) = word_of_nat (of_char d) \<longleftrightarrow> c = d"
proof
  assume "(word_of_nat (of_char c) :: byte) = word_of_nat (of_char d)"
  then have "unat (word_of_nat (of_char c) :: byte) = unat (word_of_nat (of_char d) :: byte)"
    by simp
  then have "(of_char c :: nat) mod 256 = of_char d mod 256"
    by (simp add: unat_of_nat)
  then show "c = d" by simp
qed simp

lemma str_bytes_inj [simp]: "str_bytes s = str_bytes t \<longleftrightarrow> s = t"
proof
  have "inj (\<lambda>c::char. word_of_nat (of_char c) :: byte)"
    by (rule injI) (simp add: byte_of_char_inj)
  then show "str_bytes s = str_bytes t \<Longrightarrow> s = t"
    unfolding str_bytes_def by (simp add: inj_map_eq_map)
qed simp

lemma length_str_bytes [simp]: "length (str_bytes s) = length s"
  by (simp add: str_bytes_def)

lemma str_bytes_append: "str_bytes (s @ t) = str_bytes s @ str_bytes t"
  by (simp add: str_bytes_def)

section \<open>Fixed-width integers as bytes\<close>

text \<open>
  \<^verbatim>\<open>binary.LittleEndian.PutUint32/PutUint64\<close> write the low byte first; \<open>le_bytes n w\<close> is the
  \<open>n\<close>-byte image of \<open>w\<close>. \<^verbatim>\<open>binary.LittleEndian.Uint32/Uint64\<close> read it back (\<open>le_word\<close>), and
  \<^verbatim>\<open>binary.BigEndian\<close> reads the reversed bytes.
\<close>

primrec le_bytes :: "nat \<Rightarrow> 'a::len word \<Rightarrow> bytes" where
  "le_bytes 0 w = []"
| "le_bytes (Suc n) w = ucast w # le_bytes n (drop_bit 8 w)"

primrec le_word :: "bytes \<Rightarrow> 'a::len word" where
  "le_word [] = 0"
| "le_word (b # bs) = or (ucast b) (push_bit 8 (le_word bs))"

definition be_word :: "bytes \<Rightarrow> 'a::len word" where
  "be_word bs = le_word (rev bs)"

definition be_bytes :: "nat \<Rightarrow> 'a::len word \<Rightarrow> bytes" where
  "be_bytes n w = rev (le_bytes n w)"

lemma length_le_bytes [simp, codec_simps]: "length (le_bytes n w) = n"
  by (induction n arbitrary: w) simp_all

lemma length_be_bytes [simp, codec_simps]: "length (be_bytes n w) = n"
  by (simp add: be_bytes_def)

lemma bit_le_word_Cons:
  "bit (le_word (b # bs) :: 'a::len word) i \<longleftrightarrow>
     i < LENGTH('a) \<and> (if i < 8 then bit b i else bit (le_word bs :: 'a word) (i - 8))"
  by (auto simp: bit_or_iff bit_push_bit_iff bit_ucast_iff not_less dest: bit_imp_le_length)

lemma le_word_le_bytes [codec_simps]: "le_word (le_bytes n w) = take_bit (8 * n) (w :: 'a::len word)"
proof (induction n arbitrary: w)
  case 0
  then show ?case by simp
next
  case (Suc n)
  show ?case
  proof (rule bit_word_eqI)
    fix i assume "i < LENGTH('a)"
    then show "bit (le_word (le_bytes (Suc n) w) :: 'a word) i \<longleftrightarrow> bit (take_bit (8 * Suc n) w) i"
      using Suc.IH [of "drop_bit 8 w"]
      by (auto simp: bit_le_word_Cons bit_take_bit_iff bit_drop_bit_eq bit_ucast_iff
          simp del: le_word.simps)
  qed
qed

lemma le_word_le_bytes_full: "LENGTH('a) \<le> 8 * n \<Longrightarrow> le_word (le_bytes n w) = (w :: 'a::len word)"
  by (simp add: le_word_le_bytes take_bit_word_eq_self)

lemma le_u32_roundtrip [simp, codec_simps]: "le_word (le_bytes 4 w) = (w :: 32 word)"
  by (rule le_word_le_bytes_full) simp

lemma le_u64_roundtrip [simp, codec_simps]: "le_word (le_bytes 8 w) = (w :: 64 word)"
  by (rule le_word_le_bytes_full) simp

lemma le_bytes_take_bit: "le_bytes n (take_bit (8 * n) w) = le_bytes n w"
proof (induction n arbitrary: w)
  case 0
  then show ?case by simp
next
  case (Suc n)
  have "ucast (take_bit (8 * Suc n) w) = (ucast w :: byte)"
    by (rule bit_word_eqI) (auto simp: bit_ucast_iff bit_take_bit_iff)
  moreover have "drop_bit 8 (take_bit (8 * Suc n) w) = take_bit (8 * n) (drop_bit 8 w)"
    by (simp add: drop_bit_take_bit)
  ultimately show ?case
    using Suc.IH [of "drop_bit 8 w"] by simp
qed

lemma le_bytes_take_bit_cong:
  "take_bit (8 * n) v = take_bit (8 * n) w \<Longrightarrow> le_bytes n v = le_bytes n w"
  by (metis le_bytes_take_bit)

lemma le_bytes_le_word:
  "8 * length bs \<le> LENGTH('a) \<Longrightarrow> le_bytes (length bs) (le_word bs :: 'a::len word) = bs"
proof (induction bs)
  case Nil
  then show ?case by simp
next
  case (Cons b bs)
  let ?w = "le_word (b # bs) :: 'a word"
  have hd: "ucast ?w = b"
    using Cons.prems by (intro bit_word_eqI) (simp add: bit_ucast_iff bit_le_word_Cons del: le_word.simps)
  have "take_bit (8 * length bs) (drop_bit 8 ?w) = take_bit (8 * length bs) (le_word bs)"
    using Cons.prems
    by (intro bit_word_eqI) (auto simp: bit_take_bit_iff bit_drop_bit_eq bit_le_word_Cons simp del: le_word.simps)
  then have "le_bytes (length bs) (drop_bit 8 ?w) = le_bytes (length bs) (le_word bs :: 'a word)"
    by (rule le_bytes_take_bit_cong)
  then show ?case using Cons hd by simp
qed

section \<open>Go maps\<close>

text \<open>
  A Go map is an association list with distinct keys. Ranging over it visits the pairs in list
  order; Go leaves that order unspecified, and nothing below fixes the order of the list, so a
  statement about every well-formed map covers every iteration order.
\<close>

type_synonym ('k, 'v) gomap = "('k \<times> 'v) list"

abbreviation gm_wf :: "('k, 'v) gomap \<Rightarrow> bool" where
  "gm_wf m \<equiv> distinct (map fst m)"

abbreviation gm_get :: "('k, 'v) gomap \<Rightarrow> 'k \<Rightarrow> 'v option" where
  "gm_get m k \<equiv> map_of m k"

abbreviation gm_put :: "'k \<Rightarrow> 'v \<Rightarrow> ('k, 'v) gomap \<Rightarrow> ('k, 'v) gomap" where
  "gm_put k v m \<equiv> AList.update k v m"

abbreviation gm_del :: "'k \<Rightarrow> ('k, 'v) gomap \<Rightarrow> ('k, 'v) gomap" where
  "gm_del k m \<equiv> AList.delete k m"

abbreviation gm_keys :: "('k, 'v) gomap \<Rightarrow> 'k set" where
  "gm_keys m \<equiv> fst ` set m"

lemma gm_get_put [simp, gomap_simps]: "gm_get (gm_put k v m) k' = (if k' = k then Some v else gm_get m k')"
  by (simp add: update_conv')

lemma gm_get_del [simp, gomap_simps]: "gm_get (gm_del k m) k' = (if k' = k then None else gm_get m k')"
  by (simp add: delete_conv')

lemma gm_keys_get: "k \<in> gm_keys m \<longleftrightarrow> gm_get m k \<noteq> None"
  by (simp add: map_of_eq_None_iff)

lemma gm_unique: "gm_wf m \<Longrightarrow> (k, v) \<in> set m \<Longrightarrow> (k, v') \<in> set m \<Longrightarrow> v = v'"
  by (rule eq_key_imp_eq_value)

lemma gm_wf_put [simp, intro]: "gm_wf m \<Longrightarrow> gm_wf (gm_put k v m)"
  by (rule distinct_update)

lemma gm_wf_del [simp, intro]: "gm_wf m \<Longrightarrow> gm_wf (gm_del k m)"
  by (rule distinct_delete)

lemma gm_keys_put [simp]: "gm_keys (gm_put k v m) = insert k (gm_keys m)"
  by (induction m) auto

lemma gm_keys_del [simp]: "gm_keys (gm_del k m) = gm_keys m - {k}"
  by (induction m) auto

lemma gm_in_put: "gm_wf m \<Longrightarrow> (k', v') \<in> set (gm_put k v m) \<longleftrightarrow>
    (k' = k \<and> v' = v \<or> k' \<noteq> k \<and> (k', v') \<in> set m)"
  by (induction m) (auto simp: rev_image_eqI)

lemma gm_in_del: "gm_wf m \<Longrightarrow> (k', v') \<in> set (gm_del k m) \<longleftrightarrow> k' \<noteq> k \<and> (k', v') \<in> set m"
  by (induction m) (auto simp: rev_image_eqI)

text \<open>The sum of a weight over the pairs of a map, and how an update or a deletion moves it.\<close>

definition gm_sum :: "('k \<Rightarrow> 'v \<Rightarrow> 'n::comm_monoid_add) \<Rightarrow> ('k, 'v) gomap \<Rightarrow> 'n" where
  "gm_sum f m = (\<Sum>(k, v)\<leftarrow>m. f k v)"

lemma gm_sum_simps [simp]:
  "gm_sum f [] = 0"
  "gm_sum f ((k, v) # m) = f k v + gm_sum f m"
  "gm_sum f (m @ m') = gm_sum f m + gm_sum f m'"
  by (simp_all add: gm_sum_def)

definition gm_weight :: "('k \<Rightarrow> 'v \<Rightarrow> 'n::comm_monoid_add) \<Rightarrow> ('k, 'v) gomap \<Rightarrow> 'k \<Rightarrow> 'n" where
  "gm_weight f m k = (case gm_get m k of None \<Rightarrow> 0 | Some v \<Rightarrow> f k v)"

lemma gm_weight_simps [simp]:
  "gm_get m k = None \<Longrightarrow> gm_weight f m k = 0"
  "gm_get m k = Some v \<Longrightarrow> gm_weight f m k = f k v"
  by (simp_all add: gm_weight_def)

lemma gm_sum_put:
  fixes f :: "'k \<Rightarrow> 'v \<Rightarrow> 'n::ab_group_add"
  assumes "gm_wf m"
  shows "gm_sum f (gm_put k v m) = gm_sum f m - gm_weight f m k + f k v"
  using assms
proof (induction m)
  case Nil
  then show ?case by (simp add: gm_weight_def)
next
  case (Cons p m)
  then show ?case
    by (cases p) (auto simp: gm_weight_def algebra_simps)
qed

lemma gm_del_absent: "k \<notin> gm_keys m \<Longrightarrow> gm_del k m = m"
  by (induction m) auto

lemma gm_sum_del:
  fixes f :: "'k \<Rightarrow> 'v \<Rightarrow> 'n::ab_group_add"
  assumes "gm_wf m"
  shows "gm_sum f (gm_del k m) = gm_sum f m - gm_weight f m k"
  using assms
proof (induction m)
  case Nil
  then show ?case by (simp add: gm_weight_def)
next
  case (Cons p m)
  then show ?case
    by (cases p) (auto simp: gm_weight_def gm_del_absent algebra_simps)
qed

lemma length_gm_put: "length (gm_put k v m) = (if k \<in> gm_keys m then length m else Suc (length m))"
  by (induction m) auto

lemma length_gm_del: "gm_wf m \<Longrightarrow> length (gm_del k m) = (if k \<in> gm_keys m then length m - 1 else length m)"
proof (induction m)
  case Nil
  then show ?case by simp
next
  case (Cons p m)
  then show ?case
    by (cases p) (auto simp: gm_del_absent Suc_diff_Suc split: if_splits dest: length_pos_if_in_set)
qed

end
