(* ===== verification/Go_SHA256.thy ===== *)
theory Go_SHA256
  imports KV_Prelude
begin

text \<open>
  \<^verbatim>\<open>crypto/sha256.Sum256\<close>, the one hash the program uses (storeKey in
  \<^verbatim>\<open>internal/cache/store.go\<close>, the block chain in \<^verbatim>\<open>internal/blockhash/blockhash.go\<close>, the ring
  positions in \<^verbatim>\<open>internal/ring/ring.go\<close>): the FIPS 180-4 algorithm, executable. Nothing below
  assumes that it is free of collisions; statements that need two digests to differ say so for the
  two inputs concerned. The locale \<open>digest\<close> is the only law the clients use of it.
\<close>

unbundle bit_operations_syntax

section \<open>The compression function\<close>

definition sha_K :: "uint32 list" where
  "sha_K = [
    1116352408, 1899447441, 3049323471, 3921009573, 961987163, 1508970993, 2453635748, 2870763221,
    3624381080, 310598401, 607225278, 1426881987, 1925078388, 2162078206, 2614888103, 3248222580,
    3835390401, 4022224774, 264347078, 604807628, 770255983, 1249150122, 1555081692, 1996064986,
    2554220882, 2821834349, 2952996808, 3210313671, 3336571891, 3584528711, 113926993, 338241895,
    666307205, 773529912, 1294757372, 1396182291, 1695183700, 1986661051, 2177026350, 2456956037,
    2730485921, 2820302411, 3259730800, 3345764771, 3516065817, 3600352804, 4094571909, 275423344,
    430227734, 506948616, 659060556, 883997877, 958139571, 1322822218, 1537002063, 1747873779,
    1955562222, 2024104815, 2227730452, 2361852424, 2428436474, 2756734187, 3204031479, 3329325298]"

type_synonym sha_state = "uint32 \<times> uint32 \<times> uint32 \<times> uint32 \<times> uint32 \<times> uint32 \<times> uint32 \<times> uint32"

definition sha_H0 :: sha_state where
  "sha_H0 = (1779033703, 3144134277, 1013904242, 2773480762,
     1359893119, 2600822924, 528734635, 1541459225)"

definition sha_S0 :: "uint32 \<Rightarrow> uint32" where
  "sha_S0 x = word_rotr 2 x XOR word_rotr 13 x XOR word_rotr 22 x"

definition sha_S1 :: "uint32 \<Rightarrow> uint32" where
  "sha_S1 x = word_rotr 6 x XOR word_rotr 11 x XOR word_rotr 25 x"

definition sha_s0 :: "uint32 \<Rightarrow> uint32" where
  "sha_s0 x = word_rotr 7 x XOR word_rotr 18 x XOR drop_bit 3 x"

definition sha_s1 :: "uint32 \<Rightarrow> uint32" where
  "sha_s1 x = word_rotr 17 x XOR word_rotr 19 x XOR drop_bit 10 x"

definition sha_Ch :: "uint32 \<Rightarrow> uint32 \<Rightarrow> uint32 \<Rightarrow> uint32" where
  "sha_Ch x y z = (x AND y) XOR (NOT x AND z)"

definition sha_Maj :: "uint32 \<Rightarrow> uint32 \<Rightarrow> uint32 \<Rightarrow> uint32" where
  "sha_Maj x y z = (x AND y) XOR (x AND z) XOR (y AND z)"

fun sha_round :: "uint32 \<Rightarrow> uint32 \<Rightarrow> sha_state \<Rightarrow> sha_state" where
  "sha_round k w (a, b, c, d, e, f, g, h) =
     (let t1 = h + sha_S1 e + sha_Ch e f g + k + w;
          t2 = sha_S0 a + sha_Maj a b c
      in (t1 + t2, a, b, c, d + t1, e, f, g))"

text \<open>
  The message schedule as a window of sixteen words: its head is the word of the current round, and
  the word sixteen rounds ahead enters at the end.
\<close>

fun sha_rounds :: "uint32 list \<Rightarrow> uint32 list \<Rightarrow> sha_state \<Rightarrow> sha_state" where
  "sha_rounds [] w st = st"
| "sha_rounds (k # ks) w st =
     (let w16 = sha_s1 (w ! 14) + w ! 9 + sha_s0 (w ! 1) + w ! 0
      in sha_rounds ks (tl w @ [w16]) (sha_round k (w ! 0) st))"

fun sha_add :: "sha_state \<Rightarrow> sha_state \<Rightarrow> sha_state" where
  "sha_add (a, b, c, d, e, f, g, h) (a', b', c', d', e', f', g', h') =
     (a + a', b + b', c + c', d + d', e + e', f + f', g + g', h + h')"

section \<open>Padding and the digest\<close>

text \<open>\<open>chunks n\<close> cuts a list into pieces of \<open>n\<close> elements (one call per piece).\<close>

function chunks :: "nat \<Rightarrow> 'a list \<Rightarrow> 'a list list" where
  "chunks n xs = (if xs = [] \<or> n = 0 then [] else take n xs # chunks n (drop n xs))"
  by pat_completeness auto
termination
  by (relation "measure (\<lambda>(n, xs). length xs)") auto

declare chunks.simps [simp del]

definition sha_block :: "sha_state \<Rightarrow> bytes \<Rightarrow> sha_state" where
  "sha_block st blk = sha_add st (sha_rounds sha_K (map be_word (chunks 4 blk)) st)"

definition sha_pad :: "bytes \<Rightarrow> bytes" where
  "sha_pad m = m @ [128] @ replicate ((119 - length m mod 64) mod 64) 0
                 @ be_bytes 8 (word_of_nat (8 * length m) :: uint64)"

fun sha_digest :: "sha_state \<Rightarrow> bytes" where
  "sha_digest (a, b, c, d, e, f, g, h) = concat (map (be_bytes 4) [a, b, c, d, e, f, g, h])"

definition sha256 :: "bytes \<Rightarrow> bytes" where
  "sha256 m = sha_digest (foldl sha_block sha_H0 (chunks 64 (sha_pad m)))"

section \<open>The law its clients use\<close>

lemma length_sha_digest: "length (sha_digest st) = 32"
  by (induction st rule: sha_digest.induct) simp

lemma length_sha256 [simp, codec_simps]: "length (sha256 m) = 32"
  by (simp add: sha256_def length_sha_digest)

text \<open>
  A digest yields 32 bytes, so it fits the program's \<^verbatim>\<open>[32]byte\<close> keys, and a 32-byte suffix can be
  cut off an input unambiguously.
\<close>

locale digest =
  fixes H :: "bytes \<Rightarrow> bytes"
  assumes digest_length: "length (H m) = 32"
begin

lemma digest_suffix_inj: "xs @ H a = ys @ H b \<longleftrightarrow> xs = ys \<and> H a = H b"
  by (rule append_eq_append_conv) (simp add: digest_length)

lemma digest_not_Nil: "H m \<noteq> []"
  using digest_length [of m] by auto

end

interpretation sha: digest sha256
  by unfold_locales simp

end
