(* ===== verification/Block_Hash.thy ===== *)
theory Block_Hash
  imports Go_SHA256
begin

text \<open>
  \<^verbatim>\<open>internal/blockhash/blockhash.go\<close>: the chained per-block cache keys. \<open>ChainBlocks\<close> is the loop of
  the source (a \<^verbatim>\<open>nil\<close> slice is \<^term>\<open>None\<close>); \<open>chainInputs\<close> is the reference: the list of byte strings
  that are hashed, the seed first. The lemmas show that the loop computes the digests of the reference,
  that equal token prefixes give equal keys, and that equal keys come from equal prefixes of the same
  model unless two of the hashed strings at the same position collide.
\<close>

section \<open>The code\<close>

definition seedPrefix :: bytes where
  "seedPrefix = str_bytes ''kvcache/v1'' @ [0]"

record Block =
  Hash :: bytes
  TokenIDs :: "int32 list"

definition encodeTokens :: "int32 list \<Rightarrow> bytes" where
  "encodeTokens toks = concat (map (le_bytes 4) toks)"

function chainLoop :: "int32 list \<Rightarrow> nat \<Rightarrow> nat \<Rightarrow> nat \<Rightarrow> bytes \<Rightarrow> Block list \<Rightarrow> Block list" where
  "chainLoop tokenIDs blockTokens numBlocks b prev blocks =
     (if b < numBlocks then
        let toks = take blockTokens (drop (b * blockTokens) tokenIDs);
            prev' = sha256 (prev @ encodeTokens toks)
        in chainLoop tokenIDs blockTokens numBlocks (b + 1) prev'
             (blocks @ [\<lparr>Hash = prev', TokenIDs = toks\<rparr>])
      else blocks)"
  by pat_completeness auto
termination
  by (relation "measure (\<lambda>(_, _, n, b, _). n - b)") auto

declare chainLoop.simps [simp del]

definition ChainBlocks :: "string \<Rightarrow> int32 list \<Rightarrow> int \<Rightarrow> Block list option" where
  "ChainBlocks modelID tokenIDs blockTokens =
     (if blockTokens \<le> 0 \<or> int (length tokenIDs) < blockTokens then None
      else let bt = nat blockTokens; numBlocks = length tokenIDs div bt
           in Some (chainLoop tokenIDs bt numBlocks 0 (sha256 (seedPrefix @ str_bytes modelID)) []))"

definition Chain :: "string \<Rightarrow> int32 list \<Rightarrow> int \<Rightarrow> bytes list option" where
  "Chain modelID tokenIDs blockTokens =
     (case ChainBlocks modelID tokenIDs blockTokens of
        None \<Rightarrow> None
      | Some blocks \<Rightarrow> Some (map Hash blocks))"

section \<open>The reference\<close>

text \<open>Token block \<open>i\<close>, and the strings hashed for a model: the seed, then one per block.\<close>

definition tokenBlock :: "int32 list \<Rightarrow> nat \<Rightarrow> nat \<Rightarrow> int32 list" where
  "tokenBlock tokenIDs bt i = take bt (drop (i * bt) tokenIDs)"

fun chainInput :: "string \<Rightarrow> int32 list \<Rightarrow> nat \<Rightarrow> nat \<Rightarrow> bytes" where
  "chainInput modelID tokenIDs bt 0 = seedPrefix @ str_bytes modelID"
| "chainInput modelID tokenIDs bt (Suc i) =
     sha256 (chainInput modelID tokenIDs bt i) @ encodeTokens (tokenBlock tokenIDs bt i)"

definition specBlock :: "string \<Rightarrow> int32 list \<Rightarrow> nat \<Rightarrow> nat \<Rightarrow> Block" where
  "specBlock modelID tokenIDs bt i =
     \<lparr>Hash = sha256 (chainInput modelID tokenIDs bt (Suc i)), TokenIDs = tokenBlock tokenIDs bt i\<rparr>"

section \<open>The loop computes the reference\<close>

lemma chainLoop_spec:
  assumes "b \<le> n" and "prev = sha256 (chainInput modelID tokenIDs bt b)"
  shows "chainLoop tokenIDs bt n b prev acc = acc @ map (specBlock modelID tokenIDs bt) [b..<n]"
  using assms
proof (induction tokenIDs bt n b prev acc rule: chainLoop.induct)
  case (1 tokenIDs bt n b prev acc)
  show ?case
  proof (cases "b < n")
    case True
    let ?toks = "take bt (drop (b * bt) tokenIDs)"
    let ?prev = "sha256 (prev @ encodeTokens ?toks)"
    have prev: "?prev = sha256 (chainInput modelID tokenIDs bt (Suc b))"
      using "1.prems"(2) by (simp add: tokenBlock_def)
    have "chainLoop tokenIDs bt n (b + 1) ?prev (acc @ [\<lparr>Hash = ?prev, TokenIDs = ?toks\<rparr>]) =
        acc @ [specBlock modelID tokenIDs bt b] @ map (specBlock modelID tokenIDs bt) [b + 1..<n]"
      using "1.IH" [OF True refl refl] True prev by (simp add: specBlock_def tokenBlock_def)
    then show ?thesis
      using True by (simp add: chainLoop.simps [of tokenIDs bt n b] upt_conv_Cons)
  next
    case False
    with "1.prems"(1) show ?thesis by (subst chainLoop.simps) simp
  qed
qed

lemma ChainBlocks_eq:
  "ChainBlocks modelID tokenIDs blockTokens =
     (if blockTokens \<le> 0 \<or> int (length tokenIDs) < blockTokens then None
      else Some (map (specBlock modelID tokenIDs (nat blockTokens))
                     [0..<length tokenIDs div nat blockTokens]))"
  by (simp add: ChainBlocks_def Let_def chainLoop_spec)

lemma ChainBlocks_nth:
  assumes "ChainBlocks modelID tokenIDs (int bt) = Some bs" and "i < length bs"
  shows "bs ! i = specBlock modelID tokenIDs bt i"
  using assms by (auto simp: ChainBlocks_eq split: if_splits)

lemma length_encodeTokens [simp, codec_simps]: "length (encodeTokens toks) = 4 * length toks"
  by (induction toks) (simp_all add: encodeTokens_def)

lemma encodeTokens_inj: "encodeTokens xs = encodeTokens ys \<longleftrightarrow> xs = ys"
proof
  show "encodeTokens xs = encodeTokens ys \<Longrightarrow> xs = ys"
  proof (induction xs arbitrary: ys)
    case Nil
    from arg_cong [OF Nil.prems, of length] have "4 * length ys = 0"
      unfolding length_encodeTokens by simp
    then show ?case by simp
  next
    case (Cons x xs)
    then have "length (encodeTokens ys) = 4 * Suc (length xs)"
      by (metis length_Cons length_encodeTokens)
    then obtain y ys' where ys: "ys = y # ys'" by (cases ys) auto
    with Cons.prems have "le_bytes 4 x = le_bytes 4 y" and "encodeTokens xs = encodeTokens ys'"
      by (simp_all add: encodeTokens_def)
    with Cons.IH ys show ?case by (metis le_u32_roundtrip)
  qed
qed simp

lemma tokenBlock_prefix: "take (Suc i * bt) xs = take (i * bt) xs @ tokenBlock xs bt i"
  by (simp add: tokenBlock_def add.commute flip: take_add)

lemma tokenBlock_cong:
  assumes "take (n * bt) xs = take (n * bt) ys" and "i < n"
  shows "tokenBlock xs bt i = tokenBlock ys bt i"
proof -
  have "i * bt + bt \<le> n * bt" using mult_le_mono1 [of "Suc i" n bt] assms(2) by simp
  then have "tokenBlock zs bt i = drop (i * bt) (take (i * bt + bt) (take (n * bt) zs))" for zs :: "int32 list"
    by (simp add: tokenBlock_def drop_take min_absorb1)
  with assms(1) show ?thesis by (simp only:)
qed

lemma chainInput_cong:
  assumes "take (n * bt) xs = take (n * bt) ys" and "i \<le> n"
  shows "chainInput m xs bt i = chainInput m ys bt i"
  using assms(2) by (induction i) (simp_all add: tokenBlock_cong [OF assms(1)])

lemma chainInput_Suc_eqD:
  assumes "chainInput m xs bt (Suc i) = chainInput m' ys bt (Suc i)"
    and "length (tokenBlock xs bt i) = length (tokenBlock ys bt i)"
  shows "sha256 (chainInput m xs bt i) = sha256 (chainInput m' ys bt i)"
    and "tokenBlock xs bt i = tokenBlock ys bt i"
  using assms by (simp_all add: encodeTokens_inj)

lemma length_tokenBlock: "Suc i \<le> length xs div bt \<Longrightarrow> length (tokenBlock xs bt i) = bt"
proof -
  assume "Suc i \<le> length xs div bt"
  then have "Suc i * bt \<le> length xs"
    by (metis div_mult2_eq le_trans mult.commute mult_le_mono2 times_div_less_eq_dividend)
  then show ?thesis by (simp add: tokenBlock_def)
qed

section \<open>Properties\<close>

text \<open>
  Property C38: the loop of \<^verbatim>\<open>ChainBlocks\<close> returns \<^verbatim>\<open>nil\<close> exactly for a non-positive block size or a
  sequence shorter than one block, and otherwise one block per full block of tokens, in order, each with
  the digest of the previous digest followed by its own little-endian tokens, the first one chained to
  the digest of the model's seed; a trailing partial block is dropped.
\<close>

theorem ChainBlocks_equals_reference:
  "ChainBlocks modelID tokenIDs blockTokens =
     (if blockTokens \<le> 0 \<or> int (length tokenIDs) < blockTokens then None
      else Some (map (specBlock modelID tokenIDs (nat blockTokens))
                     [0..<length tokenIDs div nat blockTokens]))"
  by (rule ChainBlocks_eq)

text \<open>
  Two token sequences of one model that agree on their first \<open>n\<close> blocks have the same
  first \<open>n\<close> block keys (and blocks), so a shared prompt prefix hits the same cache entries.
\<close>

lemma ChainBlocks_shared_prefix:
  assumes "ChainBlocks m xs (int bt) = Some bs" and "ChainBlocks m ys (int bt) = Some cs"
    and "take (n * bt) xs = take (n * bt) ys" and "n \<le> length bs" and "n \<le> length cs"
  shows "take n bs = take n cs"
proof (rule nth_equalityI)
  fix i assume "i < length (take n bs)"
  then have i: "i < n" "i < length bs" "i < length cs" using assms(4,5) by auto
  have "specBlock m xs bt i = specBlock m ys bt i"
    using i assms(3) chainInput_cong [of n bt xs ys "Suc i" m] tokenBlock_cong [of n bt xs ys i]
    by (simp add: specBlock_def)
  then show "take n bs ! i = take n cs ! i"
    using i ChainBlocks_nth [OF assms(1)] ChainBlocks_nth [OF assms(2)] by simp
qed (use assms(4,5) in simp)

text \<open>
  Property C39: a block key identifies the model and the whole token prefix up to its block. If block
  \<open>i\<close> of two sequences (of any two models) has the same key, then the models are the same and the first
  \<open>i + 1\<close> blocks of tokens are the same, provided the two strings hashed at each position of the two
  chains up to block \<open>i\<close> do not collide under SHA-256.
\<close>

theorem ChainBlocks_key_identifies_prefix:
  assumes "ChainBlocks m xs (int bt) = Some bs" and "ChainBlocks m' ys (int bt) = Some cs"
    and "i < length bs" and "i < length cs" and "Hash (bs ! i) = Hash (cs ! i)"
    and no_collision: "\<And>j. j \<le> Suc i \<Longrightarrow>
      sha256 (chainInput m xs bt j) = sha256 (chainInput m' ys bt j) \<Longrightarrow>
      chainInput m xs bt j = chainInput m' ys bt j"
  shows "m = m' \<and> take (Suc i * bt) xs = take (Suc i * bt) ys"
proof -
  have eq: "sha256 (chainInput m xs bt (Suc i)) = sha256 (chainInput m' ys bt (Suc i))"
    using assms(5) ChainBlocks_nth [OF assms(1,3)] ChainBlocks_nth [OF assms(2,4)]
    by (simp add: specBlock_def)
  have "Suc i \<le> length xs div bt" "Suc i \<le> length ys div bt"
    using assms(1-4) by (auto simp: ChainBlocks_eq split: if_splits)
  moreover have "sha256 (chainInput m xs bt n) = sha256 (chainInput m' ys bt n) \<Longrightarrow>
      m = m' \<and> take (n * bt) xs = take (n * bt) ys"
    if "n \<le> Suc i" "n \<le> length xs div bt" "n \<le> length ys div bt" for n
    using that
  proof (induction n)
    case 0
    then show ?case using no_collision [of 0] by simp
  next
    case (Suc n)
    from Suc.prems(1,2) have same: "chainInput m xs bt (Suc n) = chainInput m' ys bt (Suc n)"
      by (intro no_collision)
    have len: "length (tokenBlock xs bt n) = length (tokenBlock ys bt n)"
      using Suc.prems(3,4) by (simp add: length_tokenBlock)
    have "m = m' \<and> take (n * bt) xs = take (n * bt) ys"
      using Suc.prems(2-4) chainInput_Suc_eqD(1) [OF same len] by (intro Suc.IH) simp_all
    then show ?case
      using chainInput_Suc_eqD(2) [OF same len] by (simp only: tokenBlock_prefix simp_thms)
  qed
  ultimately show ?thesis using eq by blast
qed

theorem ChainBlocks_key_identifies_prefix_witness:
  "\<exists>bs cs. ChainBlocks ''m'' [1, 2, 3, 4] 2 = Some bs \<and> ChainBlocks ''m'' [1, 2, 9] 2 = Some cs \<and>
     Hash (bs ! 0) = Hash (cs ! 0) \<and> take 2 [1, 2, 3, 4 :: int32] = take 2 [1, 2, 9]"
proof -
  let ?bs = "map (specBlock ''m'' [1, 2, 3, 4] 2) [0, 1]"
  let ?cs = "map (specBlock ''m'' [1, 2, 9] 2) [0]"
  have b: "ChainBlocks ''m'' [1, 2, 3, 4] (int 2) = Some ?bs"
    and c: "ChainBlocks ''m'' [1, 2, 9] (int 2) = Some ?cs"
    by (simp_all add: ChainBlocks_eq upt_rec)
  have in_eq: "chainInput ''m'' [1, 2, 3, 4] 2 j = chainInput ''m'' [1, 2, 9] 2 j" if "j \<le> Suc 0" for j
    using that by (intro chainInput_cong [of 1]) simp_all
  have h: "Hash (?bs ! 0) = Hash (?cs ! 0)"
    using in_eq [of 1] by (simp add: specBlock_def)
  have "''m'' = ''m'' \<and> take (Suc 0 * 2) [1, 2, 3, 4 :: int32] = take (Suc 0 * 2) [1, 2, 9]"
    by (rule ChainBlocks_key_identifies_prefix [OF b c _ _ h]) (use in_eq in simp_all)
  with b c h show ?thesis by (intro exI [of _ ?bs] exI [of _ ?cs]) simp
qed

end
