(* ===== verification/Go_Strings.thy ===== *)
theory Go_Strings
  imports KV_Prelude "HOL-Library.Sublist"
begin

text \<open>
  The parts of Go's \<^verbatim>\<open>strings\<close>, \<^verbatim>\<open>strconv\<close> and \<^verbatim>\<open>fmt\<close> that the commands use on flag values. A Go string is a
  list of bytes, so the Unicode blanks that \<^verbatim>\<open>strings.TrimSpace\<close> removes are their UTF-8 encodings.
\<close>

section \<open>Numbers\<close>

text \<open>\<^verbatim>\<open>%d\<close> of a non-negative integer, and of any integer.\<close>

fun decimal :: "nat \<Rightarrow> string" where
  "decimal n = (if n < 10 then [char_of (48 + n)] else decimal (n div 10) @ [char_of (48 + n mod 10)])"

declare decimal.simps [simp del]

definition Itoa :: "int \<Rightarrow> string" where
  "Itoa i = (if i < 0 then ''-'' @ decimal (nat (- i)) else decimal (nat i))"

definition digit_of :: "char \<Rightarrow> nat option" where
  "digit_of c = (let n = of_char c :: nat in if 48 \<le> n \<and> n \<le> 57 then Some (n - 48) else None)"

text \<open>The digits of \<^verbatim>\<open>strconv.ParseUint\<close> in base 10.\<close>

fun digits :: "string \<Rightarrow> nat \<Rightarrow> nat option" where
  "digits [] acc = Some acc"
| "digits (c # cs) acc = (case digit_of c of None \<Rightarrow> None | Some d \<Rightarrow> digits cs (10 * acc + d))"

text \<open>\<^verbatim>\<open>strconv.ParseInt(s, 10, 64)\<close>; \<^term>\<open>None\<close> is a syntax or a range error.\<close>

definition ParseInt :: "string \<Rightarrow> int64 option" where
  "ParseInt s =
     (let (neg, ds) = (case s of c # cs \<Rightarrow> if c = CHR ''-'' then (True, cs) else if c = CHR ''+'' then (False, cs) else (False, s)
                       | [] \<Rightarrow> (False, []))
      in if ds = [] then None
         else case digits ds 0 of
                None \<Rightarrow> None
              | Some n \<Rightarrow> if neg then (if n \<le> 2 ^ 63 then Some (- word_of_nat n) else None)
                          else (if n < 2 ^ 63 then Some (word_of_nat n) else None))"

section \<open>Strings\<close>

text \<open>\<^verbatim>\<open>unicode.IsSpace\<close>, as the encodings of the runes it accepts.\<close>

definition spaces :: "string list" where
  "spaces = map (map char_of)
     ([[9], [10], [11], [12], [13], [32], [194, 133], [194, 160], [225, 154, 128]] @
      map (\<lambda>n. [226, 128, n]) ([128..<139] @ [168, 169, 175]) @ [[226, 129, 159], [227, 128, 128 :: nat]])"

function trimLeft :: "string list \<Rightarrow> string \<Rightarrow> string" where
  "trimLeft ps s =
     (case List.find (\<lambda>p. p \<noteq> [] \<and> prefix p s) ps of None \<Rightarrow> s | Some p \<Rightarrow> trimLeft ps (drop (length p) s))"
  by pat_completeness auto
termination
  by (relation "measure (\<lambda>(ps, s). length s)") (auto simp: find_Some_iff prefix_def)

declare trimLeft.simps [simp del]

definition trimRight :: "string list \<Rightarrow> string \<Rightarrow> string" where
  "trimRight ps s = rev (trimLeft (map rev ps) (rev s))"

definition TrimSpace :: "string \<Rightarrow> string" where
  "TrimSpace s = trimRight spaces (trimLeft spaces s)"

text \<open>\<^verbatim>\<open>strings.Split\<close> and \<^verbatim>\<open>strings.Cut\<close> at a separator of one byte.\<close>

fun Split :: "char \<Rightarrow> string \<Rightarrow> string list" where
  "Split sep [] = [[]]"
| "Split sep (c # cs) =
     (if c = sep then [] # Split sep cs else (case Split sep cs of [] \<Rightarrow> [[c]] | p # ps \<Rightarrow> (c # p) # ps))"

definition Cut :: "char \<Rightarrow> string \<Rightarrow> string \<times> string \<times> bool" where
  "Cut sep s = (if sep \<in> set s then (takeWhile (\<lambda>c. c \<noteq> sep) s, tl (dropWhile (\<lambda>c. c \<noteq> sep) s), True) else (s, [], False))"

text \<open>\<^verbatim>\<open>strings.Join\<close>, the inverse of a split.\<close>

fun Join :: "char \<Rightarrow> string list \<Rightarrow> string" where
  "Join sep [] = []"
| "Join sep [p] = p"
| "Join sep (p # ps) = p @ sep # Join sep ps"

section \<open>Their laws\<close>

lemma Split_nonempty [simp]: "Split sep s \<noteq> []"
  by (induction sep s rule: Split.induct) (auto split: list.splits)

lemma Split_plain: "sep \<notin> set p \<Longrightarrow> Split sep p = [p]"
  by (induction p) auto

lemma Split_append: "sep \<notin> set p \<Longrightarrow> Split sep (p @ sep # s) = p # Split sep s"
  by (induction p) auto

lemma Split_Join: "ps \<noteq> [] \<Longrightarrow> \<forall>p \<in> set ps. sep \<notin> set p \<Longrightarrow> Split sep (Join sep ps) = ps"
  by (induction sep ps rule: Join.induct) (simp_all add: Split_plain Split_append)

lemma Join_Split: "Join sep (Split sep s) = s"
proof (induction sep s rule: Split.induct)
  case (2 sep c cs)
  obtain p ps where "Split sep cs = p # ps" by (cases "Split sep cs") auto
  then show ?case using 2 by (cases ps) auto
qed simp

lemma Split_part: "p \<in> set (Split sep s) \<Longrightarrow> sep \<notin> set p"
  by (induction sep s arbitrary: p rule: Split.induct) (auto split: list.splits if_splits)

lemma Cut_append: "sep \<notin> set k \<Longrightarrow> Cut sep (k @ sep # v) = (k, v, True)"
  by (simp add: Cut_def takeWhile_append1 dropWhile_append1 takeWhile_tail) (metis (mono_tags, lifting) append.right_neutral dropWhile.simps(2) dropWhile_append2 list.sel(3) takeWhile_append2 takeWhile.simps(2))

text \<open>Trimming stops where no blank begins.\<close>

definition no_blank :: "string list \<Rightarrow> string \<Rightarrow> bool" where
  "no_blank ps s \<longleftrightarrow> (\<forall>p \<in> set ps. p \<noteq> [] \<longrightarrow> \<not> prefix p s)"

lemma trimLeft_id: "no_blank ps s \<Longrightarrow> trimLeft ps s = s"
proof -
  assume "no_blank ps s"
  then have "List.find (\<lambda>p. p \<noteq> [] \<and> prefix p s) ps = None" by (auto simp: find_None_iff no_blank_def)
  then show ?thesis by (subst trimLeft.simps) simp
qed

lemma trimLeft_no_blank: "no_blank ps (trimLeft ps s)"
proof (induction ps s rule: trimLeft.induct)
  case (1 ps s)
  show ?case
  proof (cases "List.find (\<lambda>p. p \<noteq> [] \<and> prefix p s) ps")
    case None
    then have "no_blank ps s" by (auto simp: find_None_iff no_blank_def)
    then show ?thesis by (simp add: trimLeft_id)
  next
    case (Some p)
    then show ?thesis using 1 by (subst trimLeft.simps) simp
  qed
qed

lemma trimLeft_suffix: "suffix (trimLeft ps s) s"
proof (induction ps s rule: trimLeft.induct)
  case (1 ps s)
  show ?case
  proof (cases "List.find (\<lambda>p. p \<noteq> [] \<and> prefix p s) ps")
    case (Some p)
    then have "suffix (trimLeft ps (drop (length p) s)) (drop (length p) s)" using 1 by blast
    then show ?thesis using Some suffix_drop suffix_order.trans by (subst trimLeft.simps) fastforce
  qed (subst trimLeft.simps, simp)
qed

lemma no_blank_prefix: "no_blank ps s \<Longrightarrow> prefix t s \<Longrightarrow> no_blank ps t"
  unfolding no_blank_def using prefix_order.trans by blast

lemma trimRight_prefix: "prefix (trimRight ps s) s"
  using trimLeft_suffix [of "map rev ps" "rev s"] by (simp add: trimRight_def suffix_to_prefix)

lemma TrimSpace_sublist: "set (TrimSpace s) \<subseteq> set s"
  using set_mono_prefix [OF trimRight_prefix] set_mono_suffix [OF trimLeft_suffix] unfolding TrimSpace_def by blast

lemma TrimSpace_idem [simp]: "TrimSpace (TrimSpace s) = TrimSpace s"
proof -
  let ?l = "trimLeft spaces s"
  have "no_blank spaces (TrimSpace s)"
    unfolding TrimSpace_def by (rule no_blank_prefix [OF trimLeft_no_blank trimRight_prefix])
  moreover have "trimRight spaces (trimRight spaces ?l) = trimRight spaces ?l"
    by (simp add: trimRight_def trimLeft_id [OF trimLeft_no_blank])
  ultimately show ?thesis by (simp add: TrimSpace_def trimLeft_id)
qed

text \<open>A string that begins and ends with a printable ASCII character is not trimmed.\<close>

definition graphic :: "char \<Rightarrow> bool" where
  "graphic c \<longleftrightarrow> 32 < (of_char c :: nat) \<and> (of_char c :: nat) < 128"

lemma spaces_ends: "p \<in> set spaces \<Longrightarrow> p \<noteq> [] \<and> \<not> graphic (hd p) \<and> \<not> graphic (last p)"
  by (auto simp: spaces_def graphic_def)

lemma TrimSpace_graphic:
  assumes "s \<noteq> [] \<Longrightarrow> graphic (hd s) \<and> graphic (last s)"
  shows "TrimSpace s = s"
proof -
  have l: "no_blank spaces s"
    using assms spaces_ends by (force simp: no_blank_def prefix_def)
  have "\<not> prefix (rev p) (rev s)" if "p \<in> set spaces" for p
    using assms spaces_ends [OF that] by (auto simp: suffix_to_prefix [symmetric] suffix_def)
  then have "no_blank (map rev spaces) (rev s)" by (auto simp: no_blank_def)
  then show ?thesis by (simp add: TrimSpace_def trimRight_def trimLeft_id l)
qed

lemma TrimSpace_Nil [simp]: "TrimSpace [] = []"
  by (simp add: TrimSpace_graphic)

text \<open>Printing and parsing a number.\<close>

lemma decimal_nonempty [simp]: "decimal n \<noteq> []"
  by (subst decimal.simps) simp

lemma digit_of_char: "d < 10 \<Longrightarrow> digit_of (char_of (48 + d)) = Some d"
  by (simp add: digit_of_def Let_def)

lemma digits_append: "digits (s @ t) acc = (case digits s acc of None \<Rightarrow> None | Some a \<Rightarrow> digits t a)"
  by (induction s acc rule: digits.induct) (auto split: option.split)

lemma digits_decimal: "digits (decimal n) 0 = Some n"
proof (induction n rule: decimal.induct)
  case (1 n)
  show ?case
  proof (cases "n < 10")
    case True
    then show ?thesis by (subst decimal.simps) (simp add: digit_of_char)
  next
    case False
    then show ?thesis using 1 by (subst decimal.simps) (simp add: digits_append digit_of_char)
  qed
qed

lemma decimal_digit: "c \<in> set (decimal n) \<Longrightarrow> digit_of c \<noteq> None"
proof (induction n rule: decimal.induct)
  case (1 n)
  then show ?case
  proof (cases "n < 10")
    case True
    then show ?thesis using 1(2) by (subst (asm) decimal.simps) (auto simp: digit_of_char)
  next
    case False
    have "c \<in> set (decimal (n div 10)) \<or> c = char_of (48 + n mod 10)"
      using 1(2) False by (subst (asm) decimal.simps) auto
    then show ?thesis using 1(1) False by (auto simp: digit_of_char)
  qed
qed

lemma digit_graphic: "digit_of c \<noteq> None \<Longrightarrow> graphic c \<and> c \<noteq> CHR ''-'' \<and> c \<noteq> CHR ''+'' \<and> c \<noteq> CHR '','' \<and> c \<noteq> CHR ''=''"
  by (auto simp: digit_of_def graphic_def Let_def split: if_splits)

lemma ParseInt_decimal: "n < 2 ^ 63 \<Longrightarrow> ParseInt (decimal n) = Some (word_of_nat n)"
proof -
  assume n: "n < 2 ^ 63"
  obtain c cs where d: "decimal n = c # cs" by (cases "decimal n") auto
  then have "c \<noteq> CHR ''-'' \<and> c \<noteq> CHR ''+''" using decimal_digit [of c n] digit_graphic by simp
  then show ?thesis using n digits_decimal [of n] by (simp add: ParseInt_def d)
qed

lemma decimal_inj: "decimal m = decimal n \<longleftrightarrow> m = n"
  using digits_decimal by (metis option.inject)

lemma Itoa_inj: "Itoa i = Itoa j \<longleftrightarrow> i = j"
proof -
  have "decimal n \<noteq> CHR ''-'' # s" for n s
    using decimal_digit [of "CHR ''-''" n] digit_graphic [of "CHR ''-''"] by (metis list.set_intros(1))
  then have "''-'' @ decimal m \<noteq> decimal n" "decimal n \<noteq> ''-'' @ decimal m" for m n by (metis append_Cons append_Nil)+
  then show ?thesis by (auto simp: Itoa_def decimal_inj)
qed

end
