(* ===== verification/Ring.thy ===== *)
theory Ring
  imports Go_SHA256 Go_Strings "HOL-Library.Multiset" "HOL-Library.Product_Lexorder"
begin

text \<open>
  \<^verbatim>\<open>internal/ring/ring.go\<close>: the consistent-hash ring. \<^verbatim>\<open>sort.Slice\<close> promises a sorted permutation and no
  more, so it is a parameter of \<open>ring_Add\<close> with the contract \<open>slice_sorter\<close>; \<^verbatim>\<open>sort.Search\<close> is its
  binary search. The walk around the circle is \<open>walk\<close>, the distinct owners of a key in clockwise order,
  and every lookup is a prefix of it.
\<close>

section \<open>The code\<close>

record vpoint =
  vp_hash :: uint64
  vp_node :: string

record Ring =
  r_vnodes :: nat
  r_points :: "vpoint list"
  r_members :: "(string, unit) gomap"

text \<open>A panic is \<^term>\<open>None\<close>.\<close>

definition ring_New :: "int \<Rightarrow> Ring option" where
  "ring_New vnodes =
     (if vnodes \<le> 0 then None else Some \<lparr>r_vnodes = nat vnodes, r_points = [], r_members = []\<rparr>)"

definition vnodeHash :: "string \<Rightarrow> nat \<Rightarrow> uint64" where
  "vnodeHash node i = be_word (take 8 (sha256 (str_bytes (node @ ''#'' @ decimal i))))"

definition keyHash :: "bytes \<Rightarrow> uint64" where
  "keyHash key =
     (if 8 \<le> length key then be_word (take 8 key) else be_word (key @ replicate (8 - length key) 0))"

function sort_Search_loop :: "nat \<Rightarrow> nat \<Rightarrow> (nat \<Rightarrow> bool) \<Rightarrow> nat" where
  "sort_Search_loop i j f =
     (if i < j then
        let h = (i + j) div 2
        in if \<not> f h then sort_Search_loop (h + 1) j f else sort_Search_loop i h f
      else i)"
  by pat_completeness auto
termination
  by (relation "measure (\<lambda>(i, j, f). j - i)") (auto simp: Let_def)

declare sort_Search_loop.simps [simp del]

definition sort_Search :: "nat \<Rightarrow> (nat \<Rightarrow> bool) \<Rightarrow> nat" where
  "sort_Search n f = sort_Search_loop 0 n f"

definition ring_Add :: "(vpoint list \<Rightarrow> vpoint list) \<Rightarrow> string \<Rightarrow> Ring \<Rightarrow> Ring" where
  "ring_Add sortSlice node r =
     (case gm_get (r_members r) node of
        Some _ \<Rightarrow> r
      | None \<Rightarrow>
          let points = fold (\<lambda>i ps. ps @ [\<lparr>vp_hash = vnodeHash node i, vp_node = node\<rparr>]) [0..<r_vnodes r] (r_points r)
          in r\<lparr>r_points := sortSlice points, r_members := gm_put node () (r_members r)\<rparr>)"

definition ring_Remove :: "string \<Rightarrow> Ring \<Rightarrow> Ring" where
  "ring_Remove node r =
     (case gm_get (r_members r) node of
        None \<Rightarrow> r
      | Some _ \<Rightarrow>
          let kept = fold (\<lambda>p kept. if vp_node p \<noteq> node then kept @ [p] else kept) (r_points r) []
          in r\<lparr>r_points := kept, r_members := gm_del node (r_members r)\<rparr>)"

definition startIdx :: "bytes \<Rightarrow> Ring \<Rightarrow> nat" where
  "startIdx key r =
     (let h = keyHash key;
          idx = sort_Search (length (r_points r)) (\<lambda>i. h \<le> vp_hash (r_points r ! i))
      in if idx = length (r_points r) then 0 else idx)"

definition Lookup :: "bytes \<Rightarrow> Ring \<Rightarrow> string" where
  "Lookup key r = (if r_points r = [] then [] else vp_node (r_points r ! startIdx key r))"

function lookupLoop :: "vpoint list \<Rightarrow> nat \<Rightarrow> nat \<Rightarrow> nat \<Rightarrow> string list \<Rightarrow> string list" where
  "lookupLoop points idx n step out =
     (if step < length points \<and> length out < n then
        let node = vp_node (points ! ((idx + step) mod length points))
        in if node \<in> set out then lookupLoop points idx n (step + 1) out
           else lookupLoop points idx n (step + 1) (out @ [node])
      else out)"
  by pat_completeness auto
termination
  by (relation "measure (\<lambda>(points, idx, n, step, out). length points - step)") auto

declare lookupLoop.simps [simp del]

text \<open>The set \<^verbatim>\<open>seen\<close> of the loop is the set of the collected nodes.\<close>

definition LookupN :: "bytes \<Rightarrow> int \<Rightarrow> Ring \<Rightarrow> string list" where
  "LookupN key n r =
     (if r_points r = [] \<or> n \<le> 0 then []
      else let n' = (if int (length (r_members r)) < n then int (length (r_members r)) else n)
           in lookupLoop (r_points r) (startIdx key r) (nat n') 0 [])"

definition Nodes :: "Ring \<Rightarrow> string list" where
  "Nodes r = map fst (r_members r)"

section \<open>The contract of sort.Slice\<close>

locale slice_sorter =
  fixes sortSlice :: "vpoint list \<Rightarrow> vpoint list"
  assumes perm_law: "mset (sortSlice ps) = mset ps"
    and sorted_law: "sorted (map vp_hash (sortSlice ps))"

interpretation stable: slice_sorter "sort_key vp_hash"
  by unfold_locales simp_all

section \<open>Binary search\<close>

lemma sort_Search_loop_bounds: "i \<le> j \<Longrightarrow> i \<le> sort_Search_loop i j f \<and> sort_Search_loop i j f \<le> j"
proof (induction i j f rule: sort_Search_loop.induct)
  case (1 i j f)
  let ?h = "(i + j) div 2"
  show ?case
  proof (cases "i < j")
    case True
    then have "i \<le> ?h" "?h < j" by auto
    then show ?thesis
      using 1(1,2) [OF True refl] True
      by (cases "f ?h") (subst (1 2) sort_Search_loop.simps, force simp: Let_def)+
  qed (use 1 in \<open>simp add: sort_Search_loop.simps\<close>)
qed

lemma sort_Search_loop_least:
  assumes "i \<le> j" and "\<And>a b. a \<le> b \<Longrightarrow> b < j \<Longrightarrow> f a \<Longrightarrow> f b"
  shows "(\<forall>k. i \<le> k \<and> k < sort_Search_loop i j f \<longrightarrow> \<not> f k) \<and>
    (\<forall>k. sort_Search_loop i j f \<le> k \<and> k < j \<longrightarrow> f k)"
  using assms
proof (induction i j f rule: sort_Search_loop.induct)
  case (1 i j f)
  show ?case
  proof (cases "i < j")
    case False
    then show ?thesis using 1(3) by (auto simp: sort_Search_loop.simps)
  next
    case True
    let ?h = "(i + j) div 2"
    have h: "i \<le> ?h" "?h < j" using True by auto
    show ?thesis
    proof (cases "f ?h")
      case fh: True
      have eq: "sort_Search_loop i j f = sort_Search_loop i ?h f"
        using True fh by (subst sort_Search_loop.simps) simp
      have mono: "a \<le> b \<Longrightarrow> b < ?h \<Longrightarrow> f a \<Longrightarrow> f b" for a b using 1(4) h(2) by (meson less_trans)
      have IH: "(\<forall>k. i \<le> k \<and> k < sort_Search_loop i ?h f \<longrightarrow> \<not> f k) \<and>
          (\<forall>k. sort_Search_loop i ?h f \<le> k \<and> k < ?h \<longrightarrow> f k)"
        by (rule 1(2) [OF True refl _ h(1)]) (use fh mono in blast)+
      have "f k" if "sort_Search_loop i ?h f \<le> k" "k < j" for k
        using IH fh 1(4) [of ?h k] that by (cases "k < ?h") auto
      then show ?thesis using IH unfolding eq by blast
    next
      case fh: False
      have eq: "sort_Search_loop i j f = sort_Search_loop (?h + 1) j f"
        using True fh by (subst sort_Search_loop.simps) simp
      have IH: "(\<forall>k. ?h + 1 \<le> k \<and> k < sort_Search_loop (?h + 1) j f \<longrightarrow> \<not> f k) \<and>
          (\<forall>k. sort_Search_loop (?h + 1) j f \<le> k \<and> k < j \<longrightarrow> f k)"
        by (rule 1(1) [OF True refl fh]) (use h 1(4) in auto)
      have "\<not> f k" if "i \<le> k" "k < sort_Search_loop (?h + 1) j f" for k
        using IH fh h 1(4) [of k ?h] that by (cases "k \<le> ?h") auto
      then show ?thesis using IH unfolding eq by blast
    qed
  qed
qed

text \<open>On a sorted list the search cuts the list into the elements below \<open>h\<close> and the rest.\<close>

lemma sort_Search_sorted:
  assumes "sorted (map f xs)" and k_def: "k = sort_Search (length xs) (\<lambda>i. h \<le> f (xs ! i))"
  shows "k \<le> length xs" "take k xs = filter (\<lambda>x. f x < h) xs" "drop k xs = filter (\<lambda>x. h \<le> f x) xs"
proof -
  have mono: "h \<le> f (xs ! b)" if "a \<le> b" "b < length xs" "h \<le> f (xs ! a)" for a b
    using assms(1) that sorted_nth_mono [of "map f xs" a b] by simp
  have "k \<le> length xs" unfolding k_def sort_Search_def using sort_Search_loop_bounds by blast
  then show "k \<le> length xs" .
  have cut: "(\<forall>i. 0 \<le> i \<and> i < k \<longrightarrow> \<not> h \<le> f (xs ! i)) \<and> (\<forall>i. k \<le> i \<and> i < length xs \<longrightarrow> h \<le> f (xs ! i))"
    unfolding k_def sort_Search_def by (rule sort_Search_loop_least) (auto intro: mono)
  then have lt: "f (xs ! i) < h" if "i < k" for i using that by (simp add: not_le)
  have ge: "h \<le> f (xs ! i)" if "k \<le> i" "i < length xs" for i using cut that by simp
  have t: "\<forall>x \<in> set (take k xs). f x < h" using lt \<open>k \<le> length xs\<close> by (auto simp: in_set_conv_nth)
  have d: "\<forall>x \<in> set (drop k xs). h \<le> f x" using ge \<open>k \<le> length xs\<close> by (auto simp: in_set_conv_nth)
  have "filter (\<lambda>x. f x < h) (take k xs) = take k xs" "filter (\<lambda>x. f x < h) (drop k xs) = []"
    "filter (\<lambda>x. h \<le> f x) (take k xs) = []" "filter (\<lambda>x. h \<le> f x) (drop k xs) = drop k xs"
    using t d by (simp_all add: filter_empty_conv not_less not_le)
  moreover have "filter P xs = filter P (take k xs) @ filter P (drop k xs)" for P
    by (metis append_take_drop_id filter_append)
  ultimately show "take k xs = filter (\<lambda>x. f x < h) xs" "drop k xs = filter (\<lambda>x. h \<le> f x) xs" by simp_all
qed

section \<open>The clockwise walk\<close>

definition first_occ :: "'a list \<Rightarrow> 'a list" where
  "first_occ xs = rev (remdups (rev xs))"

lemma first_occ_snoc: "first_occ (xs @ [x]) = (if x \<in> set xs then first_occ xs else first_occ xs @ [x])"
  by (simp add: first_occ_def)

lemma set_first_occ [simp]: "set (first_occ xs) = set xs"
  by (simp add: first_occ_def)

lemma distinct_first_occ [simp]: "distinct (first_occ xs)"
  by (simp add: first_occ_def)

lemma first_occ_filter: "first_occ (filter P xs) = filter P (first_occ xs)"
  by (simp add: first_occ_def rev_filter remdups_filter)

lemma hd_first_occ: "xs \<noteq> [] \<Longrightarrow> first_occ xs \<noteq> [] \<and> hd (first_occ xs) = hd xs"
proof (induction xs rule: rev_induct)
  case (snoc x xs)
  then show ?case by (cases "xs = []") (auto simp: first_occ_snoc first_occ_def)
qed simp

text \<open>The points at or after the key's position, then those before it.\<close>

definition clockwise :: "bytes \<Rightarrow> Ring \<Rightarrow> vpoint list" where
  "clockwise key r =
     filter (\<lambda>p. keyHash key \<le> vp_hash p) (r_points r) @ filter (\<lambda>p. vp_hash p < keyHash key) (r_points r)"

definition walk :: "bytes \<Rightarrow> Ring \<Rightarrow> string list" where
  "walk key r = first_occ (map vp_node (clockwise key r))"

definition points_of :: "nat \<Rightarrow> string \<Rightarrow> vpoint list" where
  "points_of vnodes node = map (\<lambda>i. \<lparr>vp_hash = vnodeHash node i, vp_node = node\<rparr>) [0..<vnodes]"

definition members_points :: "nat \<Rightarrow> string list \<Rightarrow> vpoint multiset" where
  "members_points v ns = (\<Sum>n\<leftarrow>ns. mset (points_of v n))"

lemma members_points_simps [simp]:
  "members_points v [] = {#}" "members_points v (n # ns) = mset (points_of v n) + members_points v ns"
  "members_points v (ns @ ms) = members_points v ns + members_points v ms"
  by (simp_all add: members_points_def)

text \<open>Sorted points, and exactly the virtual points of the members.\<close>

definition ring_inv :: "Ring \<Rightarrow> bool" where
  "ring_inv r \<longleftrightarrow> 0 < r_vnodes r \<and> gm_wf (r_members r) \<and> sorted (map vp_hash (r_points r)) \<and>
     mset (r_points r) = members_points (r_vnodes r) (map fst (r_members r))"

lemma ring_inv_New: "ring_New v = Some r \<Longrightarrow> ring_inv r"
  by (auto simp: ring_New_def ring_inv_def split: if_splits)

lemma set_points_of: "set (points_of v n) = {\<lparr>vp_hash = vnodeHash n i, vp_node = n\<rparr> |i. i < v}"
  by (auto simp: points_of_def)

lemma set_members_points: "set_mset (members_points v ns) = (\<Union>n \<in> set ns. set (points_of v n))"
  by (induction ns) auto

lemma ring_points_set:
  assumes "ring_inv r"
  shows "set (r_points r) = (\<Union>n \<in> gm_keys (r_members r). set (points_of (r_vnodes r) n))"
proof -
  have "set_mset (mset (r_points r)) = set_mset (members_points (r_vnodes r) (map fst (r_members r)))"
    using assms unfolding ring_inv_def by (simp only:)
  then show ?thesis by (simp add: set_members_points)
qed

lemma ring_nodes:
  assumes "ring_inv r"
  shows "vp_node ` set (r_points r) = gm_keys (r_members r)"
proof -
  have "0 < r_vnodes r" using assms by (simp add: ring_inv_def)
  then have "vp_node ` set (points_of (r_vnodes r) n) = {n}" for n
    by (force simp: set_points_of image_iff)
  then show ?thesis unfolding ring_points_set [OF assms] image_UN by auto
qed

lemma set_clockwise: "set (clockwise key r) = set (r_points r)"
  by (auto simp: clockwise_def)

lemma walk_members:
  assumes "ring_inv r"
  shows "distinct (walk key r)" "set (walk key r) = gm_keys (r_members r)" "length (walk key r) = length (r_members r)"
proof -
  show d: "distinct (walk key r)" by (simp add: walk_def)
  show s: "set (walk key r) = gm_keys (r_members r)"
    using ring_nodes [OF assms] by (simp add: walk_def set_clockwise)
  have "length (walk key r) = card (set (walk key r))" using distinct_card [OF d] by simp
  also have "\<dots> = card (set (map fst (r_members r)))" by (simp add: s)
  also have "\<dots> = length (r_members r)" using assms distinct_card [of "map fst (r_members r)"] by (simp add: ring_inv_def)
  finally show "length (walk key r) = length (r_members r)" .
qed

lemma clockwise_rotate:
  assumes "ring_inv r" and "r_points r \<noteq> []"
  shows "startIdx key r < length (r_points r)" "clockwise key r = drop (startIdx key r) (r_points r) @ take (startIdx key r) (r_points r)"
proof -
  let ?k = "sort_Search (length (r_points r)) (\<lambda>i. keyHash key \<le> vp_hash (r_points r ! i))"
  have "sorted (map vp_hash (r_points r))" using assms(1) by (simp add: ring_inv_def)
  note k = sort_Search_sorted [OF this refl, of "keyHash key"]
  have st: "startIdx key r = (if ?k = length (r_points r) then 0 else ?k)"
    by (simp add: startIdx_def Let_def)
  then show "startIdx key r < length (r_points r)" using k(1) assms(2) by auto
  show "clockwise key r = drop (startIdx key r) (r_points r) @ take (startIdx key r) (r_points r)"
    using k unfolding clockwise_def st by (cases "?k = length (r_points r)") (simp_all flip: k(2,3))
qed

lemma nth_rotate:
  assumes "idx < length xs" and "step < length xs"
  shows "(drop idx xs @ take idx xs) ! step = xs ! ((idx + step) mod length xs)"
proof (cases "step < length xs - idx")
  case True
  then show ?thesis using assms by (simp add: nth_append)
next
  case False
  then have "idx + step = length xs + (step - (length xs - idx))" using assms by linarith
  then have "(idx + step) mod length xs = step - (length xs - idx)"
    using assms by (metis mod_add_self1 mod_less less_imp_diff_less)
  then show ?thesis using assms False by (simp add: nth_append)
qed

lemma lookupLoop_walk:
  assumes "idx < length points" and "step \<le> length points"
  defines "nodes \<equiv> map vp_node (drop idx points @ take idx points)"
  assumes "out = first_occ (take step nodes)" and "length out \<le> n"
  shows "lookupLoop points idx n step out = take n (first_occ nodes)"
  using assms(2,4,5)
proof (induction "length points - step" arbitrary: step out)
  case 0
  then have "step = length points" by simp
  then show ?case using 0 assms(1) by (simp add: lookupLoop.simps nodes_def)
next
  case (Suc d)
  have len: "length nodes = length points" using assms(1) by (simp add: nodes_def)
  have step: "step < length points" using Suc.hyps(2) by simp
  have ext: "\<exists>ys. first_occ (xs @ zs) = first_occ xs @ ys" for xs zs :: "string list"
  proof (induction zs rule: rev_induct)
    case (snoc z zs)
    then show ?case using first_occ_snoc [of "xs @ zs" z] by auto
  qed simp
  show ?case
  proof (cases "length out < n")
    case False
    then have "length out = n" using Suc.prems(3) by simp
    moreover obtain ys where "first_occ (take step nodes @ drop step nodes) = first_occ (take step nodes) @ ys" using ext by blast
    ultimately have "take n (first_occ nodes) = out" using Suc.prems(2) by simp
    then show ?thesis using False by (simp add: lookupLoop.simps)
  next
    case True
    let ?node = "vp_node (points ! ((idx + step) mod length points))"
    have node: "nodes ! step = ?node"
      unfolding nodes_def using nth_rotate [OF assms(1) step] step assms(1) by (subst nth_map) simp_all
    have tk: "take (Suc step) nodes = take step nodes @ [?node]"
      using step len node by (simp add: take_Suc_conv_app_nth)
    have out': "first_occ (take (Suc step) nodes) = (if ?node \<in> set out then out else out @ [?node])"
      using Suc.prems(2) by (simp add: tk first_occ_snoc)
    have "lookupLoop points idx n step out = lookupLoop points idx n (Suc step) (if ?node \<in> set out then out else out @ [?node])"
      using step True by (subst lookupLoop.simps) simp
    also have "\<dots> = take n (first_occ nodes)"
      using Suc.hyps step True out' by (intro Suc.hyps(1)) auto
    finally show ?thesis .
  qed
qed

lemma LookupN_walk:
  assumes "ring_inv r"
  shows "LookupN key n r = take (nat n) (walk key r)"
proof (cases "r_points r = [] \<or> n \<le> 0")
  case True
  have "walk key r = []" if "r_points r = []" using that by (simp add: walk_def clockwise_def first_occ_def)
  then show ?thesis using True by (auto simp: LookupN_def)
next
  case False
  let ?n = "nat (if int (length (r_members r)) < n then int (length (r_members r)) else n)"
  note rot = clockwise_rotate [OF assms, of key]
  have "LookupN key n r = lookupLoop (r_points r) (startIdx key r) ?n 0 []"
    using False by (simp add: LookupN_def Let_def)
  also have "\<dots> = take ?n (first_occ (map vp_node (drop (startIdx key r) (r_points r) @ take (startIdx key r) (r_points r))))"
    using False rot(1) by (intro lookupLoop_walk) (auto simp: first_occ_def)
  also have "\<dots> = take ?n (walk key r)" using False rot(2) by (simp add: walk_def)
  also have "\<dots> = take (nat n) (walk key r)" using walk_members(3) [OF assms, of key] by auto
  finally show ?thesis .
qed

lemma Lookup_walk:
  assumes "ring_inv r"
  shows "Lookup key r = (if walk key r = [] then [] else hd (walk key r))"
proof (cases "r_points r = []")
  case True
  then show ?thesis by (simp add: Lookup_def walk_def clockwise_def first_occ_def)
next
  case False
  note rot = clockwise_rotate [OF assms False, of key]
  have "clockwise key r \<noteq> []" using set_clockwise [of key r] False by auto
  moreover have "hd (clockwise key r) = r_points r ! startIdx key r"
    using rot by (simp add: hd_append hd_drop_conv_nth)
  ultimately show ?thesis
    using hd_first_occ [of "map vp_node (clockwise key r)"] False by (simp add: Lookup_def walk_def hd_map)
qed

section \<open>Adding and removing members\<close>

lemma fold_snoc_map: "fold (\<lambda>i ps. ps @ [g i]) xs acc = acc @ map g xs"
  by (induction xs arbitrary: acc) auto

lemma fold_snoc_filter: "fold (\<lambda>p kept. if P p then kept @ [p] else kept) xs acc = acc @ filter P xs"
  by (induction xs arbitrary: acc) auto

lemma gm_put_absent: "k \<notin> gm_keys m \<Longrightarrow> gm_put k v m = m @ [(k, v)]"
  by (induction m) auto

lemma ring_Add_new:
  assumes "node \<notin> gm_keys (r_members r)"
  shows "ring_Add srt node r =
    r\<lparr>r_points := srt (r_points r @ points_of (r_vnodes r) node), r_members := r_members r @ [(node, ())]\<rparr>"
  using assms by (simp add: ring_Add_def map_of_eq_None_iff [symmetric] fold_snoc_map points_of_def gm_put_absent
      split: option.split)

lemma ring_Add_present: "node \<in> gm_keys (r_members r) \<Longrightarrow> ring_Add srt node r = r"
  by (simp add: ring_Add_def gm_keys_get split: option.splits)

lemma ring_Remove_eq:
  "ring_Remove node r =
     (if node \<in> gm_keys (r_members r)
      then r\<lparr>r_points := filter (\<lambda>p. vp_node p \<noteq> node) (r_points r), r_members := gm_del node (r_members r)\<rparr> else r)"
  by (simp add: ring_Remove_def gm_keys_get fold_snoc_filter split: option.splits)

lemma keys_gm_del: "map fst (gm_del k m) = removeAll k (map fst m)"
  by (induction m) auto

lemma filter_points_of:
  "filter_mset (\<lambda>p. vp_node p \<noteq> node) (members_points v ns) = members_points v (removeAll node ns)"
proof (induction ns)
  case (Cons n ns)
  have "filter (\<lambda>p. vp_node p \<noteq> node) (points_of v n) = (if n = node then [] else points_of v n)"
    by (auto simp: filter_empty_conv set_points_of intro!: filter_True)
  then have "filter_mset (\<lambda>p. vp_node p \<noteq> node) (mset (points_of v n)) = (if n = node then {#} else mset (points_of v n))"
    by (simp flip: mset_filter)
  then show ?case using Cons by simp
qed simp

lemma ring_Remove_inv:
  assumes "ring_inv r"
  shows "ring_inv (ring_Remove node r)" and "gm_keys (r_members (ring_Remove node r)) = gm_keys (r_members r) - {node}"
proof -
  have "mset (filter (\<lambda>p. vp_node p \<noteq> node) (r_points r)) =
      members_points (r_vnodes r) (removeAll node (map fst (r_members r)))"
    using assms by (simp add: ring_inv_def filter_points_of)
  moreover have "sorted (map vp_hash (filter (\<lambda>p. vp_node p \<noteq> node) (r_points r)))"
    using assms by (simp add: ring_inv_def sorted_filter)
  ultimately show "ring_inv (ring_Remove node r)"
    using assms by (simp add: ring_inv_def ring_Remove_eq keys_gm_del distinct_removeAll)
  show "gm_keys (r_members (ring_Remove node r)) = gm_keys (r_members r) - {node}"
    by (auto simp: ring_Remove_eq)
qed

context slice_sorter
begin

lemma ring_Add_inv:
  assumes "ring_inv r"
  shows "ring_inv (ring_Add sortSlice node r)"
    and "gm_keys (r_members (ring_Add sortSlice node r)) = insert node (gm_keys (r_members r))"
    and "mset (r_points (ring_Add sortSlice node r)) =
      mset (r_points r) + (if node \<in> gm_keys (r_members r) then {#} else mset (points_of (r_vnodes r) node))"
proof -
  have "ring_inv (ring_Add sortSlice node r) \<and> gm_keys (r_members (ring_Add sortSlice node r)) = insert node (gm_keys (r_members r)) \<and>
    mset (r_points (ring_Add sortSlice node r)) =
      mset (r_points r) + (if node \<in> gm_keys (r_members r) then {#} else mset (points_of (r_vnodes r) node))"
  proof (cases "node \<in> gm_keys (r_members r)")
    case True
    then show ?thesis using assms by (simp add: ring_Add_present insert_absorb)
  next
    case False
    have "ring_inv (ring_Add sortSlice node r)"
      using assms False sorted_law perm_law unfolding ring_inv_def ring_Add_new [OF False] by auto
    then show ?thesis using False perm_law by (simp add: ring_Add_new [OF False])
  qed
  then show "ring_inv (ring_Add sortSlice node r)"
    and "gm_keys (r_members (ring_Add sortSlice node r)) = insert node (gm_keys (r_members r))"
    and "mset (r_points (ring_Add sortSlice node r)) =
      mset (r_points r) + (if node \<in> gm_keys (r_members r) then {#} else mset (points_of (r_vnodes r) node))" by auto
qed

end

lemma walk_Remove:
  assumes "ring_inv r"
  shows "walk key (ring_Remove node r) = removeAll node (walk key r)"
proof (cases "node \<in> gm_keys (r_members r)")
  case True
  have "map vp_node (clockwise key (ring_Remove node r)) = filter (\<lambda>n. n \<noteq> node) (map vp_node (clockwise key r))"
    using True by (simp add: clockwise_def ring_Remove_eq filter_map o_def conj_commute)
  then show ?thesis by (simp add: walk_def first_occ_filter removeAll_filter_not_eq neq_commute)
next
  case False
  then have "node \<notin> set (walk key r)" by (simp add: walk_members(2) [OF assms])
  with False show ?thesis by (simp add: ring_Remove_eq)
qed

section \<open>The owner is the successor on the circle\<close>

text \<open>The clockwise rank of a point from position \<open>h\<close>: points at or after it first, each part by hash.\<close>

definition rank :: "uint64 \<Rightarrow> vpoint \<Rightarrow> bool \<times> uint64" where
  "rank h p = (vp_hash p < h, vp_hash p)"

lemma rank_le: "rank h p \<le> rank h q \<longleftrightarrow>
    h \<le> vp_hash p \<and> vp_hash q < h \<or> (h \<le> vp_hash p \<longleftrightarrow> h \<le> vp_hash q) \<and> vp_hash p \<le> vp_hash q"
  by (auto simp: rank_def less_eq_prod_def not_less not_le)

lemma clockwise_sorted:
  assumes "ring_inv r"
  shows "sorted (map (rank (keyHash key)) (clockwise key r))"
proof -
  have s: "sorted (map vp_hash (filter P (r_points r)))" for P
    using assms by (simp add: ring_inv_def sorted_filter)
  have part: "sorted (map (rank (keyHash key)) (filter P (r_points r)))"
    if same: "\<And>p q. P p \<Longrightarrow> P q \<Longrightarrow> (vp_hash p < keyHash key) = (vp_hash q < keyHash key)" for P
  proof -
    have "sorted_wrt (\<lambda>p q. vp_hash p \<le> vp_hash q) (filter P (r_points r))" using s [of P] by (simp add: sorted_map)
    then have "sorted_wrt (\<lambda>p q. rank (keyHash key) p \<le> rank (keyHash key) q) (filter P (r_points r))"
      by (rule sorted_wrt_mono_rel [rotated]) (use same in \<open>auto simp: rank_def less_eq_prod_def\<close>)
    then show ?thesis by (simp add: sorted_map)
  qed
  have "sorted (map (rank (keyHash key)) (filter (\<lambda>p. keyHash key \<le> vp_hash p) (r_points r)))"
    "sorted (map (rank (keyHash key)) (filter (\<lambda>p. vp_hash p < keyHash key) (r_points r)))"
    by (rule part; auto simp: not_le [symmetric])+
  then show ?thesis
    unfolding clockwise_def map_append sorted_append by (auto simp: rank_le)
qed

lemma clockwise_hd_min:
  assumes "ring_inv r" and "p \<in> set (r_points r)"
  shows "rank (keyHash key) (hd (clockwise key r)) \<le> rank (keyHash key) p"
proof -
  have "p \<in> set (clockwise key r)" using assms(2) by (simp add: set_clockwise)
  then show ?thesis using clockwise_sorted [OF assms(1), of key] by (cases "clockwise key r") auto
qed

lemma Lookup_hd:
  assumes "ring_inv r" and "r_points r \<noteq> []"
  shows "Lookup key r = vp_node (hd (clockwise key r))" "hd (clockwise key r) \<in> set (r_points r)"
proof -
  have ne: "clockwise key r \<noteq> []" using set_clockwise [of key r] assms(2) by auto
  then show "Lookup key r = vp_node (hd (clockwise key r))"
    using hd_first_occ [of "map vp_node (clockwise key r)"] by (simp add: Lookup_walk [OF assms(1)] walk_def hd_map)
  show "hd (clockwise key r) \<in> set (r_points r)" using hd_in_set [OF ne] by (simp add: set_clockwise)
qed

text \<open>No two members share a position on the circle.\<close>

definition no_ties :: "Ring \<Rightarrow> bool" where
  "no_ties r \<longleftrightarrow> (\<forall>p \<in> set (r_points r). \<forall>q \<in> set (r_points r). vp_hash p = vp_hash q \<longrightarrow> vp_node p = vp_node q)"

lemma take_removeAll:
  "distinct xs \<Longrightarrow> take k (removeAll x xs) = take k (removeAll x (take (Suc k) xs))"
proof (induction xs arbitrary: k)
  case (Cons y xs)
  show ?case
  proof (cases k)
    case (Suc k')
    have "removeAll y (take (Suc k') xs) = take (Suc k') xs" using Cons.prems by (meson distinct.simps(2) in_set_takeD removeAll_id)
    then show ?thesis using Cons Suc by simp
  qed simp
qed simp

section \<open>Properties\<close>

datatype ring_op = AddNode string | RemoveNode string

fun ring_do :: "(vpoint list \<Rightarrow> vpoint list) \<Rightarrow> ring_op \<Rightarrow> Ring \<Rightarrow> Ring" where
  "ring_do srt (AddNode n) r = ring_Add srt n r"
| "ring_do srt (RemoveNode n) r = ring_Remove n r"

fun member_do :: "ring_op \<Rightarrow> string set \<Rightarrow> string set" where
  "member_do (AddNode n) M = insert n M"
| "member_do (RemoveNode n) M = M - {n}"

lemma ring_vnodes_const [simp]: "r_vnodes (ring_Add srt n r) = r_vnodes r" "r_vnodes (ring_Remove n r) = r_vnodes r"
  by (auto simp: ring_Add_def ring_Remove_def Let_def split: option.splits)

lemma ring_history:
  assumes "slice_sorter srt" and "ring_New v = Some r0"
  shows "ring_inv (fold (ring_do srt) ops r0) \<and>
    gm_keys (r_members (fold (ring_do srt) ops r0)) = fold member_do ops {} \<and>
    int (r_vnodes (fold (ring_do srt) ops r0)) = v"
proof (induction ops rule: rev_induct)
  case Nil
  have "ring_inv r0 \<and> r_members r0 = [] \<and> int (r_vnodes r0) = v"
    using ring_inv_New [OF assms(2)] assms(2) by (auto simp: ring_New_def split: if_splits)
  then show ?case by simp
next
  case (snoc op ops)
  then show ?case
    using slice_sorter.ring_Add_inv [OF assms(1)] ring_Remove_inv
    by (cases op) simp_all
qed

text \<open>
  After any sequence of joins and leaves the circle is sorted and holds exactly the virtual
  points of the current members, whatever order the sort gives to equal positions.
\<close>

lemma ring_history_invariant:
  assumes "slice_sorter srt" and "ring_New v = Some r0"
  shows "ring_inv (fold (ring_do srt) ops r0) \<and> set (Nodes (fold (ring_do srt) ops r0)) = fold member_do ops {}"
  using ring_history [OF assms, of ops] by (simp add: Nodes_def)

text \<open>
  Property C26: placement. \<^verbatim>\<open>LookupN\<close> returns distinct members, as many as asked for or as there are, each
  shorter answer is a prefix of each longer one, and the first is the node \<^verbatim>\<open>Lookup\<close> returns.
\<close>

theorem LookupN_placement:
  assumes "ring_inv r" and "0 < n" and "n \<le> n'" and "r_members r \<noteq> []"
  shows "distinct (LookupN key n r) \<and> set (LookupN key n r) \<subseteq> set (Nodes r) \<and>
    length (LookupN key n r) = min (nat n) (length (Nodes r)) \<and>
    LookupN key n r = take (nat n) (LookupN key n' r) \<and> hd (LookupN key n r) = Lookup key r"
proof -
  note w = walk_members [OF assms(1), of key]
  have ne: "walk key r \<noteq> []" using w(3) assms(4) by auto
  have "set (take (nat n) (walk key r)) \<subseteq> set (Nodes r)"
    using w(2) set_take_subset [of "nat n" "walk key r"] by (auto simp: Nodes_def)
  moreover have "hd (take (nat n) (walk key r)) = Lookup key r"
    using ne assms(2) by (simp add: Lookup_walk [OF assms(1)] hd_take)
  ultimately show ?thesis
    using w assms(3) by (simp add: LookupN_walk [OF assms(1)] Nodes_def min.absorb1 nat_mono)
qed

text \<open>
  Property C27: the owner of a key is the node of the first virtual point at or after the key's position,
  or of the lowest point when there is none.
\<close>

theorem Lookup_successor:
  assumes "ring_inv r" and "r_points r \<noteq> []"
  shows "\<exists>p \<in> set (r_points r). Lookup key r = vp_node p \<and>
    (if \<exists>q \<in> set (r_points r). keyHash key \<le> vp_hash q
     then keyHash key \<le> vp_hash p \<and> (\<forall>q \<in> set (r_points r). keyHash key \<le> vp_hash q \<longrightarrow> vp_hash p \<le> vp_hash q)
     else \<forall>q \<in> set (r_points r). vp_hash p \<le> vp_hash q)"
proof -
  let ?p = "hd (clockwise key r)"
  have min: "\<And>q. q \<in> set (r_points r) \<Longrightarrow> rank (keyHash key) ?p \<le> rank (keyHash key) q"
    using clockwise_hd_min [OF assms(1)] .
  have "if \<exists>q \<in> set (r_points r). keyHash key \<le> vp_hash q
     then keyHash key \<le> vp_hash ?p \<and> (\<forall>q \<in> set (r_points r). keyHash key \<le> vp_hash q \<longrightarrow> vp_hash ?p \<le> vp_hash q)
     else \<forall>q \<in> set (r_points r). vp_hash ?p \<le> vp_hash q"
  proof (cases "\<exists>q \<in> set (r_points r). keyHash key \<le> vp_hash q")
    case True
    then have "keyHash key \<le> vp_hash ?p" using min by (auto simp: rank_le)
    moreover have "vp_hash ?p \<le> vp_hash q" if "q \<in> set (r_points r)" "keyHash key \<le> vp_hash q" for q
      using min [OF that(1)] that(2) by (auto simp: rank_le)
    ultimately show ?thesis using True by auto
  next
    case False
    then show ?thesis using min Lookup_hd(2) [OF assms, of key] by (auto simp: rank_le not_less)
  qed
  then show ?thesis using Lookup_hd [OF assms, of key] by blast
qed

text \<open>
  Property C24: minimal movement. Adding a member changes the owner of a key only to that member, given
  that no two existing members share a position.
\<close>

theorem ring_Add_minimal_movement:
  assumes "slice_sorter srt" and inv: "ring_inv r" and "no_ties r" and "r_points r \<noteq> []"
  shows "Lookup key (ring_Add srt node r) = Lookup key r \<or> Lookup key (ring_Add srt node r) = node"
proof -
  let ?r = "ring_Add srt node r" and ?p = "hd (clockwise key r)" and ?p' = "hd (clockwise key (ring_Add srt node r))"
  note add = slice_sorter.ring_Add_inv [OF assms(1) inv, of node]
  have pts: "set (r_points ?r) = set (r_points r) \<union> (if node \<in> gm_keys (r_members r) then {} else set (points_of (r_vnodes r) node))"
    using arg_cong [OF add(3), of set_mset] by (simp split: if_splits)
  then have ne: "r_points ?r \<noteq> []" using assms(4) by auto
  note old = Lookup_hd [OF inv assms(4), of key] and new = Lookup_hd [OF add(1) ne, of key]
  show ?thesis
  proof (cases "?p' \<in> set (r_points r)")
    case True
    have "?p \<in> set (r_points ?r)" using old(2) pts by simp
    then have "rank (keyHash key) ?p' \<le> rank (keyHash key) ?p" by (rule clockwise_hd_min [OF add(1)])
    moreover have "rank (keyHash key) ?p \<le> rank (keyHash key) ?p'" by (rule clockwise_hd_min [OF inv True])
    ultimately have "rank (keyHash key) ?p' = rank (keyHash key) ?p" by (rule antisym)
    then have "vp_hash ?p' = vp_hash ?p" by (simp add: rank_def)
    then have "vp_node ?p' = vp_node ?p" using assms(3) True old(2) unfolding no_ties_def by blast
    then show ?thesis using old(1) new(1) by simp
  next
    case False
    then have "?p' \<in> set (points_of (r_vnodes r) node)" using new(2) pts by (auto split: if_splits)
    then have "vp_node ?p' = node" by (auto simp: set_points_of)
    then show ?thesis using new(1) by simp
  qed
qed

text \<open>
  Failover. Removing a member takes it out of every placement and moves the later owners up,
  so a key whose primary leaves is owned by its former first replica, and the other keys keep theirs.
\<close>

lemma ring_Remove_promotes_replica:
  assumes "ring_inv r" and "0 \<le> n"
  shows "LookupN key n (ring_Remove node r) = take (nat n) (removeAll node (LookupN key (n + 1) r))"
proof -
  have "nat (n + 1) = Suc (nat n)" using assms(2) by simp
  then show ?thesis
    using take_removeAll [OF walk_members(1) [OF assms(1), of key]] assms(2)
    by (simp add: LookupN_walk ring_Remove_inv(1) assms(1) walk_Remove)
qed

lemma sorted_key_unique:
  assumes "mset xs = mset ys" and "sorted (map f xs)" and "sorted (map f ys)" and "inj_on f (set xs)"
  shows "xs = ys"
proof -
  have "mset (map f ys) = mset (map f xs)" using assms(1) by simp
  then have "map f xs = map f ys"
    using properties_for_sort [of "map f ys" "map f xs"] sorted_sort_id [OF assms(2)] assms(3) by metis
  moreover have "set ys = set xs" using assms(1) mset_eq_setD by metis
  ultimately show ?thesis using assms(4) by (intro map_inj_on [of f xs ys]) simp_all
qed

lemma members_points_cong: "mset ns = mset ms \<Longrightarrow> members_points v ns = members_points v ms"
  by (simp add: members_points_def flip: sum_mset_sum_list)

lemma walk_agree:
  assumes "ring_inv r" and "ring_inv r'" and "r_vnodes r' = r_vnodes r" and "gm_keys (r_members r') = gm_keys (r_members r)" and "no_ties r"
  shows "walk key r' = walk key r"
proof -
  have "mset (map fst (r_members r')) = mset (map fst (r_members r))"
    using assms(1,2,4) by (intro set_eq_iff_mset_eq_distinct [THEN iffD1]) (simp_all add: ring_inv_def)
  then have m: "mset (r_points r) = mset (r_points r')"
    using assms(1-3) members_points_cong by (simp add: ring_inv_def)
  have "inj_on vp_hash (set (r_points r))"
  proof (rule inj_onI)
    fix p q assume "p \<in> set (r_points r)" "q \<in> set (r_points r)" "vp_hash p = vp_hash q"
    moreover from this have "vp_node p = vp_node q" using assms(5) unfolding no_ties_def by blast
    ultimately show "p = q" by (intro vpoint.equality) simp_all
  qed
  then have "r_points r = r_points r'"
    using sorted_key_unique [OF m, of vp_hash] assms(1,2) by (simp add: ring_inv_def)
  then show ?thesis by (simp add: walk_def clockwise_def)
qed

text \<open>
  Property C25: processes agree. Two rings with the same number of virtual nodes and the same current
  members place every key identically, whatever joins and leaves they saw and however their sorts order
  equal positions, as long as no two members share a position.
\<close>

theorem rings_agree:
  assumes "slice_sorter srt" and "slice_sorter srt'" and "ring_New v = Some r0"
    and "fold member_do ops' {} = fold member_do ops {}" and "no_ties (fold (ring_do srt) ops r0)"
  shows "LookupN key n (fold (ring_do srt') ops' r0) = LookupN key n (fold (ring_do srt) ops r0) \<and>
    Lookup key (fold (ring_do srt') ops' r0) = Lookup key (fold (ring_do srt) ops r0)"
proof -
  let ?r = "fold (ring_do srt) ops r0" and ?r' = "fold (ring_do srt') ops' r0"
  note h = ring_history [OF assms(1,3), of ops] and h' = ring_history [OF assms(2,3), of ops']
  have inv: "ring_inv ?r" "ring_inv ?r'" and v: "r_vnodes ?r' = r_vnodes ?r"
    and keys: "set (map fst (r_members ?r')) = set (map fst (r_members ?r))"
    using h h' assms(4) by auto
  have "walk key ?r' = walk key ?r" using walk_agree [OF inv v _ assms(5)] keys by simp
  then show ?thesis using inv by (simp add: LookupN_walk Lookup_walk)
qed

section \<open>A ring of one and two members\<close>

definition ex_ring :: "string list \<Rightarrow> Ring" where
  "ex_ring ns = fold (ring_do (sort_key vp_hash)) (map AddNode ns) \<lparr>r_vnodes = 2, r_points = [], r_members = []\<rparr>"

lemma ex_ring_New: "ring_New 2 = Some \<lparr>r_vnodes = 2, r_points = [], r_members = []\<rparr>"
  by (simp add: ring_New_def)

lemma ex_ring_inv: "ring_inv (ex_ring ns)"
  using ring_history [OF stable.slice_sorter_axioms ex_ring_New] by (simp add: ex_ring_def)

lemma ex_ring_keys: "gm_keys (r_members (ex_ring ns)) = set ns"
proof -
  have "fold member_do (map AddNode ns) M = M \<union> set ns" for M
    by (induction ns arbitrary: M) auto
  then show ?thesis
    using ring_history [OF stable.slice_sorter_axioms ex_ring_New] by (simp add: ex_ring_def)
qed

lemma ex_ring_points: "ns \<noteq> [] \<Longrightarrow> r_points (ex_ring ns) \<noteq> [] \<and> r_members (ex_ring ns) \<noteq> []"
  using ring_nodes [OF ex_ring_inv [of ns]] ex_ring_keys [of ns] by auto

lemma ex_ring_no_ties: "no_ties (ex_ring [a])"
proof -
  have "vp_node p = a" if "p \<in> set (r_points (ex_ring [a]))" for p
    using imageI [OF that, of vp_node] ring_nodes [OF ex_ring_inv [of "[a]"]] ex_ring_keys [of "[a]"] by simp
  then show ?thesis by (simp add: no_ties_def)
qed

theorem LookupN_placement_witness:
  "length (LookupN [1] 2 (ex_ring [''a'', ''b''])) = min 2 (length (Nodes (ex_ring [''a'', ''b''])))"
  using LookupN_placement [OF ex_ring_inv, of 2 2 "[''a'', ''b'']" "[1]"] ex_ring_points [of "[''a'', ''b'']"] by simp

theorem Lookup_successor_witness:
  "\<exists>p. p \<in> set (r_points (ex_ring [''a'', ''b''])) \<and> Lookup [1] (ex_ring [''a'', ''b'']) = vp_node p"
  using Lookup_successor [OF ex_ring_inv, of "[''a'', ''b'']" "[1]"] ex_ring_points [of "[''a'', ''b'']"] by blast

theorem ring_Add_minimal_movement_witness:
  "Lookup [1] (ring_Add (sort_key vp_hash) ''b'' (ex_ring [''a''])) = Lookup [1] (ex_ring [''a'']) \<or>
   Lookup [1] (ring_Add (sort_key vp_hash) ''b'' (ex_ring [''a''])) = ''b''"
  using ring_Add_minimal_movement [OF stable.slice_sorter_axioms ex_ring_inv ex_ring_no_ties, of "''a''" "[1]" "''b''"]
    ex_ring_points [of "[''a'']"] by simp

theorem rings_agree_witness:
  "Lookup [1] (fold (ring_do (sort_key vp_hash)) [AddNode ''b'', AddNode ''a'', RemoveNode ''b'']
      \<lparr>r_vnodes = 2, r_points = [], r_members = []\<rparr>) = Lookup [1] (ex_ring [''a''])"
  using rings_agree [OF stable.slice_sorter_axioms stable.slice_sorter_axioms ex_ring_New,
      of "[AddNode ''b'', AddNode ''a'', RemoveNode ''b'']" "[AddNode ''a'']" "[1]" 1] ex_ring_no_ties [of "''a''"]
  unfolding ex_ring_def by (auto simp: insert_Diff_if)

end
