(* ===== verification/Router.thy ===== *)
theory Router
  imports Ring
begin

text \<open>
  \<^verbatim>\<open>internal/cluster/router.go\<close>: client-side shard routing. The router pairs the ring with a pool of
  connections. \<^verbatim>\<open>grpc.NewClient\<close> and \<^verbatim>\<open>ClientConn.Close\<close> are library calls: the first is the parameter
  \<open>newClient\<close>, which sees the connections made so far and the target and gives a connection or an error;
  the connections made and closed are recorded in the two trace fields of the state.
\<close>

section \<open>The code\<close>

record Member =
  mem_ID :: string
  mem_Addr :: string

record 'c Router =
  rt_ring :: Ring
  rt_pool :: "(string, 'c) gomap"
  rt_made :: "'c list"
  rt_closed :: "'c list"

definition router_New :: "int \<Rightarrow> 'c Router option" where
  "router_New vnodes =
     (case ring_New vnodes of
        None \<Rightarrow> None
      | Some rg \<Rightarrow> Some \<lparr>rt_ring = rg, rt_pool = [], rt_made = [], rt_closed = []\<rparr>)"

text \<open>One iteration of the add pass.\<close>

definition addMember ::
  "(vpoint list \<Rightarrow> vpoint list) \<Rightarrow> ('c list \<Rightarrow> string \<Rightarrow> 'c option) \<Rightarrow> Member \<Rightarrow> 'c Router \<Rightarrow> 'c Router" where
  "addMember sortSlice newClient mem r =
     (case gm_get (rt_pool r) (mem_ID mem) of
        Some _ \<Rightarrow> r
      | None \<Rightarrow>
          (case newClient (rt_made r) (mem_Addr mem) of
             None \<Rightarrow> r
           | Some conn \<Rightarrow>
               r\<lparr>rt_made := rt_made r @ [conn],
                 rt_pool := gm_put (mem_ID mem) conn (rt_pool r),
                 rt_ring := ring_Add sortSlice (mem_ID mem) (rt_ring r)\<rparr>))"

text \<open>
  One iteration of the remove pass. The loop ranges over the pool and deletes only the key it is at, so
  it visits every pair of the pool as it was before the loop.
\<close>

definition dropMember :: "(string, unit) gomap \<Rightarrow> string \<times> 'c \<Rightarrow> 'c Router \<Rightarrow> 'c Router" where
  "dropMember desired = (\<lambda>(ident, conn) r.
     case gm_get desired ident of
       Some _ \<Rightarrow> r
     | None \<Rightarrow>
         r\<lparr>rt_ring := ring_Remove ident (rt_ring r),
           rt_closed := rt_closed r @ [conn],
           rt_pool := gm_del ident (rt_pool r)\<rparr>)"

definition SetMembers ::
  "(vpoint list \<Rightarrow> vpoint list) \<Rightarrow> ('c list \<Rightarrow> string \<Rightarrow> 'c option) \<Rightarrow> Member list \<Rightarrow> 'c Router \<Rightarrow> 'c Router" where
  "SetMembers sortSlice newClient m r =
     (let desired = fold (\<lambda>mem d. gm_put (mem_ID mem) () d) m [];
          r1 = fold (addMember sortSlice newClient) m r
      in fold (dropMember desired) (rt_pool r1) r1)"

text \<open>\<^verbatim>\<open>(nil, false)\<close> is \<^term>\<open>None\<close>.\<close>

definition OwnerConn :: "bytes \<Rightarrow> 'c Router \<Rightarrow> 'c option" where
  "OwnerConn key r =
     (let node = Lookup key (rt_ring r) in if node = [] then None else gm_get (rt_pool r) node)"

definition OwnerConns :: "bytes \<Rightarrow> int \<Rightarrow> 'c Router \<Rightarrow> 'c list" where
  "OwnerConns key n r =
     (let ids = LookupN key n (rt_ring r)
      in if ids = [] then []
         else fold (\<lambda>ident out. case gm_get (rt_pool r) ident of Some conn \<Rightarrow> out @ [conn] | None \<Rightarrow> out) ids [])"

definition OwnersN :: "bytes \<Rightarrow> int \<Rightarrow> 'c Router \<Rightarrow> string list" where
  "OwnersN key n r = LookupN key n (rt_ring r)"

definition ConnFor :: "string \<Rightarrow> 'c Router \<Rightarrow> 'c option" where
  "ConnFor ident r = gm_get (rt_pool r) ident"

definition Owner :: "bytes \<Rightarrow> 'c Router \<Rightarrow> string \<times> bool" where
  "Owner key r = (let node = Lookup key (rt_ring r) in (node, node \<noteq> []))"

text \<open>\<open>closeErr\<close> is the error of \<^verbatim>\<open>ClientConn.Close\<close>, if any.\<close>

definition router_Close :: "('c \<Rightarrow> 'e option) \<Rightarrow> 'c Router \<Rightarrow> 'e option \<times> 'c Router" where
  "router_Close closeErr r =
     fold (\<lambda>(ident, conn) (firstErr, r).
         (case closeErr conn of
            Some err \<Rightarrow> (if firstErr = None then Some err else firstErr)
          | None \<Rightarrow> firstErr,
          r\<lparr>rt_closed := rt_closed r @ [conn], rt_pool := gm_del ident (rt_pool r)\<rparr>))
       (rt_pool r) (None, r)"

section \<open>Membership tables\<close>

text \<open>
  What the router needs of the two tables it keeps in step: adding and removing a name moves the set of
  names, and both keep the table well formed.
\<close>

locale member_table =
  fixes add :: "string \<Rightarrow> 't \<Rightarrow> 't" and remove :: "string \<Rightarrow> 't \<Rightarrow> 't"
    and names :: "'t \<Rightarrow> string set" and wf :: "'t \<Rightarrow> bool"
  assumes add_law: "wf t \<Longrightarrow> wf (add n t) \<and> names (add n t) = insert n (names t)"
    and remove_law: "wf t \<Longrightarrow> wf (remove n t) \<and> names (remove n t) = names t - {n}"
begin

lemma fold_remove:
  assumes "wf t"
  shows "wf (fold remove ns t)" "names (fold remove ns t) = names t - set ns"
proof -
  have "wf (fold remove ns t) \<and> names (fold remove ns t) = names t - set ns"
    using assms by (induction ns arbitrary: t) (auto simp: remove_law)
  then show "wf (fold remove ns t)" "names (fold remove ns t) = names t - set ns" by simp_all
qed

end

interpretation pool: member_table "\<lambda>n. gm_put n v" "gm_del :: string \<Rightarrow> _" gm_keys gm_wf
  by unfold_locales auto

sublocale slice_sorter \<subseteq> rg: member_table "ring_Add sortSlice" ring_Remove "\<lambda>r. gm_keys (r_members r)" ring_inv
  by unfold_locales (simp_all add: ring_Add_inv ring_Remove_inv)

section \<open>The invariant\<close>

text \<open>
  The ring's members are the pool's keys; every connection made is either pooled under one name and open,
  or closed.
\<close>

definition router_inv :: "'c Router \<Rightarrow> bool" where
  "router_inv r \<longleftrightarrow> ring_inv (rt_ring r) \<and> gm_wf (rt_pool r) \<and>
     gm_keys (r_members (rt_ring r)) = gm_keys (rt_pool r) \<and>
     mset (rt_made r) = mset (map snd (rt_pool r)) + mset (rt_closed r) \<and> distinct (rt_made r)"

text \<open>What \<^verbatim>\<open>grpc.NewClient\<close> documents: a new connection each time, and an error only for a malformed target.\<close>

definition dialer :: "('c list \<Rightarrow> string \<Rightarrow> 'c option) \<Rightarrow> bool" where
  "dialer newClient \<longleftrightarrow> (\<forall>cs a c. newClient cs a = Some c \<longrightarrow> c \<notin> set cs) \<and>
     (\<forall>cs cs' a. newClient cs a = None \<longrightarrow> newClient cs' a = None)"

definition dialable :: "('c list \<Rightarrow> string \<Rightarrow> 'c option) \<Rightarrow> string \<Rightarrow> bool" where
  "dialable newClient a \<longleftrightarrow> newClient [] a \<noteq> None"

lemma dialer_fresh: "dialer newClient \<Longrightarrow> newClient cs a = Some c \<Longrightarrow> c \<notin> set cs"
  by (auto simp: dialer_def)

lemma dialer_target: "dialer newClient \<Longrightarrow> newClient cs a = None \<longleftrightarrow> \<not> dialable newClient a"
  by (auto simp: dialer_def dialable_def)

lemma router_New_inv: "router_New v = Some r \<Longrightarrow> router_inv r"
  using ring_inv_New [of v]
  by (auto simp: router_New_def router_inv_def ring_New_def split: option.splits if_splits)

lemma mset_snd_del:
  assumes "gm_wf m" and "gm_get m k = Some v"
  shows "mset (map snd m) = add_mset v (mset (map snd (gm_del k m)))"
  using assms by (induction m) (auto simp: gm_del_absent)

lemma dropped_inv:
  assumes "router_inv r" and "gm_get (rt_pool r) ident = Some conn"
  shows "router_inv (r\<lparr>rt_ring := ring_Remove ident (rt_ring r), rt_closed := rt_closed r @ [conn],
     rt_pool := gm_del ident (rt_pool r)\<rparr>)"
  using assms ring_Remove_inv [of "rt_ring r" ident] mset_snd_del [OF _ assms(2)]
  by (simp add: router_inv_def)

text \<open>The remove pass, as one update.\<close>

definition undesired :: "(string, unit) gomap \<Rightarrow> (string, 'c) gomap \<Rightarrow> string list" where
  "undesired desired pl = map fst (filter (\<lambda>p. fst p \<notin> gm_keys desired) pl)"

lemma fold_dropMember:
  assumes "router_inv r" and "set ps \<subseteq> set (rt_pool r)" and "gm_wf ps"
  shows "router_inv (fold (dropMember desired) ps r) \<and>
    rt_pool (fold (dropMember desired) ps r) = fold gm_del (undesired desired ps) (rt_pool r) \<and>
    rt_ring (fold (dropMember desired) ps r) = fold ring_Remove (undesired desired ps) (rt_ring r) \<and>
    rt_made (fold (dropMember desired) ps r) = rt_made r"
  using assms
proof (induction ps arbitrary: r)
  case (Cons p ps)
  obtain ident conn where p: "p = (ident, conn)" by (cases p)
  let ?r = "dropMember desired p r"
  have wf: "gm_wf (rt_pool r)" using Cons.prems(1) by (simp add: router_inv_def)
  have "gm_get (rt_pool r) ident = Some conn"
    using Cons.prems(2) p wf by (simp add: map_of_eq_Some_iff)
  then have "router_inv ?r"
    using Cons.prems(1) dropped_inv p by (auto simp: dropMember_def split: option.split)
  moreover have "set ps \<subseteq> set (rt_pool ?r)"
  proof
    fix q assume q: "q \<in> set ps"
    then have "fst q \<noteq> ident" and "q \<in> set (rt_pool r)" using Cons.prems(2,3) p by auto
    then show "q \<in> set (rt_pool ?r)"
      using p gm_in_del [OF wf, of "fst q" "snd q" ident] by (simp add: dropMember_def split: option.split)
  qed
  ultimately have "router_inv (fold (dropMember desired) ps ?r) \<and>
    rt_pool (fold (dropMember desired) ps ?r) = fold gm_del (undesired desired ps) (rt_pool ?r) \<and>
    rt_ring (fold (dropMember desired) ps ?r) = fold ring_Remove (undesired desired ps) (rt_ring ?r) \<and>
    rt_made (fold (dropMember desired) ps ?r) = rt_made ?r"
    using Cons.prems(3) by (intro Cons.IH) simp_all
  then show ?case
    using p gm_keys_get [of ident desired]
    by (cases "gm_get desired ident") (simp_all add: dropMember_def undesired_def)
qed (simp add: undesired_def)

lemma keys_desired: "gm_keys (fold (\<lambda>mem d. gm_put (mem_ID mem) () d) m d) = gm_keys d \<union> mem_ID ` set m"
  by (induction m arbitrary: d) auto

context slice_sorter
begin

lemma addMember_inv:
  assumes "dialer newClient" and "router_inv r"
  shows "router_inv (addMember sortSlice newClient mem r)"
proof (cases "gm_get (rt_pool r) (mem_ID mem)")
  case None
  show ?thesis
  proof (cases "newClient (rt_made r) (mem_Addr mem)")
    case (Some c)
    have "mem_ID mem \<notin> gm_keys (rt_pool r)" using None by (simp add: map_of_eq_None_iff)
    then show ?thesis
      using None Some assms ring_Add_inv [of "rt_ring r" "mem_ID mem"] dialer_fresh [OF assms(1) Some]
      by (simp add: addMember_def router_inv_def gm_put_absent)
  qed (use None assms in \<open>simp add: addMember_def\<close>)
qed (use assms in \<open>simp add: addMember_def\<close>)

lemma addMember_get:
  assumes "dialer newClient"
  shows "gm_get (rt_pool (addMember sortSlice newClient mem r)) ident =
    (case gm_get (rt_pool r) ident of
       Some c \<Rightarrow> Some c
     | None \<Rightarrow> if ident = mem_ID mem then newClient (rt_made r) (mem_Addr mem) else None)"
  by (auto simp: addMember_def split: option.split)

lemma fold_addMember:
  assumes "dialer newClient" and "router_inv r"
  shows "router_inv (fold (addMember sortSlice newClient) m r) \<and>
    gm_keys (rt_pool (fold (addMember sortSlice newClient) m r)) =
      gm_keys (rt_pool r) \<union> {mem_ID mem |mem. mem \<in> set m \<and> dialable newClient (mem_Addr mem)} \<and>
    (\<forall>ident c. gm_get (rt_pool r) ident = Some c \<longrightarrow>
      gm_get (rt_pool (fold (addMember sortSlice newClient) m r)) ident = Some c)"
  using assms(2)
proof (induction m arbitrary: r)
  case (Cons mem m)
  let ?r = "addMember sortSlice newClient mem r"
  have get: "gm_get (rt_pool ?r) ident = (case gm_get (rt_pool r) ident of Some c \<Rightarrow> Some c
     | None \<Rightarrow> if ident = mem_ID mem then newClient (rt_made r) (mem_Addr mem) else None)" for ident
    by (rule addMember_get [OF assms(1)])
  have keys: "gm_keys (rt_pool ?r) = gm_keys (rt_pool r) \<union> {i. i = mem_ID mem \<and> dialable newClient (mem_Addr mem)}"
  proof (rule set_eqI)
    fix i
    have "i \<in> gm_keys (rt_pool ?r) \<longleftrightarrow> gm_get (rt_pool ?r) i \<noteq> None" by (rule gm_keys_get)
    also have "\<dots> \<longleftrightarrow> gm_get (rt_pool r) i \<noteq> None \<or> i = mem_ID mem \<and> dialable newClient (mem_Addr mem)"
      using dialer_target [OF assms(1), of "rt_made r" "mem_Addr mem"] unfolding get by (auto split: option.split)
    finally show "i \<in> gm_keys (rt_pool ?r) \<longleftrightarrow>
        i \<in> gm_keys (rt_pool r) \<union> {i. i = mem_ID mem \<and> dialable newClient (mem_Addr mem)}"
      by (simp only: gm_keys_get Un_iff mem_Collect_eq)
  qed
  show ?case using Cons.IH [OF addMember_inv [OF assms(1) Cons.prems(1)]] keys get by auto
qed simp

lemma SetMembers_effect:
  assumes "dialer newClient" and "router_inv r"
  shows "router_inv (SetMembers sortSlice newClient m r)"
    and "gm_keys (rt_pool (SetMembers sortSlice newClient m r)) =
      {mem_ID mem |mem. mem \<in> set m \<and> (mem_ID mem \<in> gm_keys (rt_pool r) \<or> dialable newClient (mem_Addr mem))}"
    and "ident \<in> mem_ID ` set m \<Longrightarrow> gm_get (rt_pool r) ident = Some c \<Longrightarrow>
      gm_get (rt_pool (SetMembers sortSlice newClient m r)) ident = Some c"
proof -
  let ?d = "fold (\<lambda>mem d. gm_put (mem_ID mem) () d) m []" and ?r1 = "fold (addMember sortSlice newClient) m r"
  note add = fold_addMember [OF assms, of m]
  have eq: "SetMembers sortSlice newClient m r = fold (dropMember ?d) (rt_pool ?r1) ?r1"
    by (simp add: SetMembers_def Let_def)
  have wf: "gm_wf (rt_pool ?r1)" using add by (simp add: router_inv_def)
  have drop: "router_inv (SetMembers sortSlice newClient m r) \<and>
      rt_pool (SetMembers sortSlice newClient m r) = fold gm_del (undesired ?d (rt_pool ?r1)) (rt_pool ?r1)"
    unfolding eq using fold_dropMember [of ?r1 "rt_pool ?r1" ?d] add wf by simp
  then show "router_inv (SetMembers sortSlice newClient m r)" by simp
  have und: "set (undesired ?d (rt_pool ?r1)) = gm_keys (rt_pool ?r1) - mem_ID ` set m"
    by (auto simp: undesired_def keys_desired)
  show "gm_keys (rt_pool (SetMembers sortSlice newClient m r)) =
      {mem_ID mem |mem. mem \<in> set m \<and> (mem_ID mem \<in> gm_keys (rt_pool r) \<or> dialable newClient (mem_Addr mem))}"
    using drop add pool.fold_remove(2) [OF wf] und by auto
  have del: "i \<notin> set ns \<Longrightarrow> gm_get (fold gm_del ns pl) i = gm_get pl i" for i ns and pl :: "(string, 'a) gomap"
    by (induction ns arbitrary: pl) auto
  show "gm_get (rt_pool (SetMembers sortSlice newClient m r)) ident = Some c"
    if "ident \<in> mem_ID ` set m" "gm_get (rt_pool r) ident = Some c"
    using that drop add und del by simp
qed

end

section \<open>Routing\<close>

lemma fold_pool_conns:
  "fold (\<lambda>ident out. case gm_get pl ident of Some conn \<Rightarrow> out @ [conn] | None \<Rightarrow> out) ids acc =
     acc @ map (the \<circ> gm_get pl) (filter (\<lambda>i. gm_get pl i \<noteq> None) ids)"
  by (induction ids arbitrary: acc) (auto split: option.split)

lemma OwnerConns_eq:
  assumes "router_inv r"
  shows "OwnerConns key n r = map (the \<circ> gm_get (rt_pool r)) (take (nat n) (walk key (rt_ring r)))"
proof -
  have inv: "ring_inv (rt_ring r)" and keys: "gm_keys (r_members (rt_ring r)) = gm_keys (rt_pool r)"
    using assms by (simp_all add: router_inv_def)
  have "gm_get (rt_pool r) i \<noteq> None" if "i \<in> set (take (nat n) (walk key (rt_ring r)))" for i
    using that in_set_takeD walk_members(2) [OF inv, of key] keys gm_keys_get by metis
  then have "filter (\<lambda>i. gm_get (rt_pool r) i \<noteq> None) (take (nat n) (walk key (rt_ring r))) = take (nat n) (walk key (rt_ring r))"
    by (simp add: filter_id_conv)
  then show ?thesis
    unfolding OwnerConns_def fold_pool_conns Let_def LookupN_walk [OF inv] by simp
qed

lemma walk_ring_Removes:
  "ring_inv rg \<Longrightarrow> walk key (fold ring_Remove ns rg) = filter (\<lambda>i. i \<notin> set ns) (walk key rg)"
proof (induction ns arbitrary: rg)
  case (Cons n ns)
  then show ?case
    by (simp add: ring_Remove_inv walk_Remove removeAll_filter_not_eq conj_commute neq_commute)
qed simp

lemma fold_addMember_known:
  assumes "mem_ID ` set m \<subseteq> gm_keys (rt_pool r)"
  shows "fold (addMember srt newClient) m r = r"
  using assms
proof (induction m)
  case (Cons mem m)
  then show ?case using gm_keys_get [of "mem_ID mem" "rt_pool r"] by (auto simp: addMember_def)
qed simp

lemma gm_get_dels: "i \<notin> set ns \<Longrightarrow> gm_get (fold gm_del ns pl) i = gm_get pl i"
  by (induction ns arbitrary: pl) auto

text \<open>Dropping members: the survivors keep their order around the circle and their connections.\<close>

lemma SetMembers_drop:
  assumes "router_inv r" and "mem_ID ` set m \<subseteq> gm_keys (rt_pool r)"
  shows "walk key (rt_ring (SetMembers srt newClient m r)) = filter (\<lambda>i. i \<in> mem_ID ` set m) (walk key (rt_ring r))"
    and "i \<in> mem_ID ` set m \<Longrightarrow> gm_get (rt_pool (SetMembers srt newClient m r)) i = gm_get (rt_pool r) i"
    and "router_inv (SetMembers srt newClient m r)"
proof -
  let ?d = "fold (\<lambda>mem d. gm_put (mem_ID mem) () d) m []"
  have eq: "SetMembers srt newClient m r = fold (dropMember ?d) (rt_pool r) r"
    by (simp add: SetMembers_def fold_addMember_known [OF assms(2)])
  have wf: "gm_wf (rt_pool r)" and rinv: "ring_inv (rt_ring r)"
    and keys: "gm_keys (r_members (rt_ring r)) = gm_keys (rt_pool r)" using assms(1) by (simp_all add: router_inv_def)
  note drop = fold_dropMember [OF assms(1) subset_refl wf, of ?d, folded eq]
  then show "router_inv (SetMembers srt newClient m r)" by simp
  have und: "set (undesired ?d (rt_pool r)) = gm_keys (rt_pool r) - mem_ID ` set m"
    by (auto simp: undesired_def keys_desired)
  show "walk key (rt_ring (SetMembers srt newClient m r)) = filter (\<lambda>i. i \<in> mem_ID ` set m) (walk key (rt_ring r))"
    using drop und walk_members(2) [OF rinv, of key] keys
    by (simp add: walk_ring_Removes [OF rinv]) (rule filter_cong, auto)
  show "gm_get (rt_pool (SetMembers srt newClient m r)) i = gm_get (rt_pool r) i" if "i \<in> mem_ID ` set m"
    using that drop und by (simp add: gm_get_dels)
qed

section \<open>Properties\<close>

lemma SetMembers_run_inv:
  assumes "slice_sorter srt" and "dialer newClient" and "router_inv r"
  shows "router_inv (fold (SetMembers srt newClient) ms r)"
  using assms(3) by (induction ms arbitrary: r) (simp_all add: slice_sorter.SetMembers_effect(1) [OF assms(1,2)])

lemmas router_history = SetMembers_run_inv [OF _ _ router_New_inv]

text \<open>
  Property C22: in every state that any sequence of membership updates reaches, the ring and the pool hold
  the same names, and no connection leaks: each connection ever made is either in the pool, under one name
  and open, or has been closed, exactly once.
\<close>

theorem router_history_invariant:
  assumes "slice_sorter srt" and "dialer newClient" and "router_New v = Some r0"
    and "r = fold (SetMembers srt newClient) ms r0"
  shows "set (Nodes (rt_ring r)) = gm_keys (rt_pool r) \<and> ring_inv (rt_ring r) \<and>
    set (rt_made r) = snd ` set (rt_pool r) \<union> set (rt_closed r) \<and>
    snd ` set (rt_pool r) \<inter> set (rt_closed r) = {} \<and>
    distinct (map snd (rt_pool r)) \<and> distinct (rt_closed r)"
proof -
  have inv: "router_inv r" unfolding assms(4) by (rule router_history [OF assms(1-3)])
  then have m: "mset (rt_made r) = mset (map snd (rt_pool r) @ rt_closed r)" and d: "distinct (rt_made r)"
    by (simp_all add: router_inv_def)
  have "distinct (map snd (rt_pool r) @ rt_closed r)" using d mset_eq_imp_distinct_iff [OF m] by blast
  moreover have "set (rt_made r) = set (map snd (rt_pool r) @ rt_closed r)" using mset_eq_setD [OF m] .
  ultimately show ?thesis using inv by (simp add: router_inv_def Nodes_def)
qed

text \<open>
  Property C23: reconciliation. After a membership update the members are exactly the listed names that were
  already pooled or have a target that can be dialled, so exactly the listed names when every target is
  well formed; a name that stays keeps its connection; and repeating the update changes nothing.
\<close>

theorem SetMembers_reconciles:
  assumes "slice_sorter srt" and "dialer newClient" and "router_inv r"
    and "r' = SetMembers srt newClient m r"
  shows "set (Nodes (rt_ring r')) =
      {mem_ID mem |mem. mem \<in> set m \<and> (ConnFor (mem_ID mem) r \<noteq> None \<or> dialable newClient (mem_Addr mem))} \<and>
    (\<forall>mem \<in> set m. ConnFor (mem_ID mem) r \<noteq> None \<longrightarrow> ConnFor (mem_ID mem) r' = ConnFor (mem_ID mem) r) \<and>
    SetMembers srt newClient m r' = r'"
proof -
  let ?d = "fold (\<lambda>mem d. gm_put (mem_ID mem) () d) m []"
  note eff = slice_sorter.SetMembers_effect [OF assms(1-3), where m = m, folded assms(4)]
  have keys: "gm_keys (rt_pool r') = {mem_ID mem |mem. mem \<in> set m \<and> (mem_ID mem \<in> gm_keys (rt_pool r) \<or> dialable newClient (mem_Addr mem))}"
    by (rule eff(2))
  have step: "addMember srt newClient mem r' = r'" if "mem \<in> set m" for mem
  proof (cases "mem_ID mem \<in> gm_keys (rt_pool r')")
    case True
    then show ?thesis using gm_keys_get [of "mem_ID mem" "rt_pool r'"] by (auto simp: addMember_def)
  next
    case False
    then have "\<not> dialable newClient (mem_Addr mem)" using keys that by auto
    then have "newClient (rt_made r') (mem_Addr mem) = None" using dialer_target [OF assms(2)] by blast
    then show ?thesis by (simp add: addMember_def split: option.split)
  qed
  have fix_fold: "(\<And>x. x \<in> set xs \<Longrightarrow> f x r' = r') \<Longrightarrow> fold f xs r' = r'" for f and xs :: "'x list"
    by (induction xs) simp_all
  have "dropMember ?d p r' = r'" if "p \<in> set (rt_pool r')" for p
  proof -
    have "fst p \<in> gm_keys ?d" using keys imageI [OF that, of fst] unfolding keys_desired by auto
    then have "gm_get ?d (fst p) \<noteq> None" unfolding gm_keys_get .
    then show ?thesis by (auto simp: dropMember_def split: prod.split)
  qed
  then have "SetMembers srt newClient m r' = r'"
    using fix_fold [of m "addMember srt newClient", OF step] fix_fold [of "rt_pool r'" "dropMember ?d"]
    by (simp add: SetMembers_def)
  moreover have "set (Nodes (rt_ring r')) = gm_keys (rt_pool r')" using eff(1) by (simp add: router_inv_def Nodes_def)
  moreover have "ConnFor (mem_ID mem) r' = ConnFor (mem_ID mem) r" if "mem \<in> set m" "ConnFor (mem_ID mem) r \<noteq> None" for mem
    using that eff(3) [of "mem_ID mem"] by (auto simp: ConnFor_def)
  ultimately show ?thesis using keys unfolding gm_keys_get ConnFor_def by auto
qed

text \<open>
  No drift between ring and pool. The connections for a key are those of its owners, one per
  owner and in ring order, as many as asked for or as there are members; the first is the connection to the
  owner. An owner connection is missing only when there are no members.
\<close>

lemma OwnerConns_complete:
  assumes "router_inv r" and "[] \<notin> set (Nodes (rt_ring r))"
  shows "map Some (OwnerConns key n r) = map (\<lambda>i. ConnFor i r) (OwnersN key n r) \<and>
    length (OwnerConns key n r) = min (nat n) (length (rt_pool r)) \<and>
    (1 \<le> n \<longrightarrow> OwnerConn key r = (case OwnerConns key n r of [] \<Rightarrow> None | c # cs \<Rightarrow> Some c)) \<and>
    (OwnerConn key r = None \<longleftrightarrow> rt_pool r = []) \<and> snd (Owner key r) = (OwnerConn key r \<noteq> None)"
proof -
  let ?w = "walk key (rt_ring r)"
  have inv: "ring_inv (rt_ring r)" and keys: "gm_keys (r_members (rt_ring r)) = gm_keys (rt_pool r)"
    and wf: "gm_wf (rt_pool r)" using assms(1) by (simp_all add: router_inv_def)
  have set_w: "set ?w = gm_keys (rt_pool r)" using walk_members(2) [OF inv] keys by simp
  have pooled: "gm_get (rt_pool r) i = Some (the (gm_get (rt_pool r) i))" if "i \<in> set ?w" for i
    using that set_w gm_keys_get [of i "rt_pool r"] by auto
  have len: "length ?w = length (rt_pool r)"
    using set_w distinct_card [OF walk_members(1) [OF inv, of key]] distinct_card [OF wf] by simp
  have "[] \<notin> set ?w" using assms(2) walk_members(2) [OF inv, of key] by (simp add: Nodes_def)
  then have ne: "hd ?w \<noteq> []" if "?w \<noteq> []" using hd_in_set [OF that] by auto
  have conn: "OwnerConn key r = (if ?w = [] then None else gm_get (rt_pool r) (hd ?w))"
    using ne by (auto simp: OwnerConn_def Lookup_walk [OF inv] Let_def)
  have own: "snd (Owner key r) = (?w \<noteq> [])"
    using ne by (auto simp: Owner_def Lookup_walk [OF inv] Let_def)
  have "map Some (OwnerConns key n r) = map (\<lambda>i. ConnFor i r) (OwnersN key n r)"
    using pooled in_set_takeD [of _ "nat n" ?w]
    by (auto simp: OwnerConns_eq [OF assms(1)] OwnersN_def LookupN_walk [OF inv] ConnFor_def)
  moreover have "OwnerConn key r = (case OwnerConns key n r of [] \<Rightarrow> None | c # cs \<Rightarrow> Some c)" if "1 \<le> n"
    using that pooled unfolding conn OwnerConns_eq [OF assms(1)] by (cases ?w; cases "nat n") simp_all
  moreover have "OwnerConn key r = None \<longleftrightarrow> ?w = []" using conn pooled [of "hd ?w"] by auto
  ultimately show ?thesis using len own by (auto simp: OwnerConns_eq [OF assms(1)])
qed

text \<open>
  Failover. When an update only drops members, the owners of every key are the surviving owners
  in their old order over their old connections, so the first surviving replica becomes the primary.
\<close>

lemma SetMembers_failover:
  assumes "router_inv r" and "mem_ID ` set m \<subseteq> set (Nodes (rt_ring r))"
    and "r' = SetMembers srt newClient m r"
  shows "OwnersN key n r' = take (nat n) (filter (\<lambda>i. i \<in> mem_ID ` set m) (OwnersN key (int (length (rt_pool r))) r)) \<and>
    OwnerConns key n r' = map (\<lambda>i. the (ConnFor i r)) (OwnersN key n r')"
proof -
  have inv: "ring_inv (rt_ring r)" and keys: "gm_keys (r_members (rt_ring r)) = gm_keys (rt_pool r)"
    and wf: "gm_wf (rt_pool r)" using assms(1) by (simp_all add: router_inv_def)
  have sub: "mem_ID ` set m \<subseteq> gm_keys (rt_pool r)" using assms(2) keys by (simp add: Nodes_def)
  note drop = SetMembers_drop [OF assms(1) sub, where srt = srt and newClient = newClient, folded assms(3)]
  have inv': "ring_inv (rt_ring r')" using drop(3) by (simp add: router_inv_def)
  have len: "length (walk key (rt_ring r)) = length (rt_pool r)"
    using walk_members(1,2) [OF inv, of key] keys distinct_card [of "walk key (rt_ring r)"] distinct_card [OF wf] by simp
  have own: "OwnersN key n r' = take (nat n) (filter (\<lambda>i. i \<in> mem_ID ` set m) (walk key (rt_ring r)))"
    by (simp add: OwnersN_def LookupN_walk [OF inv'] drop(1))
  then have mem: "i \<in> mem_ID ` set m" if "i \<in> set (OwnersN key n r')" for i
    using that in_set_takeD [of i "nat n"] by fastforce
  have "OwnerConns key n r' = map (\<lambda>i. the (gm_get (rt_pool r') i)) (OwnersN key n r')"
    by (simp add: OwnerConns_eq [OF drop(3)] OwnersN_def LookupN_walk [OF inv'])
  also have "\<dots> = map (\<lambda>i. the (ConnFor i r)) (OwnersN key n r')"
    using drop(2) [OF mem] by (simp add: ConnFor_def)
  finally show ?thesis using own len by (simp add: OwnersN_def LookupN_walk [OF inv])
qed

section \<open>A dialer and a two-member router\<close>

definition ex_dial :: "nat list \<Rightarrow> string \<Rightarrow> nat option" where
  "ex_dial cs a = (if a = [] then None else Some (Suc (sum_list cs)))"

lemma ex_dialer: "dialer ex_dial"
proof -
  have "Suc (sum_list cs) \<notin> set cs" for cs :: "nat list"
    using member_le_sum_list [of "Suc (sum_list cs)" cs] by auto
  then show ?thesis by (simp add: dialer_def ex_dial_def)
qed

definition ex_members :: "string list \<Rightarrow> Member list" where
  "ex_members ids = map (\<lambda>i. \<lparr>mem_ID = i, mem_Addr = ''host:1''\<rparr>) ids"

definition ex_router :: "string list \<Rightarrow> nat Router" where
  "ex_router ids = fold (SetMembers (sort_key vp_hash) ex_dial) [ex_members ids]
     \<lparr>rt_ring = \<lparr>r_vnodes = 2, r_points = [], r_members = []\<rparr>, rt_pool = [], rt_made = [], rt_closed = []\<rparr>"

lemma ex_router_New: "router_New 2 = Some
     \<lparr>rt_ring = \<lparr>r_vnodes = 2, r_points = [], r_members = []\<rparr>, rt_pool = [], rt_made = [], rt_closed = []\<rparr>"
  by (simp add: router_New_def ring_New_def)

lemma ex_router_inv: "router_inv (ex_router ids)"
  unfolding ex_router_def by (rule router_history [OF stable.slice_sorter_axioms ex_dialer ex_router_New])

lemma ex_router_keys: "gm_keys (rt_pool (ex_router ids)) = set ids" "set (Nodes (rt_ring (ex_router ids))) = set ids"
proof -
  have "dialable ex_dial ''host:1''" by (simp add: dialable_def ex_dial_def)
  then have "{mem_ID mem |mem. mem \<in> set (ex_members ids) \<and> dialable ex_dial (mem_Addr mem)} = set ids"
    by (auto simp: ex_members_def intro!: exI [of _ "\<lparr>mem_ID = _, mem_Addr = ''host:1''\<rparr>"])
  then show k: "gm_keys (rt_pool (ex_router ids)) = set ids"
    using slice_sorter.SetMembers_effect(2) [OF stable.slice_sorter_axioms ex_dialer router_New_inv [OF ex_router_New],
        of "ex_members ids"]
    by (simp add: ex_router_def)
  show "set (Nodes (rt_ring (ex_router ids))) = set ids"
    using k ex_router_inv [of ids] by (simp add: router_inv_def Nodes_def)
qed

theorem router_history_invariant_witness:
  "set (Nodes (rt_ring (ex_router [''a'', ''b'']))) = gm_keys (rt_pool (ex_router [''a'', ''b'']))"
  using router_history_invariant [OF stable.slice_sorter_axioms ex_dialer ex_router_New, of _ "[ex_members [''a'', ''b'']]"]
  by (simp add: ex_router_def)

theorem SetMembers_reconciles_witness:
  "set (Nodes (rt_ring (SetMembers (sort_key vp_hash) ex_dial (ex_members [''c'']) (ex_router [''a'', ''b''])))) = {''c''}"
  using SetMembers_reconciles [OF stable.slice_sorter_axioms ex_dialer ex_router_inv refl, of "ex_members [''c'']" "[''a'', ''b'']"]
  by (simp add: ex_members_def dialable_def ex_dial_def)

section \<open>Shutdown\<close>

text \<open>Closing the router closes every pooled connection, in pool order, and reports the first error.\<close>

lemma router_Close_effect:
  "rt_pool (snd (router_Close closeErr r)) = [] \<and>
   rt_closed (snd (router_Close closeErr r)) = rt_closed r @ map snd (rt_pool r) \<and>
   fst (router_Close closeErr r) = find (\<lambda>_. True) (List.map_filter (closeErr \<circ> snd) (rt_pool r))"
proof -
  let ?f = "\<lambda>(ident, conn) (firstErr, r :: 'a Router).
    (case closeErr conn of Some err \<Rightarrow> (if firstErr = None then Some err else firstErr) | None \<Rightarrow> firstErr,
     r\<lparr>rt_closed := rt_closed r @ [conn], rt_pool := gm_del ident (rt_pool r)\<rparr>)"
  have "fst (fold ?f ps (e, q)) = (case e of Some x \<Rightarrow> Some x
      | None \<Rightarrow> find (\<lambda>_. True) (List.map_filter (closeErr \<circ> snd) ps)) \<and>
    rt_closed (snd (fold ?f ps (e, q))) = rt_closed q @ map snd ps \<and>
    rt_pool (snd (fold ?f ps (e, q))) = fold gm_del (map fst ps) (rt_pool q)" for ps e and q :: "'a Router"
  proof (induction ps arbitrary: e q)
    case (Cons p ps)
    show ?case using Cons.IH by (cases p) (auto simp: map_filter_simps split: option.split)
  qed (auto simp: map_filter_simps split: option.split)
  moreover have "gm_keys (fold gm_del ns pl) = gm_keys pl - set ns" for ns and pl :: "(string, 'a) gomap"
    by (induction ns arbitrary: pl) auto
  then have "fold gm_del (map fst (rt_pool r)) (rt_pool r) = []"
    by (metis Diff_cancel image_is_empty list.set_map set_empty)
  ultimately show ?thesis unfolding router_Close_def by simp
qed

end
