(* ===== verification/Membership.thy ===== *)
theory Membership
  imports Router
begin

text \<open>
  \<^verbatim>\<open>internal/coord/membership.go\<close>: cluster membership over etcd. etcd is a service: the results of its calls
  are parameters, the calls themselves are recorded as a trace. The watch loop turns the watched events
  into complete snapshots, and the driver feeds these to the router.
\<close>

section \<open>The code\<close>

definition MembersPrefix :: string where
  "MembersPrefix = ''/kvcache/members/''"

definition memberKey :: "string \<Rightarrow> string" where
  "memberKey nodeID = MembersPrefix @ nodeID"

text \<open>\<^verbatim>\<open>strings.TrimPrefix\<close>.\<close>

definition TrimPrefix :: "string \<Rightarrow> string \<Rightarrow> string" where
  "TrimPrefix s p = (if take (length p) s = p then drop (length p) s else s)"

text \<open>The calls on the etcd client with their outcomes, as a trace; ending a keepalive is local to the client.\<close>

datatype etcd_call =
    Grant int64 "string + int64"
  | PutLeased string string int64 "string option"
  | KeepAlive int64 "string option"
  | CancelKeepAlive int64
  | Revoke int64 "string option"

datatype coord_error = GrantLease string | PutMemberKey string | KeepAliveErr string | InitialGet string

text \<open>The release function of a registration: its lease and the \<^verbatim>\<open>sync.Once\<close>.\<close>

record Registration =
  reg_lease :: int64
  reg_released :: bool

text \<open>
  The arguments \<open>grant\<close>, \<open>put\<close>, \<open>keepAlive\<close> and \<open>revoke\<close> are the outcomes of the calls. The code drops the error of
  \<^verbatim>\<open>Revoke\<close> when a registration fails and only logs it on release. \<^verbatim>\<open>kaCancel\<close> on a failed keepalive is traced too.
\<close>

definition Register ::
  "(string + int64) \<Rightarrow> string option \<Rightarrow> string option \<Rightarrow> string option \<Rightarrow> string \<Rightarrow> string \<Rightarrow> int64
     \<Rightarrow> (coord_error + Registration) \<times> etcd_call list" where
  "Register grant put keepAlive revoke nodeID addr ttlSeconds =
     (case grant of
        Inl e \<Rightarrow> (Inl (GrantLease e), [Grant ttlSeconds grant])
      | Inr lease \<Rightarrow>
          (case put of
             Some e \<Rightarrow> (Inl (PutMemberKey e),
               [Grant ttlSeconds grant, PutLeased (memberKey nodeID) addr lease put, Revoke lease revoke])
           | None \<Rightarrow>
               (case keepAlive of
                  Some e \<Rightarrow> (Inl (KeepAliveErr e),
                    [Grant ttlSeconds grant, PutLeased (memberKey nodeID) addr lease put, KeepAlive lease keepAlive,
                     CancelKeepAlive lease, Revoke lease revoke])
                | None \<Rightarrow> (Inr \<lparr>reg_lease = lease, reg_released = False\<rparr>,
                    [Grant ttlSeconds grant, PutLeased (memberKey nodeID) addr lease put, KeepAlive lease keepAlive]))))"

definition release :: "string option \<Rightarrow> Registration \<Rightarrow> Registration \<times> etcd_call list" where
  "release revoke reg =
     (if reg_released reg then (reg, [])
      else (reg\<lparr>reg_released := True\<rparr>, [CancelKeepAlive (reg_lease reg), Revoke (reg_lease reg) revoke]))"

datatype EventType = EventTypePut | EventTypeDelete

record KeyValue =
  kv_Key :: string
  kv_Value :: string

record Event =
  ev_Type :: EventType
  ev_Kv :: KeyValue

record GetResponse =
  gr_Kvs :: "KeyValue list"
  gr_Revision :: int

text \<open>A watch response is an error or a batch of events.\<close>

type_synonym WatchResponse = "string + Event list"

definition sendSnapshot :: "(string, string) gomap \<Rightarrow> Member list" where
  "sendSnapshot members = fold (\<lambda>(ident, addr) snap. snap @ [\<lparr>mem_ID = ident, mem_Addr = addr\<rparr>]) members []"

definition applyEvent :: "Event \<Rightarrow> (string, string) gomap \<Rightarrow> (string, string) gomap" where
  "applyEvent ev members =
     (let ident = TrimPrefix (kv_Key (ev_Kv ev)) MembersPrefix
      in case ev_Type ev of
           EventTypePut \<Rightarrow> gm_put ident (kv_Value (ev_Kv ev)) members
         | EventTypeDelete \<Rightarrow> gm_del ident members)"

text \<open>
  The loop over the watch channel, as the list of the snapshots it sends. \<open>accepted k\<close> says whether the
  \<open>k\<close>-th send was received rather than cancelled by the context.
\<close>

fun watchLoop :: "(nat \<Rightarrow> bool) \<Rightarrow> nat \<Rightarrow> (string, string) gomap \<Rightarrow> WatchResponse list \<Rightarrow> Member list list" where
  "watchLoop accepted k members [] = []"
| "watchLoop accepted k members (Inl err # wch) = []"
| "watchLoop accepted k members (Inr events # wch) =
     (let members' = fold applyEvent events members
      in if \<not> accepted k then [] else sendSnapshot members' # watchLoop accepted (k + 1) members' wch)"

definition WatchMembers ::
  "(nat \<Rightarrow> bool) \<Rightarrow> (string \<Rightarrow> string + GetResponse) \<Rightarrow> (string \<Rightarrow> int \<Rightarrow> WatchResponse list)
     \<Rightarrow> coord_error + Member list list" where
  "WatchMembers accepted etcdGet etcdWatch =
     (case etcdGet MembersPrefix of
        Inl e \<Rightarrow> Inl (InitialGet e)
      | Inr resp \<Rightarrow>
          let members = fold (\<lambda>kv m. gm_put (TrimPrefix (kv_Key kv) MembersPrefix) (kv_Value kv) m) (gr_Kvs resp) [];
              startRev = gr_Revision resp + 1
          in Inr (if \<not> accepted 0 then []
                  else sendSnapshot members # watchLoop accepted 1 members (etcdWatch MembersPrefix startRev)))"

text \<open>\<open>received\<close> is the number of snapshots taken from the channel before the context ended.\<close>

definition DriveRouter ::
  "(vpoint list \<Rightarrow> vpoint list) \<Rightarrow> ('c list \<Rightarrow> string \<Rightarrow> 'c option) \<Rightarrow> nat \<Rightarrow> Member list list \<Rightarrow> 'c Router \<Rightarrow> 'c Router" where
  "DriveRouter sortSlice newClient received snaps r = fold (SetMembers sortSlice newClient) (take received snaps) r"

definition Ping :: "(string \<Rightarrow> string + GetResponse) \<Rightarrow> string option" where
  "Ping etcdGet = (case etcdGet ''ping-probe'' of Inl e \<Rightarrow> Some e | Inr _ \<Rightarrow> None)"

section \<open>What etcd promises\<close>

text \<open>
  The store is the result of its log, one list of events per revision. A prefix read at a revision returns
  that prefix of the store, and a watch from a revision returns the events under the prefix from there on,
  in order, in batches of any size.
\<close>

definition etcd_do :: "Event \<Rightarrow> (string \<rightharpoonup> string) \<Rightarrow> (string \<rightharpoonup> string)" where
  "etcd_do ev st = (case ev_Type ev of
      EventTypePut \<Rightarrow> st(kv_Key (ev_Kv ev) \<mapsto> kv_Value (ev_Kv ev))
    | EventTypeDelete \<Rightarrow> st(kv_Key (ev_Kv ev) := None))"

definition etcd_state :: "Event list \<Rightarrow> (string \<rightharpoonup> string)" where
  "etcd_state events = fold etcd_do events Map.empty"

definition under :: "string \<Rightarrow> string \<Rightarrow> bool" where
  "under p k \<longleftrightarrow> take (length p) k = p"

definition etcd_serves ::
  "Event list list \<Rightarrow> nat \<Rightarrow> (string \<Rightarrow> string + GetResponse) \<Rightarrow> (string \<Rightarrow> int \<Rightarrow> WatchResponse list) \<Rightarrow> bool" where
  "etcd_serves hist rv etcdGet etcdWatch \<longleftrightarrow> (\<forall>p.
     (\<exists>kvs. etcdGet p = Inr \<lparr>gr_Kvs = kvs, gr_Revision = int rv\<rparr> \<and> distinct (map kv_Key kvs) \<and>
        (\<forall>kv. kv \<in> set kvs \<longleftrightarrow> under p (kv_Key kv) \<and> etcd_state (concat (take rv hist)) (kv_Key kv) = Some (kv_Value kv))) \<and>
     (\<exists>batches. etcdWatch p (int rv + 1) = map Inr batches \<and>
        concat batches = filter (\<lambda>ev. under p (kv_Key (ev_Kv ev))) (concat (drop rv hist))))"

section \<open>Snapshots follow the store\<close>

lemma TrimPrefix_memberKey [simp]: "TrimPrefix (memberKey n) MembersPrefix = n"
  by (simp add: TrimPrefix_def memberKey_def)

lemma memberKey_inj [simp]: "memberKey a = memberKey b \<longleftrightarrow> a = b"
  by (simp add: memberKey_def)

lemma under_memberKey: "under MembersPrefix k \<longleftrightarrow> (\<exists>n. k = memberKey n)"
  by (metis append_eq_conv_conj append_take_drop_id memberKey_def under_def)

definition mirrors :: "(string, string) gomap \<Rightarrow> (string \<rightharpoonup> string) \<Rightarrow> bool" where
  "mirrors members st \<longleftrightarrow> gm_wf members \<and> (\<forall>n. gm_get members n = st (memberKey n))"

lemma applyEvent_mirrors:
  assumes "mirrors members st" and "under MembersPrefix (kv_Key (ev_Kv ev))"
  shows "mirrors (applyEvent ev members) (etcd_do ev st)"
proof -
  obtain n where "kv_Key (ev_Kv ev) = memberKey n" using assms(2) unfolding under_memberKey by blast
  then show ?thesis
    using assms(1) by (auto simp: mirrors_def applyEvent_def etcd_do_def split: EventType.split)
qed

lemma etcd_do_elsewhere:
  "mirrors members st \<Longrightarrow> \<not> under MembersPrefix (kv_Key (ev_Kv ev)) \<Longrightarrow> mirrors members (etcd_do ev st)"
  by (auto simp: mirrors_def etcd_do_def under_memberKey eq_commute [of "memberKey _"] split: EventType.split)

lemma apply_events_mirror:
  assumes "mirrors members st"
  shows "mirrors (fold applyEvent (filter (\<lambda>ev. under MembersPrefix (kv_Key (ev_Kv ev))) events) members)
    (fold etcd_do events st)"
  using assms
proof (induction events arbitrary: members st)
  case (Cons ev events)
  then show ?case using applyEvent_mirrors etcd_do_elsewhere by simp
qed simp

lemma option_eqI: "(\<And>v. a = Some v \<longleftrightarrow> b = Some v) \<Longrightarrow> a = b"
  by (cases a; cases b) auto

lemma initial_mirror:
  fixes kvs :: "KeyValue list"
  assumes "distinct (map kv_Key kvs)"
    and "\<And>kv. kv \<in> set kvs \<longleftrightarrow> under MembersPrefix (kv_Key kv) \<and> st (kv_Key kv) = Some (kv_Value kv)"
  shows "mirrors (fold (\<lambda>kv m. gm_put (TrimPrefix (kv_Key kv) MembersPrefix) (kv_Value kv) m) kvs []) st"
proof -
  let ?step = "\<lambda>kv m. gm_put (TrimPrefix (kv_Key kv) MembersPrefix) (kv_Value kv) m"
  have key: "kv_Key kv = memberKey (TrimPrefix (kv_Key kv) MembersPrefix)" if "kv \<in> set kvs" for kv
    using assms(2) [of kv] that under_memberKey by auto
  have get: "gm_wf (fold ?step xs []) \<and>
      (\<forall>n v. gm_get (fold ?step xs []) n = Some v \<longleftrightarrow> \<lparr>kv_Key = memberKey n, kv_Value = v\<rparr> \<in> set xs)"
    if "set xs \<subseteq> set kvs" "distinct (map kv_Key xs)" for xs
    using that
  proof (induction xs rule: rev_induct)
    case (snoc x xs)
    let ?n = "TrimPrefix (kv_Key x) MembersPrefix"
    have x: "x = \<lparr>kv_Key = memberKey ?n, kv_Value = kv_Value x\<rparr>"
      using key [of x] snoc.prems(1) by (intro KeyValue.equality) simp_all
    have "\<lparr>kv_Key = memberKey ?n, kv_Value = v\<rparr> \<notin> set xs" for v
      using snoc.prems key [of x] by (force simp: image_iff)
    then show ?case using snoc x by (auto simp: eq_commute [of _ x] elim: ssubst)
  qed simp
  have "gm_get (fold ?step kvs []) n = st (memberKey n)" for n
  proof (rule option_eqI)
    fix v
    have "gm_get (fold ?step kvs []) n = Some v \<longleftrightarrow> \<lparr>kv_Key = memberKey n, kv_Value = v\<rparr> \<in> set kvs"
      using get [of kvs] assms(1) by blast
    also have "\<dots> \<longleftrightarrow> st (memberKey n) = Some v"
      unfolding assms(2) using under_memberKey by simp
    finally show "gm_get (fold ?step kvs []) n = Some v \<longleftrightarrow> st (memberKey n) = Some v" .
  qed
  then show ?thesis using get [of kvs] assms(1) by (simp add: mirrors_def)
qed

lemma sendSnapshot_eq: "sendSnapshot members = map (\<lambda>(i, a). \<lparr>mem_ID = i, mem_Addr = a\<rparr>) members"
proof -
  have "fold (\<lambda>(ident, addr) snap. snap @ [\<lparr>mem_ID = ident, mem_Addr = addr\<rparr>]) members acc =
    acc @ map (\<lambda>(i, a). \<lparr>mem_ID = i, mem_Addr = a\<rparr>) members" for acc
    by (induction members arbitrary: acc) auto
  then show ?thesis by (simp add: sendSnapshot_def)
qed

lemma sendSnapshot_mirror:
  assumes "mirrors members st"
  shows "distinct (map mem_ID (sendSnapshot members))"
    and "\<lparr>mem_ID = n, mem_Addr = a\<rparr> \<in> set (sendSnapshot members) \<longleftrightarrow> st (memberKey n) = Some a"
proof -
  have wf: "gm_wf members" and get: "gm_get members n = st (memberKey n)" using assms by (simp_all add: mirrors_def)
  show "distinct (map mem_ID (sendSnapshot members))" using wf by (simp add: sendSnapshot_eq o_def split_def)
  have "\<lparr>mem_ID = n, mem_Addr = a\<rparr> \<in> set (sendSnapshot members) \<longleftrightarrow> (n, a) \<in> set members"
    by (auto simp: sendSnapshot_eq)
  then show "\<lparr>mem_ID = n, mem_Addr = a\<rparr> \<in> set (sendSnapshot members) \<longleftrightarrow> st (memberKey n) = Some a"
    using map_of_eq_Some_iff [OF wf, of n a] get by simp
qed

lemma watchLoop_last:
  "last (sendSnapshot members # watchLoop (\<lambda>_. True) k members (map Inr batches)) =
     sendSnapshot (fold applyEvent (concat batches) members)"
  by (induction batches arbitrary: members k) (simp_all add: Let_def)

lemma WatchMembers_last:
  assumes "etcd_serves hist rv etcdGet etcdWatch"
  obtains snaps members where "WatchMembers (\<lambda>_. True) etcdGet etcdWatch = Inr snaps" "snaps \<noteq> []"
    "last snaps = sendSnapshot members" "mirrors members (etcd_state (concat hist))"
proof -
  obtain kvs batches where g: "etcdGet MembersPrefix = Inr \<lparr>gr_Kvs = kvs, gr_Revision = int rv\<rparr>" "distinct (map kv_Key kvs)"
      "\<And>kv. kv \<in> set kvs \<longleftrightarrow> under MembersPrefix (kv_Key kv) \<and> etcd_state (concat (take rv hist)) (kv_Key kv) = Some (kv_Value kv)"
    and w: "etcdWatch MembersPrefix (int rv + 1) = map Inr batches"
      "concat batches = filter (\<lambda>ev. under MembersPrefix (kv_Key (ev_Kv ev))) (concat (drop rv hist))"
    using assms unfolding etcd_serves_def by blast
  let ?m0 = "fold (\<lambda>kv m. gm_put (TrimPrefix (kv_Key kv) MembersPrefix) (kv_Value kv) m) kvs []"
  have "etcd_state (concat hist) = fold etcd_do (concat (drop rv hist)) (etcd_state (concat (take rv hist)))"
    by (metis append_take_drop_id concat_append etcd_state_def fold_append comp_apply)
  then have "mirrors (fold applyEvent (concat batches) ?m0) (etcd_state (concat hist))"
    using apply_events_mirror [OF initial_mirror [OF g(2,3)]] w(2) by simp
  moreover have "WatchMembers (\<lambda>_. True) etcdGet etcdWatch =
      Inr (sendSnapshot ?m0 # watchLoop (\<lambda>_. True) 1 ?m0 (map Inr batches))"
    using g(1) w(1) by (simp add: WatchMembers_def Let_def)
  ultimately show thesis using watchLoop_last by (intro that) blast+
qed

section \<open>Properties\<close>

text \<open>
  The watch neither misses nor repeats an event. Against an etcd that serves a prefix read at a
  revision and the events after it, the last snapshot sent lists exactly the live members of the final
  store, each once and with its current address.
\<close>

lemma WatchMembers_current:
  assumes "etcd_serves hist rv etcdGet etcdWatch"
  shows "\<exists>snaps. WatchMembers (\<lambda>_. True) etcdGet etcdWatch = Inr snaps \<and> snaps \<noteq> [] \<and>
    distinct (map mem_ID (last snaps)) \<and>
    (\<forall>n a. \<lparr>mem_ID = n, mem_Addr = a\<rparr> \<in> set (last snaps) \<longleftrightarrow> etcd_state (concat hist) (memberKey n) = Some a)"
proof -
  obtain snaps members where "WatchMembers (\<lambda>_. True) etcdGet etcdWatch = Inr snaps" "snaps \<noteq> []"
    and "last snaps = sendSnapshot members" and "mirrors members (etcd_state (concat hist))"
    by (rule WatchMembers_last [OF assms])
  then show ?thesis using sendSnapshot_mirror [of members "etcd_state (concat hist)"] by (intro exI [of _ snaps]) simp
qed

text \<open>
  Property C21: routing follows membership. A router driven by the watch ends with exactly the live members of
  the etcd store on its ring and in its pool, whatever it held before, provided the live addresses can be
  dialled.
\<close>

theorem DriveRouter_tracks_etcd:
  assumes "etcd_serves hist rv etcdGet etcdWatch" and "slice_sorter srt" and "dialer newClient" and "router_inv r"
    and "\<forall>n a. etcd_state (concat hist) (memberKey n) = Some a \<longrightarrow> dialable newClient a"
    and "WatchMembers (\<lambda>_. True) etcdGet etcdWatch = Inr snaps"
    and "r' = DriveRouter srt newClient (length snaps) snaps r"
  shows "set (Nodes (rt_ring r')) = {n. etcd_state (concat hist) (memberKey n) \<noteq> None} \<and>
    (\<forall>n. ConnFor n r' \<noteq> None \<longleftrightarrow> etcd_state (concat hist) (memberKey n) \<noteq> None)"
proof -
  obtain members where last: "snaps \<noteq> []" "last snaps = sendSnapshot members"
    and mir: "mirrors members (etcd_state (concat hist))"
    using WatchMembers_last [OF assms(1)] assms(6) by (metis sum.inject(2))
  define r1 where "r1 = fold (SetMembers srt newClient) (butlast snaps) r"
  have inv1: "router_inv r1"
    unfolding r1_def by (rule SetMembers_run_inv [OF assms(2-4)])
  have "snaps = butlast snaps @ [last snaps]" using last(1) by simp
  then have "fold f snaps r = f (last snaps) (fold f (butlast snaps) r)" for f
    using fold_append [of f "butlast snaps" "[last snaps]"] by simp
  then have r': "r' = SetMembers srt newClient (last snaps) r1"
    unfolding assms(7) DriveRouter_def r1_def by simp
  have mem: "(\<exists>a. \<lparr>mem_ID = n, mem_Addr = a\<rparr> \<in> set (last snaps)) \<longleftrightarrow> etcd_state (concat hist) (memberKey n) \<noteq> None" for n
    using sendSnapshot_mirror(2) [OF mir] last(2) by auto
  have ok: "dialable newClient (mem_Addr m)" if "m \<in> set (last snaps)" for m
  proof -
    obtain n a where m: "m = \<lparr>mem_ID = n, mem_Addr = a\<rparr>" by (cases m) auto
    then show ?thesis using that assms(5) sendSnapshot_mirror(2) [OF mir, of n a] last(2) by simp
  qed
  have "gm_keys (rt_pool r') = {mem_ID m |m. m \<in> set (last snaps)}"
    using slice_sorter.SetMembers_effect(2) [OF assms(2,3) inv1, of "last snaps"] ok unfolding r' by blast
  also have "\<dots> = {n. etcd_state (concat hist) (memberKey n) \<noteq> None}"
  proof (rule set_eqI)
    fix n
    have "m = \<lparr>mem_ID = mem_ID m, mem_Addr = mem_Addr m\<rparr>" for m :: Member by simp
    then show "n \<in> {mem_ID m |m. m \<in> set (last snaps)} \<longleftrightarrow> n \<in> {n. etcd_state (concat hist) (memberKey n) \<noteq> None}"
      unfolding mem [symmetric] mem_Collect_eq by (metis Member.select_convs(1))
  qed
  finally have "gm_keys (rt_pool r') = {n. etcd_state (concat hist) (memberKey n) \<noteq> None}" .
  moreover have "router_inv r'" unfolding r' by (rule slice_sorter.SetMembers_effect(1) [OF assms(2,3) inv1])
  ultimately show ?thesis
    unfolding ConnFor_def gm_keys_get [symmetric] by (auto simp: router_inv_def Nodes_def)
qed

section \<open>Leases\<close>

text \<open>
  What etcd documents of leases: a granted lease lives for its time to live, a keepalive renews it as long as it
  runs, a revocation that succeeds ends it, and with a lease go the keys put under it. A lease is gone, renewed for
  as long as the client runs, or running out.
\<close>

datatype lease_state = Renewed | RunningOut

fun lease_effect :: "etcd_call \<Rightarrow> (int64 \<rightharpoonup> lease_state) \<Rightarrow> (int64 \<rightharpoonup> lease_state)" where
  "lease_effect (Grant ttl (Inr lease)) m = m(lease \<mapsto> RunningOut)"
| "lease_effect (KeepAlive lease None) m = (if m lease = None then m else m(lease \<mapsto> Renewed))"
| "lease_effect (CancelKeepAlive lease) m = (if m lease = None then m else m(lease \<mapsto> RunningOut))"
| "lease_effect (Revoke lease None) m = m(lease := None)"
| "lease_effect _ m = m"

definition leases :: "etcd_call list \<Rightarrow> (int64 \<rightharpoonup> lease_state)" where
  "leases calls = fold lease_effect calls Map.empty"

text \<open>The release function called over and over, with the outcome of each revocation there would be.\<close>

fun releases :: "string option list \<Rightarrow> Registration \<Rightarrow> Registration \<times> etcd_call list" where
  "releases [] reg = (reg, [])"
| "releases (revoke # rs) reg =
     (let (reg', calls) = release revoke reg; (reg'', calls') = releases rs reg' in (reg'', calls @ calls'))"

lemma releases_released: "reg_released reg \<Longrightarrow> releases rs reg = (reg, [])"
  by (induction rs) (simp_all add: release_def)

text \<open>
  Property C36: no lease is kept alive without its owner. A registration that succeeds has published the address of
  the member under the granted lease, which is renewed from then on. A registration that fails, at whichever call,
  leaves no lease that is renewed: none at all if it failed at the grant or its revocation got through, and
  otherwise one that runs out by itself, since the error of the revocation is dropped. The same holds after a
  release, which cancels the keepalive and revokes the lease once however often it is called.
\<close>

theorem Register_lease:
  "case Register grant put keepAlive revoke nodeID addr ttl of
     (Inr reg, calls) \<Rightarrow>
       grant = Inr (reg_lease reg) \<and> PutLeased (memberKey nodeID) addr (reg_lease reg) None \<in> set calls \<and>
       leases calls = [reg_lease reg \<mapsto> Renewed] \<and>
       (\<forall>rv rs. snd (releases (rv # rs) reg) = [CancelKeepAlive (reg_lease reg), Revoke (reg_lease reg) rv] \<and>
          leases (calls @ snd (releases (rv # rs) reg)) = (if rv = None then Map.empty else [reg_lease reg \<mapsto> RunningOut]))
   | (Inl err, calls) \<Rightarrow>
       (\<exists>e. grant = Inl e \<and> err = GrantLease e \<and> leases calls = Map.empty) \<or>
       (\<exists>lease. grant = Inr lease \<and> leases calls = (if revoke = None then Map.empty else [lease \<mapsto> RunningOut]))"
proof -
  have rel: "snd (releases (rv # rs) reg) = [CancelKeepAlive (reg_lease reg), Revoke (reg_lease reg) rv]"
    if "\<not> reg_released reg" for rv rs reg
    using that by (simp add: release_def releases_released split_def)
  show ?thesis
  proof (cases grant)
    case (Inl e)
    then show ?thesis by (simp add: Register_def leases_def)
  next
    case (Inr lease)
    then show ?thesis
      using rel [of "\<lparr>reg_lease = lease, reg_released = False\<rparr>"]
      by (cases put; cases keepAlive; cases revoke) (auto simp: Register_def leases_def)
  qed
qed

section \<open>An etcd with two members, one of which leaves\<close>

definition ex_put :: "string \<Rightarrow> Event" where
  "ex_put n = \<lparr>ev_Type = EventTypePut, ev_Kv = \<lparr>kv_Key = memberKey n, kv_Value = ''host:1''\<rparr>\<rparr>"

definition ex_hist :: "Event list list" where
  "ex_hist = [[ex_put ''a''], [ex_put ''b'']]"

definition ex_get :: "string \<Rightarrow> string + GetResponse" where
  "ex_get p = Inr \<lparr>gr_Kvs = (if under p (memberKey ''a'') then [\<lparr>kv_Key = memberKey ''a'', kv_Value = ''host:1''\<rparr>] else []),
     gr_Revision = 1\<rparr>"

definition ex_watch :: "string \<Rightarrow> int \<Rightarrow> WatchResponse list" where
  "ex_watch p rv = [Inr (filter (\<lambda>ev. under p (kv_Key (ev_Kv ev))) [ex_put ''b''])]"

lemma ex_serves: "etcd_serves ex_hist 1 ex_get ex_watch"
proof -
  have "etcd_state (concat (take 1 ex_hist)) = [memberKey ''a'' \<mapsto> ''host:1'']"
    by (simp add: ex_hist_def ex_put_def etcd_state_def etcd_do_def)
  then have g: "distinct (map kv_Key kvs) \<and>
      (\<forall>kv. kv \<in> set kvs \<longleftrightarrow> under p (kv_Key kv) \<and> etcd_state (concat (take 1 ex_hist)) (kv_Key kv) = Some (kv_Value kv))"
    if "kvs = (if under p (memberKey ''a'') then [\<lparr>kv_Key = memberKey ''a'', kv_Value = ''host:1''\<rparr>] else [])"
    for p and kvs :: "KeyValue list"
    using that by (auto intro!: KeyValue.equality split: if_splits)
  have w: "\<exists>batches. ex_watch p (int 1 + 1) = map Inr batches \<and>
      concat batches = filter (\<lambda>ev. under p (kv_Key (ev_Kv ev))) (concat (drop 1 ex_hist))" for p
    by (rule exI [of _ "[filter (\<lambda>ev. under p (kv_Key (ev_Kv ev))) [ex_put ''b'']]"]) (simp add: ex_watch_def ex_hist_def)
  show ?thesis
    unfolding etcd_serves_def by (intro allI conjI exI w) (use g in \<open>auto simp: ex_get_def\<close>)
qed

lemma ex_state: "etcd_state (concat ex_hist) = [memberKey ''a'' \<mapsto> ''host:1'', memberKey ''b'' \<mapsto> ''host:1'']"
  by (simp add: ex_hist_def ex_put_def etcd_state_def etcd_do_def)

theorem DriveRouter_tracks_etcd_witness:
  "set (Nodes (rt_ring (DriveRouter (sort_key vp_hash) ex_dial (length (projr (WatchMembers (\<lambda>_. True) ex_get ex_watch)))
     (projr (WatchMembers (\<lambda>_. True) ex_get ex_watch)) (ex_router [''c''])))) = {''a'', ''b''}"
proof -
  obtain snaps where w: "WatchMembers (\<lambda>_. True) ex_get ex_watch = Inr snaps"
    using WatchMembers_last [OF ex_serves] by metis
  have live: "{n. etcd_state (concat ex_hist) (memberKey n) \<noteq> None} = {''a'', ''b''}"
    by (auto simp: ex_state split: if_splits)
  have "\<forall>n a. etcd_state (concat ex_hist) (memberKey n) = Some a \<longrightarrow> dialable ex_dial a"
    by (auto simp: ex_state dialable_def ex_dial_def split: if_splits)
  then show ?thesis
    using DriveRouter_tracks_etcd [OF ex_serves stable.slice_sorter_axioms ex_dialer ex_router_inv _ w refl, of "[''c'']"]
    unfolding live w by simp
qed

end
