(* ===== verification/Chaos.thy ===== *)
theory Chaos
  imports Membership Go_Strings "HOL-Library.Multiset"
begin

text \<open>
  \<^verbatim>\<open>cmd/chaos/main.go\<close>: the fault injector. It launches cache servers as child processes, kills a random live
  one on every tick and relaunches it later from a timer goroutine of its own. The operating system is a
  parameter: the outcome of a launch is an argument, and the calls that create and end processes are a
  trace. The run is a step relation between the critical sections of the fault loop and of the restart timers, which
  interleave freely, with server processes that may end by themselves at any time.
\<close>

section \<open>The cluster\<close>

type_synonym pid = nat

record node =
  nd_id :: string
  nd_args :: "string list"
  nd_cmd :: "pid option"

text \<open>
  The pointers in \<^verbatim>\<open>nodes\<close> are never nil and never shared: \<open>start\<close> is the only writer of the slice, and it
  allocates each node it stores.
\<close>

record cluster =
  cl_serverBin :: string
  cl_etcd :: string
  cl_rf :: int
  cl_leaseTTL :: int
  cl_maxBytes :: int
  cl_basePort :: int
  cl_baseMetricsPort :: int
  cl_nodes :: "node list"
  cl_kills :: int
  cl_restarts :: int

text \<open>
  What happens to processes: a launch, a kill with the reaping of the process (\<^verbatim>\<open>Kill\<close>, then \<^verbatim>\<open>Wait\<close>), and a server that
  ends by itself, of which the program learns nothing.
\<close>

datatype proc_call = Spawned pid string "string list" | KilledReaped pid | Exited pid

definition nodeID :: "nat \<Rightarrow> string" where
  "nodeID i = ''chaos-'' @ decimal i"

definition startArgs :: "nat \<Rightarrow> cluster \<Rightarrow> string list" where
  "startArgs i c =
     (let port = cl_basePort c + int i; metricsPort = cl_baseMetricsPort c + int i
      in [''-addr'', '':'' @ Itoa port,
          ''-advertise'', ''localhost:'' @ Itoa port,
          ''-node-id'', nodeID i,
          ''-etcd'', cl_etcd c,
          ''-rf'', Itoa (cl_rf c),
          ''-lease-ttl'', Itoa (cl_leaseTTL c),
          ''-max-bytes'', Itoa (cl_maxBytes c),
          ''-metrics-addr'', '':'' @ Itoa metricsPort])"

definition emptyNode :: node where
  "emptyNode = \<lparr>nd_id = [], nd_args = [], nd_cmd = None\<rparr>"

text \<open>The critical section of \<^verbatim>\<open>start\<close>, which stores the handle of a process that is already running.\<close>

definition storeNode :: "pid \<Rightarrow> nat \<Rightarrow> cluster \<Rightarrow> cluster" where
  "storeNode p i c =
     (let padded = cl_nodes c @ replicate (Suc i - length (cl_nodes c)) emptyNode
      in c\<lparr>cl_nodes := padded[i := \<lparr>nd_id = nodeID i, nd_args = startArgs i c, nd_cmd = Some p\<rparr>]\<rparr>)"

text \<open>
  The whole of \<^verbatim>\<open>start\<close> with nothing in between, as when \<^verbatim>\<open>main\<close> launches the nodes. The first argument is the outcome of
  \<^verbatim>\<open>cmd.Start\<close>.
\<close>

definition start :: "(string + pid) \<Rightarrow> nat \<Rightarrow> cluster \<Rightarrow> string option \<times> cluster \<times> proc_call list" where
  "start spawn i c =
     (case spawn of
        Inl err \<Rightarrow> (Some err, c, [])
      | Inr p \<Rightarrow> (None, storeNode p i c, [Spawned p (cl_serverBin c) (startArgs i c)]))"

definition aliveIdx :: "cluster \<Rightarrow> nat list" where
  "aliveIdx c = filter (\<lambda>i. nd_cmd (cl_nodes c ! i) \<noteq> None) [0..<length (cl_nodes c)]"

text \<open>\<^verbatim>\<open>rng.Intn(n)\<close> is \<open>intn n\<close> and panics for an empty range; a panic is \<^term>\<open>None\<close>.\<close>

definition pickVictim :: "int \<Rightarrow> (nat \<Rightarrow> nat) \<Rightarrow> cluster \<Rightarrow> (nat \<times> bool) option" where
  "pickVictim rf intn c =
     (let alive = aliveIdx c
      in if int (length alive) - 1 < rf then Some (0, False)
         else if alive = [] then None
         else Some (alive ! intn (length alive), True))"

definition kill :: "nat \<Rightarrow> cluster \<Rightarrow> (cluster \<times> proc_call list) option" where
  "kill i c =
     (if length (cl_nodes c) \<le> i then None
      else let n = cl_nodes c ! i
           in case nd_cmd n of
                None \<Rightarrow> Some (c, [])
              | Some p \<Rightarrow> Some (c\<lparr>cl_nodes := (cl_nodes c)[i := n\<lparr>nd_cmd := None\<rparr>], cl_kills := cl_kills c + 1\<rparr>, [KilledReaped p]))"

text \<open>
  One tick of the fault loop with nothing between its two critical sections: the cluster, the process calls and the
  node a restart timer was started for.
\<close>

definition faultTick :: "int \<Rightarrow> int \<Rightarrow> (nat \<Rightarrow> nat) \<Rightarrow> cluster \<Rightarrow> (cluster \<times> proc_call list \<times> nat option) option" where
  "faultTick rf downTime intn c =
     (case pickVictim rf intn c of
        None \<Rightarrow> None
      | Some (i, ok) \<Rightarrow>
          if \<not> ok then Some (c, [], None)
          else (case kill i c of
                  None \<Rightarrow> None
                | Some (c', calls) \<Rightarrow> Some (c', calls, if 0 < downTime then Some i else None)))"

definition countRestart :: "cluster \<Rightarrow> cluster" where
  "countRestart c = c\<lparr>cl_restarts := cl_restarts c + 1\<rparr>"

text \<open>
  The timer goroutine with nothing between its launch and its two critical sections: \<open>cancelled\<close> says that the context
  ended before the timer fired.
\<close>

definition restartAfter :: "bool \<Rightarrow> (string + pid) \<Rightarrow> nat \<Rightarrow> cluster \<Rightarrow> cluster \<times> proc_call list" where
  "restartAfter cancelled spawn i c =
     (if cancelled then (c, [])
      else (case start spawn i c of
              (Some err, c', calls) \<Rightarrow> (c', calls)
            | (None, c', calls) \<Rightarrow> (countRestart c', calls)))"

definition killAll :: "cluster \<Rightarrow> cluster \<times> proc_call list" where
  "killAll c =
     (c\<lparr>cl_nodes := map (\<lambda>n. n\<lparr>nd_cmd := None\<rparr>) (cl_nodes c)\<rparr>,
      concat (map (\<lambda>n. case nd_cmd n of None \<Rightarrow> [] | Some p \<Rightarrow> [KilledReaped p]) (cl_nodes c)))"

definition counts :: "cluster \<Rightarrow> int \<times> int" where
  "counts c = (cl_kills c, cl_restarts c)"

text \<open>The cluster \<^verbatim>\<open>main\<close> starts from.\<close>

definition newCluster :: "string \<Rightarrow> string \<Rightarrow> int \<Rightarrow> int \<Rightarrow> int \<Rightarrow> int \<Rightarrow> int \<Rightarrow> cluster" where
  "newCluster serverBin etcd rf leaseTTL maxBytes basePort baseMetricsPort =
     \<lparr>cl_serverBin = serverBin, cl_etcd = etcd, cl_rf = rf, cl_leaseTTL = leaseTTL, cl_maxBytes = maxBytes,
      cl_basePort = basePort, cl_baseMetricsPort = baseMetricsPort, cl_nodes = [], cl_kills = 0, cl_restarts = 0\<rparr>"

text \<open>The launch loop of \<^verbatim>\<open>main\<close>, over the outcomes of the launches; an error is fatal.\<close>

fun launch :: "(string + pid) list \<Rightarrow> nat \<Rightarrow> cluster \<Rightarrow> string option \<times> cluster \<times> proc_call list" where
  "launch [] i c = (None, c, [])"
| "launch (spawn # spawns) i c =
     (case start spawn i c of
        (Some err, c', calls) \<Rightarrow> (Some err, c', calls)
      | (None, c', calls) \<Rightarrow>
          (case launch spawns (i + 1) c' of (res, c'', calls') \<Rightarrow> (res, c'', calls @ calls')))"

text \<open>
  Waiting for registrations: a received snapshot is \<^term>\<open>Some snap\<close>, a closed channel \<^term>\<open>None\<close>, and the end of
  the list is the timeout.
\<close>

datatype wait_error = DialErr string | WatchErr coord_error | TooFew int | ChannelClosed

fun waitLoop :: "int \<Rightarrow> Member list option list \<Rightarrow> wait_error option" where
  "waitLoop want [] = Some (TooFew want)"
| "waitLoop want (None # evs) = Some ChannelClosed"
| "waitLoop want (Some snap # evs) = (if want \<le> int (length snap) then None else waitLoop want evs)"

definition splitCSV :: "string \<Rightarrow> string list" where
  "splitCSV s = filter (\<lambda>v. v \<noteq> []) (map TrimSpace (Split (CHR '','') s))"

definition waitForMembers ::
  "(string list \<Rightarrow> string option) \<Rightarrow> coord_error option \<Rightarrow> Member list option list \<Rightarrow> string \<Rightarrow> int \<Rightarrow> wait_error option" where
  "waitForMembers dial watch evs endpoints want =
     (case dial (splitCSV endpoints) of
        Some err \<Rightarrow> Some (DialErr err)
      | None \<Rightarrow> (case watch of Some err \<Rightarrow> Some (WatchErr err) | None \<Rightarrow> waitLoop want evs))"

definition pingEtcd :: "(string list \<Rightarrow> string option) \<Rightarrow> (string \<Rightarrow> string + GetResponse) \<Rightarrow> string \<Rightarrow> string option" where
  "pingEtcd dial etcdGet endpoints = (case dial (splitCSV endpoints) of Some err \<Rightarrow> Some err | None \<Rightarrow> Ping etcdGet)"

definition exeName :: "string \<Rightarrow> string \<Rightarrow> string" where
  "exeName GOOS base = (if GOOS = ''windows'' then base @ ''.exe'' else base)"

section \<open>Process handles\<close>

text \<open>All that matters of the nodes is the handle each one holds.\<close>

abbreviation cmds :: "cluster \<Rightarrow> pid option list" where
  "cmds c \<equiv> map nd_cmd (cl_nodes c)"

definition up :: "pid option list \<Rightarrow> nat set" where
  "up xs = {i. i < length xs \<and> xs ! i \<noteq> None}"

definition handles :: "pid option list \<Rightarrow> pid set" where
  "handles xs = {p. Some p \<in> set xs}"

definition unshared :: "pid option list \<Rightarrow> bool" where
  "unshared xs \<longleftrightarrow> (\<forall>i j p. i < length xs \<and> j < length xs \<and> xs ! i = Some p \<and> xs ! j = Some p \<longrightarrow> i = j)"

section \<open>The run\<close>

text \<open>The processes alive after some calls.\<close>

fun proc_effect :: "proc_call \<Rightarrow> pid set \<Rightarrow> pid set" where
  "proc_effect (Spawned p bin args) R = insert p R"
| "proc_effect (KilledReaped p) R = R - {p}"
| "proc_effect (Exited p) R = R - {p}"

abbreviation procs :: "proc_call list \<Rightarrow> pid set \<Rightarrow> pid set" where
  "procs calls R \<equiv> fold proc_effect calls R"

text \<open>
  A state between critical sections: the cluster; the node the fault loop has picked and is about to kill; the
  live processes; the nodes with a restart timer that has not fired, one occurrence per timer; the processes timers
  have launched and not stored yet; and the number of timers that have stored theirs and not counted it yet.
\<close>

record chaos_state =
  cs_cluster :: cluster
  cs_victim :: "nat option"
  cs_live :: "pid set"
  cs_waiting :: "nat multiset"
  cs_launched :: "(nat \<times> pid) multiset"
  cs_stored :: nat

text \<open>
  The identities the system does not give to a new process: those of live processes, and those of processes that
  ended and have not been waited for.
\<close>

definition in_use :: "chaos_state \<Rightarrow> pid set" where
  "in_use s = cs_live s \<union> handles (cmds (cs_cluster s)) \<union> snd ` set_mset (cs_launched s)"

inductive chaos_step :: "int \<Rightarrow> int \<Rightarrow> chaos_state \<Rightarrow> chaos_state \<Rightarrow> bool" for rf downTime where
  pick: "cs_victim s = None \<Longrightarrow> pickVictim rf intn (cs_cluster s) = Some (i, ok) \<Longrightarrow> \<forall>n > 0. intn n < n \<Longrightarrow>
    chaos_step rf downTime s (s\<lparr>cs_victim := (if ok then Some i else None)\<rparr>)"
| killed: "cs_victim s = Some i \<Longrightarrow> kill i (cs_cluster s) = Some (c', calls) \<Longrightarrow>
    chaos_step rf downTime s (s\<lparr>cs_cluster := c', cs_victim := None, cs_live := procs calls (cs_live s),
      cs_waiting := (if 0 < downTime then add_mset i (cs_waiting s) else cs_waiting s)\<rparr>)"
| ends: "i \<in># cs_waiting s \<Longrightarrow> chaos_step rf downTime s (s\<lparr>cs_waiting := cs_waiting s - {#i#}\<rparr>)"
| launches: "i \<in># cs_waiting s \<Longrightarrow> p \<notin> in_use s \<Longrightarrow>
    chaos_step rf downTime s (s\<lparr>cs_live := insert p (cs_live s), cs_waiting := cs_waiting s - {#i#},
      cs_launched := add_mset (i, p) (cs_launched s)\<rparr>)"
| stores: "(i, p) \<in># cs_launched s \<Longrightarrow>
    chaos_step rf downTime s (s\<lparr>cs_cluster := storeNode p i (cs_cluster s), cs_launched := cs_launched s - {#(i, p)#},
      cs_stored := cs_stored s + 1\<rparr>)"
| counts: "0 < cs_stored s \<Longrightarrow>
    chaos_step rf downTime s (s\<lparr>cs_cluster := countRestart (cs_cluster s), cs_stored := cs_stored s - 1\<rparr>)"
| exits: "chaos_step rf downTime s (s\<lparr>cs_live := cs_live s - {p}\<rparr>)"

section \<open>Handles under updates\<close>

lemma finite_up [simp]: "finite (up xs)"
  by (simp add: up_def)

lemma set_aliveIdx: "set (aliveIdx c) = up (cmds c)"
  by (auto simp: aliveIdx_def up_def)

lemma length_aliveIdx: "length (aliveIdx c) = card (up (cmds c))"
  using set_aliveIdx [of c] distinct_card [of "aliveIdx c"] by (simp add: aliveIdx_def)

lemma up_upd:
  assumes "i < length xs"
  shows "up (xs[i := None]) = up xs - {i}" and "up (xs[i := Some p]) = insert i (up xs)"
  using assms by (auto simp: up_def nth_list_update)

lemma handles_nth: "p \<in> handles xs \<longleftrightarrow> (\<exists>j < length xs. xs ! j = Some p)"
  by (simp add: handles_def in_set_conv_nth)

lemma handles_down:
  assumes "unshared xs" and "i < length xs" and "xs ! i = Some p"
  shows "handles (xs[i := None]) = handles xs - {p}" and "unshared (xs[i := None])"
proof -
  have "q \<in> handles (xs[i := None]) \<longleftrightarrow> q \<in> handles xs - {p}" for q
    using assms unfolding handles_nth unshared_def Diff_iff singleton_iff
    by (metis length_list_update nth_list_update_eq nth_list_update_neq option.distinct(1) option.inject)
  then show "handles (xs[i := None]) = handles xs - {p}" by blast
  show "unshared (xs[i := None])" using assms(1,2) by (auto simp: unshared_def nth_list_update split: if_splits)
qed

lemma handles_up:
  assumes "unshared xs" and "i < length xs" and "xs ! i = None" and "p \<notin> handles xs"
  shows "handles (xs[i := Some p]) = insert p (handles xs)" and "unshared (xs[i := Some p])"
proof -
  show "unshared (xs[i := Some p])" using assms unfolding handles_nth by (auto simp: unshared_def nth_list_update)
  have "q \<in> handles (xs[i := Some p]) \<longleftrightarrow> q \<in> insert p (handles xs)" for q
    using assms unfolding handles_nth insert_iff by (metis length_list_update nth_list_update_eq nth_list_update_neq option.distinct(1) option.inject)
  then show "handles (xs[i := Some p]) = insert p (handles xs)" by blast
qed

lemma storeNode_cmds:
  assumes "i < length (cl_nodes c)"
  shows "cmds (storeNode p i c) = (cmds c)[i := Some p]" "cl_kills (storeNode p i c) = cl_kills c" "cl_restarts (storeNode p i c) = cl_restarts c"
  using assms by (simp_all add: storeNode_def Let_def map_update)

section \<open>The invariant\<close>

text \<open>The nodes a restart is under way for: a timer that has not fired, or a launch that is not stored.\<close>

definition due :: "chaos_state \<Rightarrow> nat multiset" where
  "due s = cs_waiting s + image_mset fst (cs_launched s)"

text \<open>
  Every live process is one the nodes hold a handle of or one a timer has just launched, and each is in one place; a
  node with a restart under way is down and has only that one; at least \<open>m\<close> nodes are up, and more if the fault loop is
  about to kill one of them; and the counters account for the restarts.
\<close>

definition chaos_inv :: "int \<Rightarrow> chaos_state \<Rightarrow> bool" where
  "chaos_inv m s \<longleftrightarrow>
     (let c = cs_cluster s; L = cs_launched s
      in unshared (cmds c) \<and> cs_live s \<subseteq> handles (cmds c) \<union> snd ` set_mset L \<and>
         (\<forall>(i, p) \<in># L. p \<notin> handles (cmds c)) \<and> (\<forall>(i, p) \<in># L. \<forall>(j, q) \<in># L. p = q \<longrightarrow> i = j) \<and>
         (\<forall>i \<in># due s. i < length (cl_nodes c) \<and> i \<notin> up (cmds c) \<and> count (due s) i = 1) \<and>
         (case cs_victim s of None \<Rightarrow> m \<le> int (card (up (cmds c))) | Some i \<Rightarrow> i \<in> up (cmds c) \<and> m < int (card (up (cmds c)))) \<and>
         cl_restarts c + int (cs_stored s) + int (size (due s)) \<le> cl_kills c)"

lemma chaos_invD:
  assumes "chaos_inv m s"
  shows "unshared (cmds (cs_cluster s))" "cs_live s \<subseteq> handles (cmds (cs_cluster s)) \<union> snd ` set_mset (cs_launched s)"
    "(i, p) \<in># cs_launched s \<Longrightarrow> p \<notin> handles (cmds (cs_cluster s))"
    "(i, p) \<in># cs_launched s \<Longrightarrow> (j, p) \<in># cs_launched s \<Longrightarrow> i = j"
    "i \<in># due s \<Longrightarrow> i < length (cl_nodes (cs_cluster s)) \<and> i \<notin> up (cmds (cs_cluster s)) \<and> count (due s) i = 1"
    "cs_victim s = Some i \<Longrightarrow> i \<in> up (cmds (cs_cluster s)) \<and> m < int (card (up (cmds (cs_cluster s))))"
    "m \<le> int (card (up (cmds (cs_cluster s))))"
    "cl_restarts (cs_cluster s) + int (cs_stored s) + int (size (due s)) \<le> cl_kills (cs_cluster s)"
  using assms unfolding chaos_inv_def Let_def by (auto split: option.splits)

lemma chaos_invI:
  assumes "unshared (cmds (cs_cluster s))" "cs_live s \<subseteq> handles (cmds (cs_cluster s)) \<union> snd ` set_mset (cs_launched s)"
    "\<And>i p. (i, p) \<in># cs_launched s \<Longrightarrow> p \<notin> handles (cmds (cs_cluster s))"
    "\<And>i j p. (i, p) \<in># cs_launched s \<Longrightarrow> (j, p) \<in># cs_launched s \<Longrightarrow> i = j"
    "\<And>i. i \<in># due s \<Longrightarrow> i < length (cl_nodes (cs_cluster s)) \<and> i \<notin> up (cmds (cs_cluster s)) \<and> count (due s) i = 1"
    "\<And>i. cs_victim s = Some i \<Longrightarrow> i \<in> up (cmds (cs_cluster s)) \<and> m < int (card (up (cmds (cs_cluster s))))"
    "m \<le> int (card (up (cmds (cs_cluster s))))"
    "cl_restarts (cs_cluster s) + int (cs_stored s) + int (size (due s)) \<le> cl_kills (cs_cluster s)"
  shows "chaos_inv m s"
  using assms unfolding chaos_inv_def Let_def by (auto split: option.splits)

lemma victim_up:
  assumes "pickVictim rf intn c = Some (i, True)" and "\<forall>n > 0. intn n < n"
  shows "i \<in> up (cmds c) \<and> rf < int (card (up (cmds c)))"
proof -
  have v: "i = aliveIdx c ! intn (length (aliveIdx c))" "aliveIdx c \<noteq> []" "rf < int (length (aliveIdx c))"
    using assms(1) by (auto simp: pickVictim_def Let_def split: if_splits)
  then have "intn (length (aliveIdx c)) < length (aliveIdx c)" using assms(2) by simp
  then have "i \<in> set (aliveIdx c)" using v(1) by simp
  then show ?thesis using v(3) set_aliveIdx length_aliveIdx by simp
qed

lemma kill_cmds:
  assumes "i \<in> up (cmds c)"
  obtains p where "cmds c ! i = Some p" "kill i c = Some (c\<lparr>cl_nodes := (cl_nodes c)[i := (cl_nodes c ! i)\<lparr>nd_cmd := None\<rparr>],
      cl_kills := cl_kills c + 1\<rparr>, [KilledReaped p])"
  using assms that by (auto simp: up_def kill_def)

lemma killed_inv:
  assumes "chaos_inv m s" and "cs_victim s = Some i" and "kill i (cs_cluster s) = Some (c', calls)"
  shows "chaos_inv m (s\<lparr>cs_cluster := c', cs_victim := None, cs_live := procs calls (cs_live s),
    cs_waiting := (if restart then add_mset i (cs_waiting s) else cs_waiting s)\<rparr>)" (is "chaos_inv m ?s")
proof -
  let ?c = "cs_cluster s"
  note inv = chaos_invD [OF assms(1)]
  have i: "i \<in> up (cmds ?c)" "m < int (card (up (cmds ?c)))" using inv(6) [OF assms(2)] by simp_all
  obtain p where p: "cmds ?c ! i = Some p" and c': "c' = ?c\<lparr>cl_nodes := (cl_nodes ?c)[i := (cl_nodes ?c ! i)\<lparr>nd_cmd := None\<rparr>],
      cl_kills := cl_kills ?c + 1\<rparr>" and calls: "calls = [KilledReaped p]"
    using kill_cmds [OF i(1)] assms(3) by auto
  have cm: "cmds c' = (cmds ?c)[i := None]" by (simp add: c' map_update)
  have len: "i < length (cmds ?c)" using i(1) by (simp add: up_def)
  note h = handles_down [OF inv(1) len p]
  have nd: "i \<notin># due s" using inv(5) [of i] i(1) by blast
  have due: "due ?s = (if restart then add_mset i (due s) else due s)" by (simp add: due_def)
  have upc: "up (cmds c') = up (cmds ?c) - {i}" using up_upd(1) [OF len] cm by simp
  have nlen: "length (cl_nodes c') = length (cl_nodes ?c)" by (simp add: c')
  show ?thesis
  proof (rule chaos_invI)
    show "cs_live ?s \<subseteq> handles (cmds (cs_cluster ?s)) \<union> snd ` set_mset (cs_launched ?s)" using inv(2) h(1) by (auto simp: calls cm)
    show "q \<notin> handles (cmds (cs_cluster ?s))" if "(j, q) \<in># cs_launched ?s" for j q using inv(3) that h(1) by (simp add: cm)
    show "j = k" if "(j, q) \<in># cs_launched ?s" "(k, q) \<in># cs_launched ?s" for j k q using inv(4) that by simp
    show "j < length (cl_nodes (cs_cluster ?s)) \<and> j \<notin> up (cmds (cs_cluster ?s)) \<and> count (due ?s) j = 1" if "j \<in># due ?s" for j
    proof (cases "j = i")
      case True
      then have "restart" using that nd by (simp add: due split: if_splits)
      then have "count (due ?s) j = 1" unfolding due using True nd by (simp add: not_in_iff)
      then show ?thesis using True len upc nlen by simp
    next
      case False
      then have j: "j \<in># due s" using that by (simp add: due split: if_splits)
      then have "count (due ?s) j = 1" unfolding due using inv(5) [OF j] False by simp
      then show ?thesis using inv(5) [OF j] upc nlen by simp
    qed
    show "m \<le> int (card (up (cmds (cs_cluster ?s))))" using i upc by (simp add: card_Diff_singleton)
    show "cl_restarts (cs_cluster ?s) + int (cs_stored ?s) + int (size (due ?s)) \<le> cl_kills (cs_cluster ?s)"
      using inv(8) unfolding due by (simp add: c')
  qed (use h(2) cm in simp_all)
qed

lemma due_remove:
  assumes "chaos_inv m s" and "due t = due s - {#i#}" and "i \<in># due s" and "j \<in># due t"
  shows "j \<in># due s \<and> j \<noteq> i \<and> count (due t) j = 1"
proof -
  have one: "count (due s) i = 1" using chaos_invD(5) [OF assms(1,3)] by simp
  have "j \<in># due s" using assms(2,4) by (metis in_diffD)
  moreover have "j \<noteq> i" using assms(2,4) one by (metis count_diff count_single diff_self_eq_0 not_in_iff)
  ultimately show ?thesis using chaos_invD(5) [OF assms(1), of j] assms(2) by simp
qed

lemma ends_inv:
  assumes "chaos_inv m s" and "i \<in># cs_waiting s"
  shows "chaos_inv m (s\<lparr>cs_waiting := cs_waiting s - {#i#}\<rparr>)" (is "chaos_inv m ?s")
proof -
  note inv = chaos_invD [OF assms(1)]
  have mem: "i \<in># due s" using assms(2) by (simp add: due_def)
  have due: "due ?s = due s - {#i#}" using assms(2) by (simp add: due_def multiset_eq_iff)
  have "size (due ?s) \<le> size (due s)" unfolding due by (rule size_mset_mono) simp
  then show ?thesis
    using inv due_remove [OF assms(1) due mem] by (intro chaos_invI) fastforce+
qed

lemma launches_inv:
  assumes "chaos_inv m s" and "i \<in># cs_waiting s" and "p \<notin> in_use s"
  shows "chaos_inv m (s\<lparr>cs_live := insert p (cs_live s), cs_waiting := cs_waiting s - {#i#},
    cs_launched := add_mset (i, p) (cs_launched s)\<rparr>)" (is "chaos_inv m ?s")
proof -
  note inv = chaos_invD [OF assms(1)]
  have due: "due ?s = due s" using assms(2) by (auto simp: due_def multiset_eq_iff)
  have fresh: "p \<notin> handles (cmds (cs_cluster s))" "\<And>j. (j, p) \<notin># cs_launched s"
    using assms(3) by (force simp: in_use_def)+
  show ?thesis using inv fresh by (intro chaos_invI) (auto simp: due)
qed

lemma stores_inv:
  assumes "chaos_inv m s" and "(i, p) \<in># cs_launched s"
  shows "chaos_inv m (s\<lparr>cs_cluster := storeNode p i (cs_cluster s), cs_launched := cs_launched s - {#(i, p)#}, cs_stored := cs_stored s + 1\<rparr>)"
    (is "chaos_inv m ?s")
proof -
  let ?c = "cs_cluster s"
  note inv = chaos_invD [OF assms(1)]
  obtain L where L: "cs_launched s = add_mset (i, p) L" using assms(2) by (metis multi_member_split)
  have mem: "i \<in># due s" using assms(2) by (force simp: due_def)
  have due: "due ?s = due s - {#i#}" by (simp add: due_def L)
  note i = inv(5) [OF mem]
  have len: "i < length (cmds ?c)" "cmds ?c ! i = None" using i by (simp_all add: up_def)
  note st = storeNode_cmds [of i ?c p, OF conjunct1 [OF i]]
  note h = handles_up [OF inv(1) len inv(3) [OF assms(2)]]
  have upc: "up (cmds (storeNode p i ?c)) = insert i (up (cmds ?c))" using up_upd(2) [OF len(1), of p] st(1) by simp
  have le: "card (up (cmds ?c)) \<le> card (up (cmds (storeNode p i ?c)))" unfolding upc by (simp add: card_insert_le)
  have other: "q \<noteq> p" if "(j, q) \<in># L" for j q
  proof
    assume "q = p"
    then have "j = i" using inv(4) [of j p i] that L by simp
    then have "2 \<le> count (due s) i" using that \<open>q = p\<close> by (auto simp: due_def L dest: multi_member_split)
    then show False using i by simp
  qed
  have nlen: "length (cl_nodes (storeNode p i ?c)) = length (cl_nodes ?c)" using arg_cong [OF st(1), of length] by simp
  have sz: "int (size (due ?s)) = int (size (due s)) - 1" using mem unfolding due by (auto dest!: multi_member_split)
  show ?thesis
  proof (rule chaos_invI)
    show "cs_live ?s \<subseteq> handles (cmds (cs_cluster ?s)) \<union> snd ` set_mset (cs_launched ?s)" using inv(2) h(1) L by (auto simp: st(1))
    show "q \<notin> handles (cmds (cs_cluster ?s))" if "(j, q) \<in># cs_launched ?s" for j q
      using inv(3) [of j q] that h(1) other L by (simp add: st(1))
    show "j = k" if "(j, q) \<in># cs_launched ?s" "(k, q) \<in># cs_launched ?s" for j k q using inv(4) [of j q k] that L by simp
    show "j < length (cl_nodes (cs_cluster ?s)) \<and> j \<notin> up (cmds (cs_cluster ?s)) \<and> count (due ?s) j = 1" if "j \<in># due ?s" for j
    proof -
      have j: "j \<in># due s" "j \<noteq> i" "count (due ?s) j = 1" using due_remove [OF assms(1) due mem that] by simp_all
      then show ?thesis using inv(5) [OF j(1)] nlen upc by simp
    qed
    show "j \<in> up (cmds (cs_cluster ?s)) \<and> m < int (card (up (cmds (cs_cluster ?s))))" if "cs_victim ?s = Some j" for j
      using inv(6) [of j] that le upc by simp
    show "m \<le> int (card (up (cmds (cs_cluster ?s))))" using inv(7) le by simp
    show "cl_restarts (cs_cluster ?s) + int (cs_stored ?s) + int (size (due ?s)) \<le> cl_kills (cs_cluster ?s)"
      unfolding sz using inv(8) by (simp add: st)
  qed (use h(2) st(1) in simp)
qed

lemma counts_inv:
  assumes "chaos_inv m s" and "0 < cs_stored s"
  shows "chaos_inv m (s\<lparr>cs_cluster := countRestart (cs_cluster s), cs_stored := cs_stored s - 1\<rparr>)" (is "chaos_inv m ?s")
proof -
  have "due ?s = due s" by (simp add: due_def)
  then show ?thesis using assms by (simp add: chaos_inv_def countRestart_def Let_def cong: option.case_cong)
qed

lemma exits_inv: "chaos_inv m s \<Longrightarrow> chaos_inv m (s\<lparr>cs_live := cs_live s - {p}\<rparr>)"
  using chaos_invD [of m s] by (intro chaos_invI) (auto simp: due_def)

lemma pick_inv:
  assumes "chaos_inv m s" and "m \<le> rf" and "pickVictim rf intn (cs_cluster s) = Some (i, ok)" and "\<forall>n > 0. intn n < n"
  shows "chaos_inv m (s\<lparr>cs_victim := (if ok then Some i else None)\<rparr>)" (is "chaos_inv m ?s")
proof -
  have "due ?s = due s" by (simp add: due_def)
  moreover have "i \<in> up (cmds (cs_cluster s)) \<and> m < int (card (up (cmds (cs_cluster s))))" if ok
    using victim_up [of rf intn "cs_cluster s" i] assms(2-4) that by auto
  ultimately show ?thesis using chaos_invD [OF assms(1)] by (intro chaos_invI) (auto split: if_splits)
qed

lemma chaos_step_inv:
  assumes "chaos_step rf downTime s t" and "chaos_inv m s" and "m \<le> rf"
  shows "chaos_inv m t"
  using assms(1)
proof cases
  case (pick intn i ok)
  then show ?thesis using pick_inv [OF assms(2,3)] by simp
next
  case (killed i c' calls)
  then show ?thesis using killed_inv [OF assms(2), of i c' calls "0 < downTime"] by simp
next
  case (stores i p)
  then show ?thesis using stores_inv [OF assms(2)] by simp
next
  case counts
  then show ?thesis using counts_inv [OF assms(2)] by simp
qed (simp_all add: assms(2) ends_inv launches_inv exits_inv)

lemma chaos_reachable_inv:
  assumes "(chaos_step rf downTime)\<^sup>*\<^sup>* s t" and "chaos_inv m s" and "m \<le> rf"
  shows "chaos_inv m t"
  using assms(1) by (induction rule: rtranclp_induct) (use assms(2,3) chaos_step_inv in blast)+

section \<open>Launch and teardown\<close>

lemma launch_effect:
  assumes "launch (map Inr ps) (length (cl_nodes c)) c = (res, c', calls)"
  shows "res = None \<and> cmds c' = cmds c @ map Some ps \<and> procs calls R = R \<union> set ps \<and>
    cl_kills c' = cl_kills c \<and> cl_restarts c' = cl_restarts c"
  using assms
proof (induction ps arbitrary: c c' calls R res)
  case (Cons p ps)
  let ?n = "\<lparr>nd_id = nodeID (length (cl_nodes c)), nd_args = startArgs (length (cl_nodes c)) c, nd_cmd = Some p\<rparr>"
  let ?c = "c\<lparr>cl_nodes := cl_nodes c @ [?n]\<rparr>"
  have s: "start (Inr p) (length (cl_nodes c)) c = (None, ?c, [Spawned p (cl_serverBin c) (startArgs (length (cl_nodes c)) c)])"
    by (simp add: start_def storeNode_def Let_def)
  obtain res1 c1 calls1 where l: "launch (map Inr ps) (length (cl_nodes ?c)) ?c = (res1, c1, calls1)"
    by (cases "launch (map Inr ps) (length (cl_nodes ?c)) ?c")
  have "res = res1 \<and> c' = c1 \<and> calls = Spawned p (cl_serverBin c) (startArgs (length (cl_nodes c)) c) # calls1"
    using Cons.prems s l by simp
  then show ?case using Cons.IH [OF l, of "insert p R"] by simp
qed simp

text \<open>The state when the fault loop starts.\<close>

definition chaos_start :: "cluster \<Rightarrow> proc_call list \<Rightarrow> chaos_state" where
  "chaos_start c calls = \<lparr>cs_cluster = c, cs_victim = None, cs_live = procs calls {}, cs_waiting = {#}, cs_launched = {#}, cs_stored = 0\<rparr>"

lemma launch_inv:
  assumes "distinct ps" and "launch (map Inr ps) 0 (newCluster bin etcd rf ttl maxBytes port mport) = (res, c0, calls)"
    and "m \<le> int (length ps)"
  shows "chaos_inv m (chaos_start c0 calls)"
proof -
  have l: "cmds c0 = map Some ps" "procs calls {} = set ps" "cl_kills c0 = 0" "cl_restarts c0 = 0"
    using launch_effect [of ps "newCluster bin etcd rf ttl maxBytes port mport" res c0 calls "{}"] assms(2)
    by (simp_all add: newCluster_def)
  have "up (cmds c0) = {..<length ps}" by (auto simp: l(1) up_def)
  moreover have "handles (cmds c0) = set ps" by (auto simp: l(1) handles_def)
  moreover have "unshared (cmds c0)" using assms(1) by (auto simp: l(1) unshared_def nth_eq_iff_index_eq)
  ultimately show ?thesis using l assms(3) by (simp add: chaos_inv_def chaos_start_def due_def)
qed

lemma launch_ok: "launch spawns i c = (None, c', calls) \<Longrightarrow> \<exists>ps. spawns = map Inr ps"
proof (induction spawns arbitrary: i c c' calls)
  case (Cons spawn spawns)
  obtain p where p: "spawn = Inr p" using Cons.prems by (cases spawn) (auto simp: start_def)
  obtain c1 calls1 where "start spawn i c = (None, c1, calls1)" using p by (auto simp: start_def)
  then obtain c2 calls2 where "launch spawns (i + 1) c1 = (None, c2, calls2)" using Cons.prems by (auto split: prod.splits)
  from Cons.IH [OF this] obtain ps where "spawns = map Inr ps" by blast
  then have "spawn # spawns = map Inr (p # ps)" using p by simp
  then show ?case by (rule exI)
qed simp

lemma procs_reap: "procs (concat (map (\<lambda>x. case nd_cmd x of None \<Rightarrow> [] | Some p \<Rightarrow> [KilledReaped p]) ns)) R = R - handles (map nd_cmd ns)"
  by (induction ns arbitrary: R) (auto simp: handles_def split: option.splits)

lemma killAll_procs: "procs (snd (killAll c)) R = R - handles (cmds c)"
  by (simp add: killAll_def procs_reap)

text \<open>A teardown ends every process a node holds; what is left are processes timers have launched and not stored.\<close>

definition torn_down :: "chaos_state \<Rightarrow> chaos_state" where
  "torn_down s = (case killAll (cs_cluster s) of (c', calls) \<Rightarrow> s\<lparr>cs_cluster := c', cs_live := procs calls (cs_live s)\<rparr>)"

lemma killAll_cmds: "cmds (fst (killAll c)) = replicate (length (cl_nodes c)) None"
  by (rule nth_equalityI) (simp_all add: killAll_def)

lemma no_handles [simp]: "handles (replicate n None) = {}" "up (replicate n None) = {}" "unshared (replicate n None)"
  by (auto simp: handles_def up_def unshared_def)

lemma torn_down_simps:
  "cmds (cs_cluster (torn_down s)) = replicate (length (cl_nodes (cs_cluster s))) None"
  "cs_live (torn_down s) = cs_live s - handles (cmds (cs_cluster s))" "due (torn_down s) = due s"
  "cs_waiting (torn_down s) = cs_waiting s" "cs_launched (torn_down s) = cs_launched s" "cs_stored (torn_down s) = cs_stored s"
  "cs_victim (torn_down s) = cs_victim s" "counts (cs_cluster (torn_down s)) = counts (cs_cluster s)"
  using killAll_cmds [of "cs_cluster s"] killAll_procs [of "cs_cluster s" "cs_live s"]
  by (simp_all add: torn_down_def split_def due_def counts_def killAll_def)

lemma torn_down_inv:
  assumes "chaos_inv m s" and "m \<le> 0" and "cs_victim s = None"
  shows "chaos_inv m (torn_down s)" and "cs_live (torn_down s) \<subseteq> snd ` set_mset (cs_launched s)"
proof -
  note inv = chaos_invD [OF assms(1)] and td = torn_down_simps [of s]
  have len: "length (cl_nodes (cs_cluster (torn_down s))) = length (cl_nodes (cs_cluster s))" using arg_cong [OF td(1), of length] by simp
  show live: "cs_live (torn_down s) \<subseteq> snd ` set_mset (cs_launched s)" using inv(2) td(2) by auto
  show "chaos_inv m (torn_down s)"
    using inv live assms(2,3) td(8) by (intro chaos_invI) (auto simp: td(1,3-7) len counts_def)
qed

lemma tick_no_panic:
  assumes "0 \<le> rf" and "\<forall>n > 0. intn n < n"
  shows "faultTick rf downTime intn c \<noteq> None"
proof -
  have pv: "pickVictim rf intn c \<noteq> None" using assms(1) by (auto simp: pickVictim_def Let_def)
  moreover have "kill i c \<noteq> None" if "pickVictim rf intn c = Some (i, True)" for i
    using victim_up [OF that assms(2)] by (auto simp: up_def kill_def Let_def split: option.splits)
  ultimately show ?thesis by (auto simp: faultTick_def split: option.splits)
qed


section \<open>Undisturbed goroutines\<close>

text \<open>The functions that run a tick or a restart in one go are runs of the step relation.\<close>

lemma faultTick_steps:
  assumes "faultTick rf downTime intn (cs_cluster s) = Some (c', calls, r)" and "\<forall>n > 0. intn n < n" and "cs_victim s = None"
  shows "(chaos_step rf downTime)\<^sup>*\<^sup>* s (s\<lparr>cs_cluster := c', cs_live := procs calls (cs_live s),
    cs_waiting := (case r of None \<Rightarrow> cs_waiting s | Some i \<Rightarrow> add_mset i (cs_waiting s))\<rparr>)"
proof -
  from assms(1) obtain i ok where pv: "pickVictim rf intn (cs_cluster s) = Some (i, ok)" by (auto simp: faultTick_def split: option.splits)
  note p = chaos_step.pick [OF assms(3) pv assms(2), of downTime]
  show ?thesis
  proof (cases ok)
    case True
    then have k: "kill i (cs_cluster s) = Some (c', calls)" "r = (if 0 < downTime then Some i else None)"
      using assms(1) pv by (auto simp: faultTick_def split: option.splits)
    have "chaos_step rf downTime (s\<lparr>cs_victim := Some i\<rparr>) (s\<lparr>cs_cluster := c', cs_live := procs calls (cs_live s),
        cs_waiting := (case r of None \<Rightarrow> cs_waiting s | Some i \<Rightarrow> add_mset i (cs_waiting s))\<rparr>)"
      using chaos_step.killed [of "s\<lparr>cs_victim := Some i\<rparr>" i c' calls rf downTime] k assms(3) by (cases s) auto
    with p True show ?thesis by (simp add: converse_rtranclp_into_rtranclp)
  next
    case False
    then have "s\<lparr>cs_cluster := c', cs_live := procs calls (cs_live s),
        cs_waiting := (case r of None \<Rightarrow> cs_waiting s | Some i \<Rightarrow> add_mset i (cs_waiting s))\<rparr> = s"
      using assms(1) pv by (auto simp: faultTick_def)
    then show ?thesis by simp
  qed
qed

lemma restartAfter_steps:
  assumes "restartAfter cancelled spawn i (cs_cluster s) = (c', calls)" and "i \<in># cs_waiting s" and "\<And>p. spawn = Inr p \<Longrightarrow> p \<notin> in_use s"
  shows "(chaos_step rf downTime)\<^sup>*\<^sup>* s (s\<lparr>cs_cluster := c', cs_live := procs calls (cs_live s), cs_waiting := cs_waiting s - {#i#}\<rparr>)"
proof (cases "cancelled \<or> (\<exists>err. spawn = Inl err)")
  case True
  then have "s\<lparr>cs_cluster := c', cs_live := procs calls (cs_live s), cs_waiting := cs_waiting s - {#i#}\<rparr> = s\<lparr>cs_waiting := cs_waiting s - {#i#}\<rparr>"
    using assms(1) by (auto simp: restartAfter_def start_def split: if_splits)
  then show ?thesis using chaos_step.ends [OF assms(2)] by auto
next
  case False
  then obtain p where sp: "spawn = Inr p" "\<not> cancelled" by (cases spawn) auto
  let ?s1 = "s\<lparr>cs_live := insert p (cs_live s), cs_waiting := cs_waiting s - {#i#}, cs_launched := add_mset (i, p) (cs_launched s)\<rparr>"
  let ?s2 = "?s1\<lparr>cs_cluster := storeNode p i (cs_cluster ?s1), cs_launched := cs_launched ?s1 - {#(i, p)#}, cs_stored := cs_stored ?s1 + 1\<rparr>"
  let ?s3 = "?s2\<lparr>cs_cluster := countRestart (cs_cluster ?s2), cs_stored := cs_stored ?s2 - 1\<rparr>"
  have "chaos_step rf downTime s ?s1" by (rule chaos_step.launches [OF assms(2)]) (simp add: assms(3) sp)
  moreover have "chaos_step rf downTime ?s1 ?s2" by (rule chaos_step.stores) simp
  moreover have "chaos_step rf downTime ?s2 ?s3" by (rule chaos_step.counts) simp
  ultimately have run: "(chaos_step rf downTime)\<^sup>*\<^sup>* s ?s3" by (meson rtranclp.rtrancl_refl rtranclp.rtrancl_into_rtrancl)
  have "?s3 = s\<lparr>cs_cluster := c', cs_live := procs calls (cs_live s), cs_waiting := cs_waiting s - {#i#}\<rparr>"
    using assms(1) sp by (auto simp: restartAfter_def start_def)
  then show ?thesis using run by simp
qed

section \<open>A run of three nodes\<close>

definition ex_cluster :: cluster where
  "ex_cluster = newCluster ''server'' ''etcd'' 2 5 0 50051 9100"

definition ex_launched :: cluster where
  "ex_launched = fst (snd (launch (map Inr [10, 11, 12]) 0 ex_cluster))"

definition ex_calls :: "proc_call list" where
  "ex_calls = snd (snd (launch (map Inr [10, 11, 12]) 0 ex_cluster))"

definition ex_killed :: cluster where
  "ex_killed = fst (the (kill 0 ex_launched))"

text \<open>Node 0 has been killed and its timer has launched process 13, while the server of node 1 has ended by itself.\<close>

definition ex_chaos :: chaos_state where
  "ex_chaos = \<lparr>cs_cluster = ex_killed, cs_victim = None, cs_live = {12, 13}, cs_waiting = {#}, cs_launched = {#(0, 13)#}, cs_stored = 0\<rparr>"

lemma ex_launch: "launch (map Inr [10, 11, 12]) 0 ex_cluster = (None, ex_launched, ex_calls)"
  by (simp add: start_def storeNode_def Let_def ex_cluster_def newCluster_def ex_launched_def ex_calls_def)

lemma ex_live: "procs ex_calls {} = {10, 11, 12}"
  by (auto simp: ex_calls_def start_def storeNode_def Let_def ex_cluster_def newCluster_def)

lemma ex_cmds: "cmds ex_launched = [Some 10, Some 11, Some 12]" "cmds ex_killed = [None, Some 11, Some 12]"
  by (simp_all add: ex_killed_def kill_def ex_launched_def start_def storeNode_def Let_def ex_cluster_def newCluster_def)

lemma ex_run: "(chaos_step 2 8)\<^sup>*\<^sup>* (chaos_start ex_launched ex_calls) ex_chaos"
proof -
  let ?s0 = "chaos_start ex_launched ex_calls"
  let ?s1 = "\<lparr>cs_cluster = ex_killed, cs_victim = None, cs_live = {11, 12}, cs_waiting = {#0#}, cs_launched = {#}, cs_stored = 0\<rparr>"
  let ?s2 = "\<lparr>cs_cluster = ex_killed, cs_victim = None, cs_live = {11, 12, 13}, cs_waiting = {#}, cs_launched = {#(0, 13)#}, cs_stored = 0\<rparr>"
  have "faultTick 2 8 (\<lambda>_. 0) ex_launched = Some (ex_killed, [KilledReaped 10], Some 0)"
    by (simp add: faultTick_def pickVictim_def aliveIdx_def kill_def ex_killed_def ex_launched_def start_def storeNode_def Let_def ex_cluster_def
        newCluster_def upt_rec)
  from faultTick_steps [of 2 8 "\<lambda>_. 0" ?s0, OF _ _ , of ex_killed "[KilledReaped 10]" "Some 0"] this
  have "(chaos_step 2 8)\<^sup>*\<^sup>* ?s0 (?s0\<lparr>cs_cluster := ex_killed, cs_live := procs [KilledReaped 10] {10, 11, 12}, cs_waiting := {#0#}\<rparr>)"
    by (simp add: chaos_start_def ex_live)
  moreover have "?s0\<lparr>cs_cluster := ex_killed, cs_live := procs [KilledReaped 10] {10, 11, 12}, cs_waiting := {#0#}\<rparr> = ?s1"
    by (simp add: chaos_start_def)
  ultimately have "(chaos_step 2 8)\<^sup>*\<^sup>* ?s0 ?s1" by simp
  moreover have "13 \<notin> in_use ?s1" by (simp add: in_use_def ex_cmds handles_def)
  then have "chaos_step 2 8 ?s1 ?s2" using chaos_step.launches [of 0 ?s1 13 2 8] by (simp add: insert_commute)
  moreover have "chaos_step 2 8 ?s2 ex_chaos"
    using chaos_step.exits [of 2 8 ?s2 11] by (simp add: ex_chaos_def insert_Diff_if)
  ultimately show ?thesis by (meson rtranclp.rtrancl_into_rtrancl)
qed


text \<open>
  The guard of the fault loop counts handles, not live servers: a server that has ended by itself is still counted as
  up, so a kill can leave fewer than \<^verbatim>\<open>rf\<close> servers running. In the run above two nodes have a handle and one of their
  servers is left.
\<close>

lemma exited_server_counts_as_up: "length (aliveIdx (cs_cluster ex_chaos)) = 2 \<and> cs_live ex_chaos \<inter> handles (cmds (cs_cluster ex_chaos)) = {12}"
proof -
  have "up [None, Some 11, Some 12] = {1, 2}" by (auto simp: up_def less_Suc_eq numeral_3_eq_3 nth_Cons' numeral_2_eq_2)
  then show ?thesis by (auto simp: length_aliveIdx ex_chaos_def ex_cmds(2) handles_def)
qed

text \<open>
  The teardown has a gap: a process that a restart timer launches around \<open>killAll\<close> and stores after it is ended by
  nothing. Nothing waits for the timers, and the context they watch is cancelled only after the last \<open>killAll\<close>.
\<close>

lemma late_restart_leaks:
  assumes "restartAfter False (Inr p) i (fst (killAll c)) = (c', calls)" and "i < length (cl_nodes c)"
  shows "procs calls (procs (snd (killAll c)) (handles (cmds c))) = {p}"
  using assms by (auto simp: restartAfter_def start_def killAll_procs)

end
