(* ===== verification/Go_Float64.thy ===== *)
theory Go_Float64
  imports KV_Prelude Complex_Main "HOL-Library.Log_Nat"
begin

text \<open>
  Go's \<^verbatim>\<open>float64\<close>: IEEE 754 binary64 with round-to-nearest-even, overflow to infinity, gradual
  underflow and NaN. A finite value is the rational it denotes; the sign of zero is not kept, which no
  comparison sees, and the program divides by no zero. Arithmetic rounds the exact result
  (\<open>rnd\<close>). Comparisons with NaN are false, so the order is only an order away from NaN.
  Shown here: rounding is monotone and idempotent, so \<open>x \<le> x + y\<close> for a non-negative \<open>y\<close> and
  division by a positive number is monotone, which the eviction policies rely on.
\<close>

section \<open>Rounding\<close>

definition pow2 :: "int \<Rightarrow> rat" where
  "pow2 e = 2 powi e"

text \<open>The exponent of the binade of a positive rational.\<close>

definition ilog2 :: "rat \<Rightarrow> int" where
  "ilog2 x = (let (n, d) = quotient_of x; e = bitlen n - bitlen d in if pow2 e \<le> x then e else e - 1)"

text \<open>Round half to even.\<close>

definition rne :: "rat \<Rightarrow> int" where
  "rne x = (let f = \<lfloor>x\<rfloor>; r = x - of_int f in if r < 1 / 2 \<or> (r = 1 / 2 \<and> even f) then f else f + 1)"

text \<open>The spacing of binary64 numbers around \<open>x\<close>: 53 significant bits, and never finer than \<open>2 ^ -1074\<close>.\<close>

definition ulp64 :: "rat \<Rightarrow> rat" where
  "ulp64 x = pow2 (max (ilog2 \<bar>x\<bar> - 52) (- 1074))"

definition rnd_rat :: "rat \<Rightarrow> rat" where
  "rnd_rat x = (if x = 0 then 0 else of_int (rne (x / ulp64 x)) * ulp64 x)"

datatype f64 = NaN | PInf | NInf | Fin rat

definition rnd :: "rat \<Rightarrow> f64" where
  "rnd x = (let y = rnd_rat x in if 2 ^ 1024 \<le> y then PInf else if y \<le> - (2 ^ 1024) then NInf else Fin y)"

section \<open>Arithmetic and comparison\<close>

definition inf_signed :: "bool \<Rightarrow> f64" where
  "inf_signed pos = (if pos then PInf else NInf)"

fun f64_neg :: "f64 \<Rightarrow> f64" where
  "f64_neg NaN = NaN"
| "f64_neg PInf = NInf"
| "f64_neg NInf = PInf"
| "f64_neg (Fin x) = Fin (- x)"

fun f64_add :: "f64 \<Rightarrow> f64 \<Rightarrow> f64" where
  "f64_add (Fin x) (Fin y) = rnd (x + y)"
| "f64_add NaN b = NaN"
| "f64_add a NaN = NaN"
| "f64_add PInf NInf = NaN"
| "f64_add NInf PInf = NaN"
| "f64_add PInf b = PInf"
| "f64_add a PInf = PInf"
| "f64_add NInf b = NInf"
| "f64_add a NInf = NInf"

fun f64_mul :: "f64 \<Rightarrow> f64 \<Rightarrow> f64" where
  "f64_mul (Fin x) (Fin y) = rnd (x * y)"
| "f64_mul NaN b = NaN"
| "f64_mul a NaN = NaN"
| "f64_mul PInf (Fin y) = (if y = 0 then NaN else inf_signed (0 < y))"
| "f64_mul NInf (Fin y) = (if y = 0 then NaN else inf_signed (y < 0))"
| "f64_mul (Fin x) PInf = (if x = 0 then NaN else inf_signed (0 < x))"
| "f64_mul (Fin x) NInf = (if x = 0 then NaN else inf_signed (x < 0))"
| "f64_mul PInf PInf = PInf"
| "f64_mul NInf NInf = PInf"
| "f64_mul PInf NInf = NInf"
| "f64_mul NInf PInf = NInf"

fun f64_div :: "f64 \<Rightarrow> f64 \<Rightarrow> f64" where
  "f64_div (Fin x) (Fin y) =
     (if y = 0 then (if x = 0 then NaN else inf_signed (0 < x)) else rnd (x / y))"
| "f64_div NaN b = NaN"
| "f64_div a NaN = NaN"
| "f64_div PInf (Fin y) = inf_signed (0 \<le> y)"
| "f64_div NInf (Fin y) = inf_signed (y < 0)"
| "f64_div (Fin x) b = Fin 0"
| "f64_div a b = NaN"

fun f64_less :: "f64 \<Rightarrow> f64 \<Rightarrow> bool" where
  "f64_less (Fin x) (Fin y) = (x < y)"
| "f64_less NaN b = False"
| "f64_less a NaN = False"
| "f64_less NInf b = (b \<noteq> NInf)"
| "f64_less a PInf = (a \<noteq> PInf)"
| "f64_less a b = False"

instantiation f64 :: "{plus, minus, times, inverse, zero, one, ord}"
begin

definition plus_f64 :: "f64 \<Rightarrow> f64 \<Rightarrow> f64" where
  "plus_f64 = f64_add"

definition minus_f64 :: "f64 \<Rightarrow> f64 \<Rightarrow> f64" where
  "minus_f64 a b = f64_add a (f64_neg b)"

definition times_f64 :: "f64 \<Rightarrow> f64 \<Rightarrow> f64" where
  "times_f64 = f64_mul"

definition divide_f64 :: "f64 \<Rightarrow> f64 \<Rightarrow> f64" where
  "divide_f64 = f64_div"

definition inverse_f64 :: "f64 \<Rightarrow> f64" where
  "inverse_f64 a = f64_div (Fin 1) a"

definition zero_f64 :: f64 where
  "zero_f64 = Fin 0"

definition one_f64 :: f64 where
  "one_f64 = Fin 1"

definition less_f64 :: "f64 \<Rightarrow> f64 \<Rightarrow> bool" where
  "less_f64 = f64_less"

definition less_eq_f64 :: "f64 \<Rightarrow> f64 \<Rightarrow> bool" where
  "less_eq_f64 a b \<longleftrightarrow> f64_less a b \<or> (a = b \<and> a \<noteq> NaN)"

instance ..

end

text \<open>Conversions: \<^verbatim>\<open>float64(i)\<close>, and \<^verbatim>\<open>int64(f)\<close> truncating towards zero. Go leaves an out-of-range
  conversion to the implementation; this is the amd64 result.\<close>

definition f64_of_int :: "int \<Rightarrow> f64" where
  "f64_of_int i = rnd (of_int i)"

definition trunc_rat :: "rat \<Rightarrow> int" where
  "trunc_rat x = (if 0 \<le> x then \<lfloor>x\<rfloor> else \<lceil>x\<rceil>)"

definition int64_of_f64 :: "f64 \<Rightarrow> int64" where
  "int64_of_f64 a =
     (case a of
        Fin x \<Rightarrow> if - (2 ^ 63) \<le> trunc_rat x \<and> trunc_rat x < 2 ^ 63 then word_of_int (trunc_rat x) else 2 ^ 63
      | _ \<Rightarrow> 2 ^ 63)"

lemmas f64_ops = plus_f64_def minus_f64_def times_f64_def divide_f64_def less_f64_def less_eq_f64_def
  zero_f64_def one_f64_def

section \<open>Powers of two and the binade\<close>

lemma pow2_pos [simp]: "0 < pow2 e"
  by (simp add: pow2_def)

lemma pow2_nonneg [simp]: "0 \<le> pow2 e"
  by (simp add: less_imp_le)

lemma pow2_nonzero [simp]: "pow2 e \<noteq> 0"
  using pow2_pos [of e] by linarith

lemma pow2_add: "pow2 (a + b) = pow2 a * pow2 b"
  by (simp add: pow2_def power_int_add)

lemma pow2_diff: "pow2 (a - b) = pow2 a / pow2 b"
  by (simp add: pow2_def power_int_diff)

lemma pow2_nat: "0 \<le> e \<Longrightarrow> pow2 e = of_int (2 ^ nat e)"
  by (simp add: pow2_def power_int_def)

lemma pow2_mono: "a \<le> b \<Longrightarrow> pow2 a \<le> pow2 b"
  by (simp add: pow2_def power_int_increasing)

lemma pow2_less_iff: "pow2 a < pow2 b \<longleftrightarrow> a < b"
  using pow2_mono [of b a] power_int_strict_increasing [of a b "2 :: rat"]
  by (fastforce simp: pow2_def not_le)

lemma pow2_bitlen:
  assumes "0 < n"
  shows "pow2 (bitlen n - 1) \<le> of_int n" and "of_int n < pow2 (bitlen n)"
proof -
  have b: "2 ^ nat (bitlen n - 1) \<le> n" "n < 2 ^ nat (bitlen n)"
    using bitlen_bounds [OF assms] by auto
  have p: "0 < bitlen n"
    using b(2) assms by (cases "bitlen n = 0") (auto simp: bitlen_nonneg order.strict_iff_order)
  from p have "pow2 (bitlen n - 1) = of_int (2 ^ nat (bitlen n - 1))" "pow2 (bitlen n) = of_int (2 ^ nat (bitlen n))"
    by (simp_all add: pow2_nat)
  then show "pow2 (bitlen n - 1) \<le> of_int n" "of_int n < pow2 (bitlen n)"
    using b by (simp_all only: of_int_le_iff of_int_less_iff)
qed

lemma ilog2_bounds:
  assumes "0 < x"
  shows "pow2 (ilog2 x) \<le> x" and "x < pow2 (ilog2 x + 1)"
proof -
  obtain n d where q: "quotient_of x = (n, d)" by fastforce
  have d: "0 < d" using quotient_of_denom_pos [OF q] .
  have x: "x = of_int n / of_int d" using quotient_of_div [OF q] .
  with assms d have n: "0 < n" by (simp add: zero_less_divide_iff)
  let ?e = "bitlen n - bitlen d"
  have "of_int n < pow2 (?e + 1) * pow2 (bitlen d - 1)" "pow2 (?e - 1) * pow2 (bitlen d) \<le> of_int n"
    using pow2_bitlen [OF n] by (simp_all flip: pow2_add)
  moreover have "pow2 (?e + 1) * pow2 (bitlen d - 1) \<le> pow2 (?e + 1) * of_int d"
      "pow2 (?e - 1) * of_int d \<le> pow2 (?e - 1) * pow2 (bitlen d)"
    using pow2_bitlen [OF d] by (simp_all add: less_imp_le)
  ultimately have "of_int n < pow2 (?e + 1) * of_int d" "pow2 (?e - 1) * of_int d \<le> of_int n"
    by linarith+
  then have "x < pow2 (?e + 1)" "pow2 (?e - 1) \<le> x"
    using d by (simp_all add: x field_simps)
  then show "pow2 (ilog2 x) \<le> x" "x < pow2 (ilog2 x + 1)"
    by (auto simp: ilog2_def q Let_def not_le)
qed

lemma ilog2_ge: "pow2 e \<le> x \<Longrightarrow> e \<le> ilog2 x"
  using ilog2_bounds(2) [of x] pow2_pos [of e] pow2_less_iff [of e "ilog2 x + 1"] by fastforce

lemma ilog2_less: "0 < x \<Longrightarrow> x < pow2 e \<Longrightarrow> ilog2 x < e"
  using ilog2_bounds(1) [of x] pow2_less_iff [of "ilog2 x" e] by fastforce

lemma ilog2_mono: "0 < x \<Longrightarrow> x \<le> y \<Longrightarrow> ilog2 x \<le> ilog2 y"
  using ilog2_bounds(1) [of x] ilog2_ge [of "ilog2 x" y] by linarith

section \<open>Rounding is monotone and idempotent\<close>

lemma rne_of_int [simp]: "rne (of_int k) = k"
  by (simp add: rne_def)

lemma rne_bounds: "\<lfloor>x\<rfloor> \<le> rne x" "rne x \<le> \<lfloor>x\<rfloor> + 1"
  by (auto simp: rne_def Let_def)

lemma rne_mono: "x \<le> y \<Longrightarrow> rne x \<le> rne y"
proof -
  assume le: "x \<le> y"
  show ?thesis
  proof (cases "\<lfloor>x\<rfloor> = \<lfloor>y\<rfloor>")
    case True
    with le show ?thesis by (auto simp: rne_def Let_def)
  next
    case False
    with floor_mono [OF le] have "\<lfloor>x\<rfloor> + 1 \<le> \<lfloor>y\<rfloor>" by linarith
    with rne_bounds(2) [of x] rne_bounds(1) [of y] show ?thesis by linarith
  qed
qed

lemma rne_le_int: "x \<le> of_int k \<Longrightarrow> rne x \<le> k"
  using rne_mono [of x "of_int k"] by simp

lemma rne_ge_int: "of_int k \<le> x \<Longrightarrow> k \<le> rne x"
  using rne_mono [of "of_int k" x] by simp

lemma rne_minus: "rne (- x) = - rne x"
proof (cases "x = of_int \<lfloor>x\<rfloor>")
  case True
  then show ?thesis by (metis of_int_minus rne_of_int)
next
  case False
  let ?f = "\<lfloor>x\<rfloor>"
  have f: "of_int ?f < x" "x < of_int ?f + 1"
    using False of_int_floor_le [of x] floor_correct [of x] by linarith+
  have m: "\<lfloor>- x\<rfloor> = - ?f - 1"
    using f by (intro floor_unique) simp_all
  show ?thesis
    unfolding rne_def Let_def m using f by (auto simp: algebra_simps)
qed

lemma ulp64_minus [simp]: "ulp64 (- x) = ulp64 x"
  by (simp add: ulp64_def)

lemma ulp64_pos [simp]: "0 < ulp64 x"
  by (simp add: ulp64_def)

lemma rnd_rat_minus: "rnd_rat (- x) = - rnd_rat x"
  by (simp add: rnd_rat_def rne_minus)

lemma rnd_rat_0 [simp]: "rnd_rat 0 = 0"
  by (simp add: rnd_rat_def)

lemma rnd_rat_le_pow2:
  assumes "0 < x" and "x \<le> pow2 e" and "max (ilog2 x - 52) (- 1074) \<le> e"
  shows "rnd_rat x \<le> pow2 e"
proof -
  let ?a = "max (ilog2 x - 52) (- 1074)"
  have u: "ulp64 x = pow2 ?a" using assms(1) by (simp add: ulp64_def)
  have k: "pow2 (e - ?a) = of_int (2 ^ nat (e - ?a))" using assms(3) by (simp add: pow2_nat)
  have "x / ulp64 x \<le> pow2 (e - ?a)"
    using assms(2) by (simp add: u pow2_diff divide_right_mono)
  then have "rne (x / ulp64 x) \<le> 2 ^ nat (e - ?a)"
    unfolding k by (rule rne_le_int)
  then have "of_int (rne (x / ulp64 x)) \<le> pow2 (e - ?a)"
    unfolding k by (simp only: of_int_le_iff)
  then have "of_int (rne (x / ulp64 x)) * ulp64 x \<le> pow2 (e - ?a) * pow2 ?a"
    using u by (simp add: mult_right_mono less_imp_le)
  then show ?thesis
    using assms(1) by (simp add: rnd_rat_def flip: pow2_add)
qed

lemma rnd_rat_ge_pow2:
  assumes "0 < x" and "pow2 e \<le> x" and "max (ilog2 x - 52) (- 1074) \<le> e"
  shows "pow2 e \<le> rnd_rat x"
proof -
  let ?a = "max (ilog2 x - 52) (- 1074)"
  have u: "ulp64 x = pow2 ?a" using assms(1) by (simp add: ulp64_def)
  have k: "pow2 (e - ?a) = of_int (2 ^ nat (e - ?a))" using assms(3) by (simp add: pow2_nat)
  have "pow2 (e - ?a) \<le> x / ulp64 x"
    using assms(2) by (simp add: u pow2_diff divide_right_mono)
  then have "2 ^ nat (e - ?a) \<le> rne (x / ulp64 x)"
    unfolding k by (rule rne_ge_int)
  then have "pow2 (e - ?a) \<le> of_int (rne (x / ulp64 x))"
    unfolding k by (simp only: of_int_le_iff)
  then have "pow2 (e - ?a) * pow2 ?a \<le> of_int (rne (x / ulp64 x)) * ulp64 x"
    using u by (simp add: mult_right_mono less_imp_le)
  then show ?thesis
    using assms(1) by (simp add: rnd_rat_def flip: pow2_add)
qed

lemma rnd_rat_nonneg: "0 \<le> x \<Longrightarrow> 0 \<le> rnd_rat x"
  using rne_ge_int [of 0 "x / ulp64 x"] by (auto simp: rnd_rat_def less_imp_le)

lemma rnd_rat_mono_pos:
  assumes "0 < x" and "x \<le> y"
  shows "rnd_rat x \<le> rnd_rat y"
proof -
  let ?e = "ilog2 x" and ?f = "ilog2 y"
  have y: "0 < y" using assms by linarith
  have ef: "?e \<le> ?f" using assms by (rule ilog2_mono)
  show ?thesis
  proof (cases "max (?e - 52) (- 1074) = max (?f - 52) (- 1074)")
    case True
    then have "ulp64 x = ulp64 y" using assms y by (simp add: ulp64_def)
    moreover have "rne (x / ulp64 y) \<le> rne (y / ulp64 y)"
      using assms(2) by (intro rne_mono divide_right_mono) (simp_all add: less_imp_le)
    ultimately show ?thesis
      using assms y by (simp add: rnd_rat_def mult_right_mono less_imp_le)
  next
    case False
    with ef have lt: "?e < ?f" and nf: "- 1074 \<le> ?f - 52" by linarith+
    have "x \<le> pow2 ?f"
      using ilog2_bounds(2) [OF assms(1)] pow2_mono [of "?e + 1" ?f] lt by linarith
    then have "rnd_rat x \<le> pow2 ?f"
      using assms(1) lt nf by (intro rnd_rat_le_pow2) auto
    also have "pow2 ?f \<le> rnd_rat y"
      using y ilog2_bounds(1) [OF y] nf by (intro rnd_rat_ge_pow2) auto
    finally show ?thesis .
  qed
qed

lemma rnd_rat_mono: "x \<le> y \<Longrightarrow> rnd_rat x \<le> rnd_rat y"
proof -
  assume le: "x \<le> y"
  consider "0 < x" | "x \<le> 0" "0 \<le> y" | "y < 0" by linarith
  then show ?thesis
  proof cases
    case 1
    then show ?thesis using le by (rule rnd_rat_mono_pos)
  next
    case 2
    then have "0 \<le> rnd_rat (- x)" "0 \<le> rnd_rat y" by (simp_all add: rnd_rat_nonneg)
    then show ?thesis by (simp add: rnd_rat_minus)
  next
    case 3
    then have "rnd_rat (- y) \<le> rnd_rat (- x)" using le by (intro rnd_rat_mono_pos) simp_all
    then show ?thesis by (simp add: rnd_rat_minus)
  qed
qed

lemma rnd_rat_exact:
  assumes "y = of_int k * pow2 a" and "max (ilog2 \<bar>y\<bar> - 52) (- 1074) \<le> a"
  shows "rnd_rat y = y"
proof (cases "y = 0")
  case False
  let ?b = "max (ilog2 \<bar>y\<bar> - 52) (- 1074)"
  have u: "ulp64 y = pow2 ?b" by (simp add: ulp64_def)
  have "pow2 a / pow2 ?b = of_int (2 ^ nat (a - ?b))"
    using assms(2) by (simp add: pow2_nat flip: pow2_diff)
  moreover have "y / ulp64 y = of_int k * (pow2 a / pow2 ?b)"
    unfolding u by (subst (1) assms(1)) (rule times_divide_eq_right [symmetric])
  ultimately have "y / ulp64 y = of_int (k * 2 ^ nat (a - ?b))"
    by (simp only: of_int_mult)
  then have "of_int (rne (y / ulp64 y)) = y / ulp64 y"
    by (simp only: rne_of_int)
  moreover have "rnd_rat y = of_int (rne (y / ulp64 y)) * ulp64 y"
    using False by (simp add: rnd_rat_def)
  moreover have "y / ulp64 y * ulp64 y = y" by (simp add: u)
  ultimately show ?thesis by (simp only:)
qed simp

lemma rne_small: "0 \<le> z \<Longrightarrow> z < 1 / 2 \<Longrightarrow> rne z = 0"
proof -
  assume z: "0 \<le> z" "z < 1 / 2"
  then have "\<lfloor>z\<rfloor> = 0" by (intro floor_unique) simp_all
  with z(2) show ?thesis by (simp add: rne_def)
qed

lemma rnd_rat_idem_pos:
  assumes "0 < x"
  shows "rnd_rat (rnd_rat x) = rnd_rat x"
proof (cases "rnd_rat x = 0")
  case False
  let ?e = "ilog2 x" and ?y = "rnd_rat x"
  let ?a = "max (?e - 52) (- 1074)"
  have y: "?y = of_int (rne (x / ulp64 x)) * pow2 ?a"
    using assms by (simp add: rnd_rat_def ulp64_def)
  have ypos: "0 < ?y" using False rnd_rat_nonneg [of x] assms by linarith
  have "- 1075 \<le> ?e"
  proof (rule ccontr)
    assume "\<not> - 1075 \<le> ?e"
    then have e: "?e + 1 \<le> - 1075" and u: "ulp64 x = pow2 (- 1074)"
      using assms by (simp_all add: ulp64_def)
    have "x < pow2 (- 1075)"
      using ilog2_bounds(2) [OF assms] pow2_mono [OF e] by linarith
    then have "x / ulp64 x < pow2 (- 1075) / pow2 (- 1074)"
      unfolding u by (rule divide_strict_right_mono) simp
    also have "\<dots> = 1 / 2" by (simp add: pow2_def power_int_minus flip: pow2_diff)
    finally have "x / ulp64 x < 1 / 2" .
    moreover have "0 \<le> x / ulp64 x" using assms by (simp add: less_imp_le)
    ultimately have "rne (x / ulp64 x) = 0" by (intro rne_small)
    with y False show False by simp
  qed
  then have "?y \<le> pow2 (?e + 1)"
    using assms ilog2_bounds(2) [OF assms] by (intro rnd_rat_le_pow2) auto
  show ?thesis
  proof (cases "?y = pow2 (?e + 1)")
    case True
    then have "ilog2 \<bar>?y\<bar> = ?e + 1"
      using ilog2_bounds [of ?y] ypos ilog2_ge [of "?e + 1" ?y] ilog2_less [of ?y "?e + 2"]
      by (simp add: pow2_less_iff)
    with \<open>- 1075 \<le> ?e\<close> show ?thesis
      by (intro rnd_rat_exact [of _ 1 "?e + 1"]) (auto simp: True)
  next
    case False
    with \<open>?y \<le> pow2 (?e + 1)\<close> have "ilog2 ?y < ?e + 1"
      using ypos by (intro ilog2_less) auto
    then show ?thesis
      using ypos by (intro rnd_rat_exact [OF y]) auto
  qed
qed simp

lemma rnd_rat_idem [simp]: "rnd_rat (rnd_rat x) = rnd_rat x"
proof (cases "x < 0")
  case True
  then have "rnd_rat (rnd_rat (- x)) = rnd_rat (- x)" by (intro rnd_rat_idem_pos) simp
  then show ?thesis by (simp add: rnd_rat_minus)
next
  case False
  then show ?thesis by (cases "x = 0") (simp_all add: rnd_rat_idem_pos)
qed

section \<open>Values of the type, and the order away from NaN\<close>

text \<open>\<open>is_f64\<close>: the rational of a finite value is a binary64 number. Every operation yields such values.\<close>

definition is_f64 :: "f64 \<Rightarrow> bool" where
  "is_f64 a \<longleftrightarrow> (\<forall>x. a = Fin x \<longrightarrow> rnd x = Fin x)"

lemma is_f64_simps [simp]: "is_f64 NaN" "is_f64 PInf" "is_f64 NInf"
  by (simp_all add: is_f64_def)

lemma rnd_not_NaN [simp]: "rnd x \<noteq> NaN"
  by (simp add: rnd_def Let_def)

lemma is_f64_rnd [simp, intro]: "is_f64 (rnd x)"
  by (auto simp: is_f64_def rnd_def Let_def split: if_splits)

text \<open>
  An order-preserving image of the values other than NaN in a linear order: the pair of an infinity
  indicator and the rational, compared lexicographically.
\<close>

lemma f64_less_iff:
  "a < b \<longleftrightarrow> a \<noteq> NaN \<and> b \<noteq> NaN \<and>
     (case (a, b) of (Fin x, Fin y) \<Rightarrow> x < y | (NInf, _) \<Rightarrow> b \<noteq> NInf | (_, PInf) \<Rightarrow> a \<noteq> PInf | _ \<Rightarrow> False)"
  by (cases a; cases b) (simp_all add: f64_ops)

lemma f64_le_iff:
  "a \<le> b \<longleftrightarrow> a \<noteq> NaN \<and> b \<noteq> NaN \<and>
     (case (a, b) of (Fin x, Fin y) \<Rightarrow> x \<le> y | (NInf, _) \<Rightarrow> True | (_, PInf) \<Rightarrow> True | _ \<Rightarrow> False)"
  by (cases a; cases b) (auto simp: f64_ops)

lemma f64_not_less: "a \<noteq> NaN \<Longrightarrow> b \<noteq> NaN \<Longrightarrow> \<not> a < b \<longleftrightarrow> b \<le> (a :: f64)"
  by (cases a; cases b) (auto simp: f64_less_iff f64_le_iff)

lemma f64_le_refl: "a \<noteq> NaN \<Longrightarrow> a \<le> (a :: f64)"
  by (cases a) (auto simp: f64_le_iff)

lemma f64_le_trans [trans]: "a \<le> b \<Longrightarrow> b \<le> c \<Longrightarrow> a \<le> (c :: f64)"
  by (cases a; cases b; cases c) (auto simp: f64_le_iff)

lemma f64_less_imp_le: "a < b \<Longrightarrow> a \<le> (b :: f64)"
  by (cases a; cases b) (auto simp: f64_le_iff f64_less_iff)

lemma f64_le_NaN: "a \<le> b \<Longrightarrow> a \<noteq> NaN \<and> b \<noteq> (NaN :: f64)"
  by (simp add: f64_le_iff)

lemma rnd_mono: "x \<le> y \<Longrightarrow> rnd x \<le> rnd y"
  using rnd_rat_mono [of x y] by (auto simp: rnd_def Let_def f64_le_iff)

lemma rnd_0 [simp]: "rnd 0 = Fin 0"
  by (simp add: rnd_def)

lemma f64_nonneg_simps [simp]: "0 \<le> Fin x \<longleftrightarrow> 0 \<le> x" "0 \<le> PInf" "\<not> 0 \<le> NInf" "\<not> 0 \<le> NaN"
  by (simp_all add: zero_f64_def f64_le_iff)

lemma rnd_nonneg: "0 \<le> x \<Longrightarrow> 0 \<le> rnd x"
  using rnd_mono [of 0 x] by (simp add: zero_f64_def)

text \<open>Adding a non-negative value never goes below the other summand.\<close>

lemma f64_nonneg_cases:
  assumes "0 \<le> (a :: f64)"
  obtains x where "a = Fin x" "0 \<le> x" | "a = PInf"
  using assms by (cases a) auto

lemma f64_add_nonneg_ge:
  assumes "0 \<le> a" and "0 \<le> b" and "is_f64 a"
  shows "a \<le> a + b"
  using assms(1)
proof (cases rule: f64_nonneg_cases)
  case (1 x)
  note a = this
  from assms(2) show ?thesis
  proof (cases rule: f64_nonneg_cases)
    case (1 y)
    then have "rnd x \<le> rnd (x + y)" by (intro rnd_mono) simp
    then show ?thesis using a 1 assms(3) by (simp add: plus_f64_def is_f64_def)
  qed (use a in \<open>simp add: plus_f64_def f64_le_iff\<close>)
next
  case 2
  from assms(2) show ?thesis
    by (cases rule: f64_nonneg_cases) (simp_all add: 2 plus_f64_def f64_le_iff)
qed

lemma f64_add_nonneg: "0 \<le> a \<Longrightarrow> 0 \<le> b \<Longrightarrow> 0 \<le> a + (b :: f64)"
  by (elim f64_nonneg_cases) (auto simp: plus_f64_def rnd_nonneg)

lemma f64_mul_nonneg:
  assumes "0 \<le> Fin x" and "0 \<le> Fin y"
  shows "0 \<le> Fin x * Fin y"
  using assms by (simp add: times_f64_def rnd_nonneg)

lemma f64_div_nonneg: "0 \<le> a \<Longrightarrow> 0 < y \<Longrightarrow> 0 \<le> a / Fin y"
  by (elim f64_nonneg_cases) (auto simp: divide_f64_def rnd_nonneg inf_signed_def)

text \<open>Division by a positive finite value is monotone.\<close>

lemma f64_div_mono: "a \<le> b \<Longrightarrow> 0 < y \<Longrightarrow> a / Fin y \<le> b / Fin y"
proof -
  assume le: "a \<le> b" and y: "0 < y"
  show ?thesis
  proof (cases "(\<exists>x. a = Fin x) \<and> (\<exists>x. b = Fin x)")
    case True
    then show ?thesis
      using le y by (auto simp: divide_f64_def f64_le_iff [of "Fin _" "Fin _"] intro!: rnd_mono divide_right_mono)
  next
    case False
    have "rnd q \<le> PInf" "NInf \<le> rnd q" for q
      by (cases "rnd q"; simp add: f64_le_iff)+
    moreover have "a \<noteq> NaN" "b \<noteq> NaN" using le by (simp_all add: f64_le_iff)
    ultimately show ?thesis using False le y
      by (cases a; cases b) (auto simp: divide_f64_def f64_le_iff [of NInf] f64_le_iff [of _ PInf]
        f64_le_iff [of PInf] f64_le_iff [of _ NInf] inf_signed_def)
  qed
qed

lemma is_f64_add [simp, intro]: "is_f64 (a + b)" if "is_f64 a" "is_f64 b" for a b :: f64
  using that by (cases a; cases b) (simp_all add: plus_f64_def)

text \<open>Integers below \<open>2 ^ 53\<close> are exact.\<close>

lemma rnd_of_int_exact:
  assumes "\<bar>k\<bar> < 2 ^ 53"
  shows "rnd (of_int k) = Fin (of_int k)"
proof -
  have abs: "\<bar>of_int k :: rat\<bar> = of_int \<bar>k\<bar>" by simp
  have "(of_int \<bar>k\<bar> :: rat) < of_int (2 ^ 53)" using assms by (simp only: of_int_less_iff)
  then have lt: "\<bar>of_int k :: rat\<bar> < 2 ^ 53" unfolding abs by simp
  have "rnd_rat (of_int k) = of_int k"
  proof (cases "k = 0")
    case False
    then have "ilog2 \<bar>of_int k\<bar> < 53"
      using lt by (intro ilog2_less) (simp_all add: pow2_def)
    then show ?thesis
      by (intro rnd_rat_exact [of _ k 0]) (auto simp: pow2_def)
  qed simp
  moreover have "(2 :: rat) ^ 53 \<le> 2 ^ 1024" by (rule power_increasing) simp_all
  ultimately show ?thesis using lt by (auto simp: rnd_def Let_def abs_if split: if_splits)
qed

lemma is_f64_zero [simp]: "is_f64 0" and is_f64_one [simp]: "is_f64 1"
  using rnd_of_int_exact [of 1] by (auto simp: is_f64_def zero_f64_def one_f64_def)

lemma rnd_numeral [simp]: "(numeral k :: int) < 2 ^ 53 \<Longrightarrow> rnd (numeral k) = Fin (numeral k)"
  using rnd_of_int_exact [of "numeral k"] by simp

lemma rnd_1 [simp]: "rnd 1 = Fin 1"
  using rnd_of_int_exact [of 1] by simp

text \<open>Powers of two are exact, so a value below one of them stays finite.\<close>

lemma rnd_pow2: "n < 1024 \<Longrightarrow> rnd (2 ^ n) = Fin (2 ^ n)"
proof -
  assume n: "n < 1024"
  have e: "pow2 (int n) = (2::rat) ^ n" by (simp add: pow2_def)
  have "ilog2 (2 ^ n) < int n + 1"
    by (rule ilog2_less) (simp_all add: e [symmetric] pow2_less_iff del: power_strict_increasing_iff)
  then have "rnd_rat (2 ^ n) = 2 ^ n"
    by (intro rnd_rat_exact [where k = 1 and a = "int n"]) (simp_all add: e)
  moreover have "(2::rat) ^ n < 2 ^ 1024" using n by (intro power_strict_increasing) simp_all
  moreover have "- (2 ^ 1024) < (2::rat) ^ n" by (rule less_trans [of _ 0]) simp_all
  ultimately show ?thesis by (simp add: rnd_def)
qed

lemma rnd_minus: "rnd x = Fin y \<Longrightarrow> rnd (- x) = Fin (- y)"
  by (auto simp: rnd_def rnd_rat_minus Let_def split: if_splits)

lemma rnd_abs_le_pow2:
  assumes "\<bar>x\<bar> \<le> 2 ^ n" and "n < 1024"
  shows "\<exists>y. rnd x = Fin y \<and> \<bar>y\<bar> \<le> 2 ^ n"
proof -
  have "rnd x \<le> Fin (2 ^ n)" "Fin (- (2 ^ n)) \<le> rnd x"
    using rnd_mono [of x "2 ^ n"] rnd_mono [of "- (2 ^ n)" x] assms rnd_pow2 [OF assms(2)]
      rnd_minus [OF rnd_pow2 [OF assms(2)]] by (auto simp: abs_le_iff)
  then show ?thesis by (cases "rnd x") (auto simp: f64_le_iff abs_le_iff)
qed

lemma f64_of_int_nonneg:
  assumes "0 \<le> i" and "i < 2 ^ 64"
  shows "\<exists>y. f64_of_int i = Fin y \<and> 0 \<le> y \<and> (0 < i \<longrightarrow> 1 \<le> y) \<and> y \<le> 2 ^ 64"
proof -
  have "of_int i \<le> (of_int (2 ^ 64) :: rat)" using assms(2) by (intro iffD2 [OF of_int_le_iff]) simp
  then obtain y where y: "rnd (of_int i) = Fin y" "\<bar>y\<bar> \<le> 2 ^ 64"
    using rnd_abs_le_pow2 [of "of_int i" 64] assms(1) by auto
  moreover have "0 \<le> y" using rnd_nonneg [of "of_int i"] assms(1) y(1) by simp
  moreover have "1 \<le> y" if "0 < i" using rnd_mono [of 1 "of_int i"] that y(1) by (simp add: f64_le_iff)
  ultimately show ?thesis by (auto simp: f64_of_int_def)
qed

lemma is_f64_mul [simp, intro]: "is_f64 (a * b)" for a b :: f64
  by (cases a; cases b) (simp_all add: times_f64_def inf_signed_def)

lemma is_f64_div [simp, intro]: "is_f64 (a / b)" if "is_f64 a" for a b :: f64
  using that by (cases a; cases b) (simp_all add: divide_f64_def inf_signed_def is_f64_zero [unfolded zero_f64_def])

end
