(* ===== verification/Cache_Types.thy ===== *)
theory Cache_Types
  imports KV_Prelude Go_Float64
begin

text \<open>
  \<^verbatim>\<open>internal/cache/entry.go\<close> and \<^verbatim>\<open>internal/cache/eviction.go\<close>: block hashes, stored entries with
  their access bookkeeping, and the \<^verbatim>\<open>EvictionPolicy\<close> interface. A Go interface value is a record of
  its methods over the state \<open>'p\<close> of the concrete policy; the optional \<^verbatim>\<open>QuotaPolicy\<close> capability, which
  the store tests with a type assertion, is the optional last method. The locale
  \<open>eviction_policy\<close> is the contract the store relies on.
\<close>

section \<open>Entries (entry.go)\<close>

type_synonym BlockHash = bytes

text \<open>Times are nanoseconds since the Unix epoch.\<close>

type_synonym time = int
type_synonym duration = int

record Entry =
  e_TokenIDs :: "int32 list"
  e_KV :: bytes
  e_ModelID :: string
  e_WireHash :: BlockHash
  e_Version :: uint64
  e_SizeBytes :: int64
  e_TenantID :: string
  e_RecomputeCost :: f64
  e_CreatedAt :: time
  e_accessCount :: uint64
  e_lastAccessed :: int64

definition AccessCount :: "Entry \<Rightarrow> uint64" where
  "AccessCount e = e_accessCount e"

text \<open>The zero \<^verbatim>\<open>time.Time\<close> of a never-read entry is \<^term>\<open>None\<close>.\<close>

definition LastAccessed :: "Entry \<Rightarrow> time option" where
  "LastAccessed e = (let ns = e_lastAccessed e in if ns = 0 then None else Some (sint ns))"

definition recordAccess :: "time \<Rightarrow> Entry \<Rightarrow> Entry" where
  "recordAccess now e = e\<lparr>e_accessCount := e_accessCount e + 1, e_lastAccessed := word_of_int now\<rparr>"

text \<open>The fields that are immutable once an entry is published.\<close>

definition same_value :: "Entry \<Rightarrow> Entry \<Rightarrow> bool" where
  "same_value e e' \<longleftrightarrow>
     (\<exists>a l. e' = e\<lparr>e_accessCount := a, e_lastAccessed := l\<rparr>)"

lemma same_value_fields:
  assumes "same_value e e'"
  shows "e_TokenIDs e' = e_TokenIDs e" "e_KV e' = e_KV e" "e_ModelID e' = e_ModelID e"
    "e_WireHash e' = e_WireHash e" "e_Version e' = e_Version e" "e_SizeBytes e' = e_SizeBytes e"
    "e_TenantID e' = e_TenantID e" "e_RecomputeCost e' = e_RecomputeCost e" "e_CreatedAt e' = e_CreatedAt e"
  using assms by (auto simp: same_value_def)

lemma same_value_refl [simp]: "same_value e e"
  unfolding same_value_def by (intro exI [of _ "e_accessCount e"] exI [of _ "e_lastAccessed e"]) simp

lemma same_value_recordAccess [simp]: "same_value e (recordAccess now e)"
  unfolding same_value_def recordAccess_def by blast

lemma recordAccess_simps [simp]:
  "e_TokenIDs (recordAccess now e) = e_TokenIDs e" "e_KV (recordAccess now e) = e_KV e"
  "e_ModelID (recordAccess now e) = e_ModelID e" "e_WireHash (recordAccess now e) = e_WireHash e"
  "e_Version (recordAccess now e) = e_Version e" "e_SizeBytes (recordAccess now e) = e_SizeBytes e"
  "e_TenantID (recordAccess now e) = e_TenantID e" "e_RecomputeCost (recordAccess now e) = e_RecomputeCost e"
  "e_CreatedAt (recordAccess now e) = e_CreatedAt e"
  by (simp_all add: recordAccess_def)

section \<open>Eviction policies (eviction.go)\<close>

record WriteMeta =
  wm_Key :: BlockHash
  wm_TenantID :: string
  wm_Size :: int64
  wm_Cost :: f64

record 'p EvictionPolicy =
  RecordAccess :: "BlockHash \<Rightarrow> 'p \<Rightarrow> 'p"
  RecordWrite :: "WriteMeta \<Rightarrow> 'p \<Rightarrow> 'p"
  RecordEvict :: "BlockHash \<Rightarrow> 'p \<Rightarrow> 'p"
  Victim :: "'p \<Rightarrow> 'p \<times> BlockHash option"
  OverQuota :: "('p \<Rightarrow> bool) option"

text \<open>\<^verbatim>\<open>qp, ok := s.policy.(QuotaPolicy); ok && qp.OverQuota()\<close>.\<close>

definition policyOverQuota :: "'p EvictionPolicy \<Rightarrow> 'p \<Rightarrow> bool" where
  "policyOverQuota P p = (case OverQuota P of None \<Rightarrow> False | Some oq \<Rightarrow> oq p)"

definition NoopPolicy :: "unit EvictionPolicy" where
  "NoopPolicy = \<lparr>RecordAccess = (\<lambda>_ p. p), RecordWrite = (\<lambda>_ p. p), RecordEvict = (\<lambda>_ p. p),
     Victim = (\<lambda>p. (p, None)), OverQuota = None\<rparr>"

text \<open>
  A policy value that may be \<^verbatim>\<open>nil\<close>, for which \<^verbatim>\<open>NewStore\<close> installs the no-op policy: \<^term>\<open>None\<close> is the store's
  policy in that case.
\<close>

definition orNoop :: "'p EvictionPolicy \<Rightarrow> 'p option EvictionPolicy" where
  "orNoop P =
     \<lparr>RecordAccess = (\<lambda>h. map_option (RecordAccess P h)), RecordWrite = (\<lambda>m. map_option (RecordWrite P m)),
      RecordEvict = (\<lambda>h. map_option (RecordEvict P h)),
      Victim = (\<lambda>po. case po of None \<Rightarrow> (None, snd (Victim NoopPolicy ())) | Some p \<Rightarrow> let (p', v) = Victim P p in (Some p', v)),
      OverQuota = Some (\<lambda>po. case po of None \<Rightarrow> policyOverQuota NoopPolicy () | Some p \<Rightarrow> policyOverQuota P p)\<rparr>"

lemma orNoop_nil [simp]:
  "RecordAccess (orNoop P) h None = None" "RecordWrite (orNoop P) m None = None" "RecordEvict (orNoop P) h None = None"
  "Victim (orNoop P) None = (None, None)" "\<not> policyOverQuota (orNoop P) None"
  by (simp_all add: orNoop_def NoopPolicy_def policyOverQuota_def)

lemma orNoop_Some [simp]:
  "RecordAccess (orNoop P) h (Some p) = Some (RecordAccess P h p)" "RecordWrite (orNoop P) m (Some p) = Some (RecordWrite P m p)"
  "RecordEvict (orNoop P) h (Some p) = Some (RecordEvict P h p)"
  "Victim (orNoop P) (Some p) = (Some (fst (Victim P p)), snd (Victim P p))"
  "policyOverQuota (orNoop P) (Some p) = policyOverQuota P p"
  by (simp_all add: orNoop_def policyOverQuota_def split_def Let_def)

section \<open>Histories of calls\<close>

text \<open>The calls the store and its evictor make on a policy, and the state after a sequence of them.\<close>

datatype policy_call = Access BlockHash | Write WriteMeta | Evict BlockHash | Pick

fun policy_step :: "'p EvictionPolicy \<Rightarrow> policy_call \<Rightarrow> 'p \<Rightarrow> 'p" where
  "policy_step P (Access h) p = RecordAccess P h p"
| "policy_step P (Write m) p = RecordWrite P m p"
| "policy_step P (Evict h) p = RecordEvict P h p"
| "policy_step P Pick p = fst (Victim P p)"

definition policy_run :: "'p EvictionPolicy \<Rightarrow> policy_call list \<Rightarrow> 'p \<Rightarrow> 'p" where
  "policy_run P calls p = fold (policy_step P) calls p"

fun call_ok :: "(WriteMeta \<Rightarrow> bool) \<Rightarrow> policy_call \<Rightarrow> bool" where
  "call_ok ok (Write m) = ok m"
| "call_ok ok _ = True"

lemma call_ok_True [simp]: "call_ok (\<lambda>_. True) c"
  by (cases c) simp_all

lemma policy_run_simps [simp]:
  "policy_run P [] p = p"
  "policy_run P (calls @ [c]) p = policy_step P c (policy_run P calls p)"
  by (simp_all add: policy_run_def)

section \<open>The contract of a tracking policy\<close>

text \<open>
  \<open>tracked\<close> are the keys the policy can name as victims, \<open>invar\<close> its representation invariant and
  \<open>ok\<close> the writes it is meant for. A victim is tracked, there is one unless nothing is tracked, and
  choosing it changes neither the tracked keys nor the invariant.
\<close>

locale eviction_policy =
  fixes P :: "'p EvictionPolicy"
    and tracked :: "'p \<Rightarrow> BlockHash set"
    and invar :: "'p \<Rightarrow> bool"
    and ok :: "WriteMeta \<Rightarrow> bool"
  assumes access_law: "invar p \<Longrightarrow> invar (RecordAccess P h p) \<and> tracked (RecordAccess P h p) = tracked p"
    and write_law: "invar p \<Longrightarrow> ok m \<Longrightarrow>
      invar (RecordWrite P m p) \<and> tracked (RecordWrite P m p) = insert (wm_Key m) (tracked p)"
    and evict_law: "invar p \<Longrightarrow> invar (RecordEvict P h p) \<and> tracked (RecordEvict P h p) = tracked p - {h}"
    and victim_law: "invar p \<Longrightarrow> Victim P p = (p', v) \<Longrightarrow> invar p' \<and> tracked p' = tracked p"
    and victim_Some: "invar p \<Longrightarrow> Victim P p = (p', Some h) \<Longrightarrow> h \<in> tracked p"
    and victim_None: "invar p \<Longrightarrow> Victim P p = (p', None) \<Longrightarrow> tracked p = {}"
    and quota_law: "invar p \<Longrightarrow> tracked p = {} \<Longrightarrow> \<not> policyOverQuota P p"
begin

lemma victim_cases:
  assumes "invar p"
  obtains p' where "Victim P p = (p', None)" "tracked p = {}" "invar p'" "tracked p' = {}"
  | p' h where "Victim P p = (p', Some h)" "h \<in> tracked p" "invar p'" "tracked p' = tracked p"
proof (cases "Victim P p")
  case (Pair p' v)
  then show thesis
    using that victim_law [OF assms] victim_Some [OF assms] victim_None [OF assms]
    by (cases v) blast+
qed

lemma step_invar: "invar p \<Longrightarrow> call_ok ok c \<Longrightarrow> invar (policy_step P c p)"
  using access_law write_law evict_law victim_law [of p "fst (Victim P p)" "snd (Victim P p)"]
  by (cases c) auto

lemma run_invar: "invar p \<Longrightarrow> list_all (call_ok ok) calls \<Longrightarrow> invar (policy_run P calls p)"
  by (induction calls rule: rev_induct) (auto intro: step_invar)

lemma victim_iff: "invar p \<Longrightarrow> snd (Victim P p) = None \<longleftrightarrow> tracked p = {}"
  by (erule victim_cases) auto

end

end
