(* ===== verification/Store.thy ===== *)
theory Store
  imports Cache_Types Go_SHA256
begin

text \<open>
  \<^verbatim>\<open>internal/cache/store.go\<close>: one in-memory shard. A store value holds its sixteen stripes, the state of
  its eviction policy, the byte counter and the watermarks. The methods take the policy's dictionary and,
  where the code reads the clock, the time. Each method body runs under its stripe lock, so it is one
  atomic step; the two-phase operations of the evictor are split again in the theory of the evictor.
  The spill hook is a function on the state \<open>'x\<close> of whatever it feeds.
\<close>

section \<open>State and construction\<close>

definition storeKey :: "string \<Rightarrow> BlockHash \<Rightarrow> BlockHash" where
  "storeKey model h = sha256 (str_bytes model @ h)"

type_synonym stripe = "(BlockHash, Entry) gomap"

type_synonym 'x SpillFunc = "string \<Rightarrow> BlockHash \<Rightarrow> uint64 \<Rightarrow> int32 list \<Rightarrow> bytes \<Rightarrow> 'x \<Rightarrow> 'x"

record ('p, 'x) Store =
  s_stripes :: "stripe list"
  s_policy :: 'p
  s_totalBytes :: int64
  s_maxBytes :: int64
  s_hiWater :: int64
  s_loWater :: int64
  s_hiFrac :: f64
  s_loFrac :: f64
  s_evictSig :: bool
  s_spill :: "'x SpillFunc option"
  s_sink :: 'x

definition numStripes :: nat where
  "numStripes = 16"

definition defaultHiFrac :: f64 where
  "defaultHiFrac = rnd (9 / 10)"

definition defaultLoFrac :: f64 where
  "defaultLoFrac = rnd (3 / 4)"

type_synonym ('p, 'x) StoreOption = "('p, 'x) Store \<Rightarrow> ('p, 'x) Store"

definition WithMaxBytes :: "int64 \<Rightarrow> ('p, 'x) StoreOption" where
  "WithMaxBytes n s = s\<lparr>s_maxBytes := n\<rparr>"

definition WithWatermarks :: "f64 \<Rightarrow> f64 \<Rightarrow> ('p, 'x) StoreOption" where
  "WithWatermarks hi lo s = s\<lparr>s_hiFrac := hi, s_loFrac := lo\<rparr>"

definition WithSpiller :: "'x SpillFunc \<Rightarrow> ('p, 'x) StoreOption" where
  "WithSpiller fn s = s\<lparr>s_spill := Some fn\<rparr>"

text \<open>
  The policy's state is an argument and its methods are passed with every call. A caller that passes \<^verbatim>\<open>nil\<close> gets the
  no-op policy: that is a store over \<^term>\<open>orNoop P\<close> with the policy \<^term>\<open>None\<close>.
\<close>

definition NewStore :: "'p \<Rightarrow> 'x \<Rightarrow> ('p, 'x) StoreOption list \<Rightarrow> ('p, 'x) Store" where
  "NewStore policy sink opts =
     (let s0 = \<lparr>s_stripes = replicate numStripes [], s_policy = policy, s_totalBytes = 0, s_maxBytes = 0,
                s_hiWater = 0, s_loWater = 0, s_hiFrac = defaultHiFrac, s_loFrac = defaultLoFrac,
                s_evictSig = False, s_spill = None, s_sink = sink\<rparr>;
          s1 = fold (\<lambda>opt s. opt s) opts s0;
          s2 = (if \<not> (0 < s_hiFrac s1 \<and> s_hiFrac s1 \<le> 1 \<and> 0 < s_loFrac s1 \<and> s_loFrac s1 < s_hiFrac s1)
                then s1\<lparr>s_hiFrac := defaultHiFrac, s_loFrac := defaultLoFrac\<rparr> else s1)
      in if slt64 0 (s_maxBytes s2)
         then s2\<lparr>s_hiWater := int64_of_f64 (f64_of_int (sint (s_maxBytes s2)) * s_hiFrac s2),
                 s_loWater := int64_of_f64 (f64_of_int (sint (s_maxBytes s2)) * s_loFrac s2)\<rparr>
         else s2)"

section \<open>Accounting and pressure\<close>

definition Bytes :: "('p, 'x) Store \<Rightarrow> int64" where
  "Bytes s = s_totalBytes s"

definition Len :: "('p, 'x) Store \<Rightarrow> nat" where
  "Len s = fold (\<lambda>st n. n + length st) (s_stripes s) 0"

definition LowWater :: "('p, 'x) Store \<Rightarrow> int64" where
  "LowWater s = s_loWater s"

text \<open>The buffered channel of capacity one is a flag: a send on a full channel is dropped.\<close>

definition signalEvict :: "'p EvictionPolicy \<Rightarrow> ('p, 'x) Store \<Rightarrow> ('p, 'x) Store" where
  "signalEvict P s =
     (let pressured = slt64 0 (s_maxBytes s) \<and> sle64 (s_hiWater s) (s_totalBytes s)
      in if \<not> pressured \<and> \<not> policyOverQuota P (s_policy s) then s else s\<lparr>s_evictSig := True\<rparr>)"

definition needsEviction :: "'p EvictionPolicy \<Rightarrow> ('p, 'x) Store \<Rightarrow> bool" where
  "needsEviction P s =
     (if slt64 0 (s_maxBytes s) \<and> slt64 (s_loWater s) (s_totalBytes s) then True
      else policyOverQuota P (s_policy s))"

definition OverHardLimit :: "int64 \<Rightarrow> ('p, 'x) Store \<Rightarrow> bool" where
  "OverHardLimit addBytes s \<longleftrightarrow> slt64 0 (s_maxBytes s) \<and> slt64 (s_maxBytes s) (s_totalBytes s + addBytes)"

section \<open>Reads and writes\<close>

definition stripeIdx :: "('p, 'x) Store \<Rightarrow> BlockHash \<Rightarrow> nat" where
  "stripeIdx s h = unat (and (le_word (take 8 h)) (word_of_nat (length (s_stripes s) - 1) :: uint64))"

definition stripeFor :: "('p, 'x) Store \<Rightarrow> BlockHash \<Rightarrow> stripe" where
  "stripeFor s h = s_stripes s ! stripeIdx s h"

definition setStripe :: "BlockHash \<Rightarrow> stripe \<Rightarrow> ('p, 'x) Store \<Rightarrow> ('p, 'x) Store" where
  "setStripe h st s = s\<lparr>s_stripes := (s_stripes s)[stripeIdx s h := st]\<rparr>"

definition Get :: "'p EvictionPolicy \<Rightarrow> time \<Rightarrow> string \<Rightarrow> BlockHash \<Rightarrow> ('p, 'x) Store \<Rightarrow> Entry option \<times> ('p, 'x) Store" where
  "Get P now model h s =
     (let k = storeKey model h
      in case gm_get (stripeFor s k) k of
           None \<Rightarrow> (None, s)
         | Some e \<Rightarrow>
             if e_ModelID e \<noteq> model then (None, s)
             else let e' = recordAccess now e;
                      s' = setStripe k (gm_put k e' (stripeFor s k)) s
                  in (Some e', s'\<lparr>s_policy := RecordAccess P k (s_policy s')\<rparr>))"

definition Peek :: "string \<Rightarrow> BlockHash \<Rightarrow> ('p, 'x) Store \<Rightarrow> Entry option" where
  "Peek model h s =
     (let k = storeKey model h
      in case gm_get (stripeFor s k) k of
           None \<Rightarrow> None
         | Some e \<Rightarrow> if e_ModelID e \<noteq> model then None else Some e)"

text \<open>The tail both writers share: publish the entry, tell the policy, move the counter, signal.\<close>

definition publish :: "'p EvictionPolicy \<Rightarrow> BlockHash \<Rightarrow> Entry \<Rightarrow> int64 \<Rightarrow> ('p, 'x) Store \<Rightarrow> ('p, 'x) Store" where
  "publish P k stored prevSize s =
     (let s1 = setStripe k (gm_put k stored (stripeFor s k)) s;
          s2 = s1\<lparr>s_policy := RecordWrite P \<lparr>wm_Key = k, wm_TenantID = e_TenantID stored,
                   wm_Size = e_SizeBytes stored, wm_Cost = e_RecomputeCost stored\<rparr> (s_policy s1)\<rparr>;
          s3 = s2\<lparr>s_totalBytes := s_totalBytes s2 + (e_SizeBytes stored - prevSize)\<rparr>
      in signalEvict P s3)"

definition storedEntry :: "BlockHash \<Rightarrow> Entry \<Rightarrow> uint64 \<Rightarrow> time \<Rightarrow> Entry" where
  "storedEntry h e version created =
     \<lparr>e_TokenIDs = e_TokenIDs e, e_KV = e_KV e, e_ModelID = e_ModelID e, e_WireHash = h,
      e_Version = version, e_SizeBytes = len64 (e_KV e), e_TenantID = e_TenantID e,
      e_RecomputeCost = e_RecomputeCost e, e_CreatedAt = created, e_accessCount = 0, e_lastAccessed = 0\<rparr>"

definition Put :: "'p EvictionPolicy \<Rightarrow> time \<Rightarrow> BlockHash \<Rightarrow> Entry option \<Rightarrow> ('p, 'x) Store \<Rightarrow> uint64 \<times> ('p, 'x) Store" where
  "Put P now h eo s =
     (case eo of
        None \<Rightarrow> (0, s)
      | Some e \<Rightarrow>
          let k = storeKey (e_ModelID e) h;
              (version, created, prevSize) =
                (case gm_get (stripeFor s k) k of
                   Some prev \<Rightarrow> (e_Version prev + 1, e_CreatedAt prev, e_SizeBytes prev)
                 | None \<Rightarrow> (1, now, 0))
          in (version, publish P k (storedEntry h e version created) prevSize s))"

definition PutWithVersion ::
  "'p EvictionPolicy \<Rightarrow> time \<Rightarrow> BlockHash \<Rightarrow> Entry option \<Rightarrow> uint64 \<Rightarrow> ('p, 'x) Store \<Rightarrow> uint64 \<times> ('p, 'x) Store" where
  "PutWithVersion P now h eo version s =
     (case eo of
        None \<Rightarrow> (0, s)
      | Some e \<Rightarrow>
          if version = 0 then (0, s)
          else let k = storeKey (e_ModelID e) h
               in case gm_get (stripeFor s k) k of
                    Some prev \<Rightarrow>
                      if version \<le> e_Version prev then (e_Version prev, s)
                      else (version, publish P k (storedEntry h e version (e_CreatedAt prev)) (e_SizeBytes prev) s)
                  | None \<Rightarrow> (version, publish P k (storedEntry h e version now) 0 s))"

section \<open>Removal\<close>

definition Delete :: "'p EvictionPolicy \<Rightarrow> string \<Rightarrow> BlockHash \<Rightarrow> ('p, 'x) Store \<Rightarrow> bool \<times> ('p, 'x) Store" where
  "Delete P model h s =
     (let k = storeKey model h
      in case gm_get (stripeFor s k) k of
           None \<Rightarrow> (False, s)
         | Some e \<Rightarrow>
             if e_ModelID e \<noteq> model then (False, s)
             else let s1 = setStripe k (gm_del k (stripeFor s k)) s;
                      s2 = s1\<lparr>s_policy := RecordEvict P k (s_policy s1)\<rparr>
                  in (True, s2\<lparr>s_totalBytes := s_totalBytes s2 + - e_SizeBytes e\<rparr>))"

definition evict :: "'p EvictionPolicy \<Rightarrow> BlockHash \<Rightarrow> ('p, 'x) Store \<Rightarrow> int64 \<times> ('p, 'x) Store" where
  "evict P h s =
     (case gm_get (stripeFor s h) h of
        None \<Rightarrow> (0, s)
      | Some e \<Rightarrow>
          let s0 = (case s_spill s of
                      None \<Rightarrow> s
                    | Some spill \<Rightarrow>
                        s\<lparr>s_sink := spill (e_ModelID e) (e_WireHash e) (e_Version e) (e_TokenIDs e) (e_KV e) (s_sink s)\<rparr>);
              s1 = setStripe h (gm_del h (stripeFor s0 h)) s0;
              s2 = s1\<lparr>s_totalBytes := s_totalBytes s1 + - e_SizeBytes e\<rparr>
          in (e_SizeBytes e, s2\<lparr>s_policy := RecordEvict P h (s_policy s2)\<rparr>))"

definition evictOne :: "'p EvictionPolicy \<Rightarrow> ('p, 'x) Store \<Rightarrow> (int64 \<times> bool) \<times> ('p, 'x) Store" where
  "evictOne P s =
     (let (p, v) = Victim P (s_policy s); s1 = s\<lparr>s_policy := p\<rparr>
      in case v of
           None \<Rightarrow> ((0, False), s1)
         | Some h \<Rightarrow> let (freed, s2) = evict P h s1 in ((freed, True), s2))"

text \<open>\<open>idleSince\<close> falls back to the creation time for an entry that was never read.\<close>

definition idleSince :: "Entry \<Rightarrow> time" where
  "idleSince e = (case LastAccessed e of None \<Rightarrow> e_CreatedAt e | Some t \<Rightarrow> t)"

definition sweepVictims :: "time \<Rightarrow> ('p, 'x) Store \<Rightarrow> BlockHash list" where
  "sweepVictims cutoff s =
     concat (map (\<lambda>st. map fst (filter (\<lambda>(h, e). idleSince e < cutoff) st)) (s_stripes s))"

definition sweepStep :: "'p EvictionPolicy \<Rightarrow> BlockHash \<Rightarrow> nat \<times> ('p, 'x) Store \<Rightarrow> nat \<times> ('p, 'x) Store" where
  "sweepStep P h = (\<lambda>(n, s). let (freed, s') = evict P h s in (if slt64 0 freed then n + 1 else n, s'))"

definition sweepIdle :: "'p EvictionPolicy \<Rightarrow> time \<Rightarrow> duration \<Rightarrow> ('p, 'x) Store \<Rightarrow> nat \<times> ('p, 'x) Store" where
  "sweepIdle P now ttl s =
     (if ttl \<le> 0 then (0, s)
      else fold (sweepStep P) (sweepVictims (now - ttl) s) (0, s))"

section \<open>The store as one map\<close>

definition contents :: "('p, 'x) Store \<Rightarrow> BlockHash \<rightharpoonup> Entry" where
  "contents s k = gm_get (stripeFor s k) k"

definition stripe_bytes :: "stripe \<Rightarrow> int64" where
  "stripe_bytes st = gm_sum (\<lambda>_ e. e_SizeBytes e) st"

definition resident_bytes :: "('p, 'x) Store \<Rightarrow> int64" where
  "resident_bytes s = (\<Sum>st\<leftarrow>s_stripes s. stripe_bytes st)"

text \<open>
  Well-formed: sixteen stripes, each key in the stripe its low bytes select, the counter equal to the sum
  of the sizes, and every entry filed under the key of its model and wire hash.
\<close>

definition stripes_ok :: "('p, 'x) Store \<Rightarrow> bool" where
  "stripes_ok s \<longleftrightarrow> length (s_stripes s) = numStripes \<and>
     (\<forall>i < numStripes. gm_wf (s_stripes s ! i) \<and> (\<forall>k \<in> gm_keys (s_stripes s ! i). stripeIdx s k = i))"

definition entry_filed :: "BlockHash \<Rightarrow> Entry \<Rightarrow> bool" where
  "entry_filed k e \<longleftrightarrow> k = storeKey (e_ModelID e) (e_WireHash e) \<and> e_SizeBytes e = len64 (e_KV e)"

definition store_wf :: "('p, 'x) Store \<Rightarrow> bool" where
  "store_wf s \<longleftrightarrow> stripes_ok s \<and> s_totalBytes s = resident_bytes s \<and>
     (\<forall>k e. contents s k = Some e \<longrightarrow> entry_filed k e)"

lemma store_wfD:
  assumes "store_wf s"
  shows "stripes_ok s" "s_totalBytes s = resident_bytes s" "contents s k = Some e \<Longrightarrow> entry_filed k e"
  using assms by (auto simp: store_wf_def)

lemma stripeIdx_less: "length (s_stripes s) = numStripes \<Longrightarrow> stripeIdx s h < numStripes"
proof -
  assume len: "length (s_stripes s) = numStripes"
  have "and (le_word (take 8 h)) (15 :: uint64) \<le> 15" by (rule word_and_le1)
  then have "unat (and (le_word (take 8 h)) (15 :: uint64)) \<le> unat (15 :: uint64)" by (simp only: word_le_nat_alt)
  then show ?thesis using len by (simp add: stripeIdx_def numStripes_def)
qed

lemma setStripe_sel [simp]:
  "s_policy (setStripe k st s) = s_policy s" "s_totalBytes (setStripe k st s) = s_totalBytes s"
  "s_maxBytes (setStripe k st s) = s_maxBytes s" "s_loWater (setStripe k st s) = s_loWater s"
  "s_hiWater (setStripe k st s) = s_hiWater s" "s_spill (setStripe k st s) = s_spill s"
  "s_sink (setStripe k st s) = s_sink s" "s_evictSig (setStripe k st s) = s_evictSig s"
  "length (s_stripes (setStripe k st s)) = length (s_stripes s)"
  by (simp_all add: setStripe_def)

lemma stripeIdx_cong: "length (s_stripes s') = length (s_stripes s) \<Longrightarrow> stripeIdx s' h = stripeIdx s h"
  by (simp add: stripeIdx_def)

lemma stripe_cong:
  assumes "s_stripes s' = s_stripes s"
  shows "contents s' = contents s" "resident_bytes s' = resident_bytes s" "stripes_ok s' = stripes_ok s"
    "stripeFor s' = stripeFor s"
  using assms by (simp_all add: contents_def stripeFor_def stripeIdx_def resident_bytes_def stripes_ok_def fun_eq_iff)

lemma contents_setStripe:
  assumes "length (s_stripes s) = numStripes"
  shows "contents (setStripe k st s) k' = (if stripeIdx s k' = stripeIdx s k then gm_get st k' else contents s k')"
  using stripeIdx_less [OF assms] assms
  by (simp add: contents_def stripeFor_def setStripe_def stripeIdx_def nth_list_update)

lemma contents_put:
  assumes "length (s_stripes s) = numStripes"
  shows "contents (setStripe k (gm_put k e (stripeFor s k)) s) = (contents s)(k \<mapsto> e)"
  by (rule ext) (auto simp: contents_setStripe [OF assms], auto simp: contents_def stripeFor_def)

lemma contents_del:
  assumes "length (s_stripes s) = numStripes"
  shows "contents (setStripe k (gm_del k (stripeFor s k)) s) = (contents s)(k := None)"
  by (rule ext) (auto simp: contents_setStripe [OF assms], auto simp: contents_def stripeFor_def)

lemma sum_list_map_update:
  fixes f :: "'a \<Rightarrow> 'b::ab_group_add"
  shows "i < length xs \<Longrightarrow> (\<Sum>x\<leftarrow>xs[i := y]. f x) = (\<Sum>x\<leftarrow>xs. f x) - f (xs ! i) + f y"
proof (induction xs arbitrary: i)
  case (Cons x xs)
  then show ?case by (cases i) (simp_all add: algebra_simps)
qed simp

lemma resident_setStripe:
  assumes "length (s_stripes s) = numStripes"
  shows "resident_bytes (setStripe k st s) = resident_bytes s - stripe_bytes (stripeFor s k) + stripe_bytes st"
  using stripeIdx_less [OF assms, of k] assms
  by (simp add: resident_bytes_def setStripe_def sum_list_map_update stripeFor_def)

lemma stripes_okD:
  assumes "stripes_ok s"
  shows "length (s_stripes s) = numStripes" "gm_wf (stripeFor s k)"
    "k' \<in> gm_keys (stripeFor s k) \<Longrightarrow> stripeIdx s k' = stripeIdx s k"
  using assms stripeIdx_less [of s k] by (auto simp: stripes_ok_def stripeFor_def)

lemma stripes_ok_setStripe:
  assumes ok: "stripes_ok s" and "gm_wf st" and "\<And>k'. k' \<in> gm_keys st \<Longrightarrow> stripeIdx s k' = stripeIdx s k"
  shows "stripes_ok (setStripe k st s)"
proof -
  have "stripeIdx (setStripe k st s) k' = stripeIdx s k'" for k'
    by (rule stripeIdx_cong) simp
  moreover have "s_stripes (setStripe k st s) ! i = (if i = stripeIdx s k then st else s_stripes s ! i)" for i
    using ok stripeIdx_less [of s k] by (simp add: setStripe_def stripes_ok_def nth_list_update)
  ultimately show ?thesis
    using assms unfolding stripes_ok_def by auto
qed

lemma stripe_put:
  assumes ok: "stripes_ok s"
  shows "stripes_ok (setStripe k (gm_put k e (stripeFor s k)) s)"
    and "contents (setStripe k (gm_put k e (stripeFor s k)) s) = (contents s)(k \<mapsto> e)"
    and "resident_bytes (setStripe k (gm_put k e (stripeFor s k)) s) =
      resident_bytes s + (e_SizeBytes e - (case contents s k of None \<Rightarrow> 0 | Some e' \<Rightarrow> e_SizeBytes e'))"
proof -
  note d = stripes_okD [OF ok]
  show "stripes_ok (setStripe k (gm_put k e (stripeFor s k)) s)"
    using d(2,3) by (intro stripes_ok_setStripe [OF ok]) auto
  show "contents (setStripe k (gm_put k e (stripeFor s k)) s) = (contents s)(k \<mapsto> e)"
    by (rule contents_put [OF d(1)])
  show "resident_bytes (setStripe k (gm_put k e (stripeFor s k)) s) =
      resident_bytes s + (e_SizeBytes e - (case contents s k of None \<Rightarrow> 0 | Some e' \<Rightarrow> e_SizeBytes e'))"
    by (simp add: resident_setStripe [OF d(1)] stripe_bytes_def gm_sum_put [OF d(2)] contents_def gm_weight_def)
qed

lemma stripe_del:
  assumes ok: "stripes_ok s"
  shows "stripes_ok (setStripe k (gm_del k (stripeFor s k)) s)"
    and "contents (setStripe k (gm_del k (stripeFor s k)) s) = (contents s)(k := None)"
    and "resident_bytes (setStripe k (gm_del k (stripeFor s k)) s) =
      resident_bytes s - (case contents s k of None \<Rightarrow> 0 | Some e' \<Rightarrow> e_SizeBytes e')"
proof -
  note d = stripes_okD [OF ok]
  show "stripes_ok (setStripe k (gm_del k (stripeFor s k)) s)"
    using d(2,3) by (intro stripes_ok_setStripe [OF ok]) auto
  show "contents (setStripe k (gm_del k (stripeFor s k)) s) = (contents s)(k := None)"
    by (rule contents_del [OF d(1)])
  show "resident_bytes (setStripe k (gm_del k (stripeFor s k)) s) =
      resident_bytes s - (case contents s k of None \<Rightarrow> 0 | Some e' \<Rightarrow> e_SizeBytes e')"
    by (simp add: resident_setStripe [OF d(1)] stripe_bytes_def gm_sum_del [OF d(2)] contents_def gm_weight_def)
qed

lemma stripe_touch:
  assumes "stripes_ok s" and "contents s k = Some e" and "e_SizeBytes e' = e_SizeBytes e"
  shows "resident_bytes (setStripe k (gm_put k e' (stripeFor s k)) s) = resident_bytes s"
  using stripe_put(3) [OF assms(1), of k e'] assms(2,3) by simp

section \<open>What each operation does\<close>

lemma signalEvict_sel [simp]:
  "s_stripes (signalEvict P s) = s_stripes s" "s_policy (signalEvict P s) = s_policy s"
  "s_totalBytes (signalEvict P s) = s_totalBytes s" "s_maxBytes (signalEvict P s) = s_maxBytes s"
  "s_loWater (signalEvict P s) = s_loWater s" "s_hiWater (signalEvict P s) = s_hiWater s"
  "s_spill (signalEvict P s) = s_spill s" "s_sink (signalEvict P s) = s_sink s"
  by (simp_all add: signalEvict_def Let_def)

lemma signalEvict_contents [simp]:
  "contents (signalEvict P s) = contents s" "resident_bytes (signalEvict P s) = resident_bytes s"
  "stripes_ok (signalEvict P s) = stripes_ok s"
  by (rule stripe_cong; simp)+

lemma store_update_contents [simp]:
  "contents (s\<lparr>s_policy := p\<rparr>) = contents s" "contents (s\<lparr>s_totalBytes := n\<rparr>) = contents s"
  "contents (s\<lparr>s_sink := x\<rparr>) = contents s"
  "resident_bytes (s\<lparr>s_policy := p\<rparr>) = resident_bytes s" "resident_bytes (s\<lparr>s_totalBytes := n\<rparr>) = resident_bytes s"
  "resident_bytes (s\<lparr>s_sink := x\<rparr>) = resident_bytes s"
  "stripes_ok (s\<lparr>s_policy := p\<rparr>) = stripes_ok s" "stripes_ok (s\<lparr>s_totalBytes := n\<rparr>) = stripes_ok s"
  "stripes_ok (s\<lparr>s_sink := x\<rparr>) = stripes_ok s"
  "stripeFor (s\<lparr>s_policy := p\<rparr>) = stripeFor s" "stripeFor (s\<lparr>s_sink := x\<rparr>) = stripeFor s"
  by (rule stripe_cong; simp)+

definition write_meta :: "BlockHash \<Rightarrow> Entry \<Rightarrow> WriteMeta" where
  "write_meta k e = \<lparr>wm_Key = k, wm_TenantID = e_TenantID e, wm_Size = e_SizeBytes e, wm_Cost = e_RecomputeCost e\<rparr>"

lemma storedEntry_sel [simp]:
  "e_TokenIDs (storedEntry h e v c) = e_TokenIDs e" "e_KV (storedEntry h e v c) = e_KV e"
  "e_ModelID (storedEntry h e v c) = e_ModelID e" "e_WireHash (storedEntry h e v c) = h"
  "e_Version (storedEntry h e v c) = v" "e_SizeBytes (storedEntry h e v c) = len64 (e_KV e)"
  "e_RecomputeCost (storedEntry h e v c) = e_RecomputeCost e" "e_TenantID (storedEntry h e v c) = e_TenantID e"
  "e_CreatedAt (storedEntry h e v c) = c"
  by (simp_all add: storedEntry_def)

lemma publish_effect:
  assumes "store_wf s" and "entry_filed k e" and "prev = (case contents s k of None \<Rightarrow> 0 | Some e' \<Rightarrow> e_SizeBytes e')"
  shows "store_wf (publish P k e prev s)" and "contents (publish P k e prev s) = (contents s)(k \<mapsto> e)"
    and "s_policy (publish P k e prev s) = RecordWrite P (write_meta k e) (s_policy s)"
  using stripe_put [OF store_wfD(1) [OF assms(1)], of k e] store_wfD(2,3) [OF assms(1)] assms(2,3)
  by (auto simp: publish_def Let_def store_wf_def write_meta_def)

text \<open>A key lookup with the model re-check, which both read paths and \<^verbatim>\<open>Delete\<close> make.\<close>

definition find_entry :: "string \<Rightarrow> BlockHash \<Rightarrow> ('p, 'x) Store \<Rightarrow> Entry option" where
  "find_entry model h s =
     (case contents s (storeKey model h) of
        None \<Rightarrow> None | Some e \<Rightarrow> if e_ModelID e = model then Some e else None)"

lemma Peek_find: "Peek model h s = find_entry model h s"
  by (simp add: Peek_def find_entry_def contents_def Let_def split: option.splits)

lemma Get_effect:
  "Get P now model h s =
     (case find_entry model h s of
        None \<Rightarrow> (None, s)
      | Some e \<Rightarrow> (Some (recordAccess now e),
          let s' = setStripe (storeKey model h) (gm_put (storeKey model h) (recordAccess now e)
                     (stripeFor s (storeKey model h))) s
          in s'\<lparr>s_policy := RecordAccess P (storeKey model h) (s_policy s)\<rparr>))"
  by (simp add: Get_def find_entry_def contents_def Let_def split: option.splits)

lemma find_entry_Some: "find_entry model h s = Some e \<Longrightarrow> contents s (storeKey model h) = Some e \<and> e_ModelID e = model"
  by (auto simp: find_entry_def split: option.splits if_splits)

lemma Get_contents:
  assumes "store_wf s"
  shows "store_wf (snd (Get P now model h s))"
    and "contents (snd (Get P now model h s)) =
      (case find_entry model h s of
         None \<Rightarrow> contents s | Some e \<Rightarrow> (contents s)(storeKey model h \<mapsto> recordAccess now e))"
proof -
  let ?k = "storeKey model h"
  have "store_wf (snd (Get P now model h s)) \<and> contents (snd (Get P now model h s)) =
      (case find_entry model h s of None \<Rightarrow> contents s | Some e \<Rightarrow> (contents s)(?k \<mapsto> recordAccess now e))"
  proof (cases "find_entry model h s")
    case None
    then show ?thesis using assms by (simp add: Get_effect)
  next
    case (Some e)
    then have c: "contents s ?k = Some e" using find_entry_Some by blast
    have "entry_filed ?k (recordAccess now e)" using store_wfD(3) [OF assms c] by (simp add: entry_filed_def)
    then show ?thesis
      using Some stripe_put(1,2) [OF store_wfD(1) [OF assms], of ?k "recordAccess now e"] store_wfD(2,3) [OF assms]
        stripe_touch [OF store_wfD(1) [OF assms] c, of "recordAccess now e"]
      by (auto simp: Get_effect Let_def store_wf_def)
  qed
  then show "store_wf (snd (Get P now model h s))" and "contents (snd (Get P now model h s)) =
      (case find_entry model h s of None \<Rightarrow> contents s | Some e \<Rightarrow> (contents s)(?k \<mapsto> recordAccess now e))"
    by auto
qed

definition put_version :: "Entry option \<Rightarrow> uint64" where
  "put_version prev = (case prev of None \<Rightarrow> 1 | Some e \<Rightarrow> e_Version e + 1)"

definition put_created :: "time \<Rightarrow> Entry option \<Rightarrow> time" where
  "put_created now prev = (case prev of None \<Rightarrow> now | Some e \<Rightarrow> e_CreatedAt e)"

lemma Put_effect:
  "Put P now h (Some e) s =
     (let k = storeKey (e_ModelID e) h; prev = contents s k
      in (put_version prev, publish P k (storedEntry h e (put_version prev) (put_created now prev))
            (case prev of None \<Rightarrow> 0 | Some e' \<Rightarrow> e_SizeBytes e') s))"
  by (simp add: Put_def contents_def put_version_def put_created_def Let_def split: option.splits)

lemma PutWithVersion_effect:
  "PutWithVersion P now h (Some e) version s =
     (let k = storeKey (e_ModelID e) h; prev = contents s k
      in if version = 0 then (0, s)
         else if (\<exists>e'. prev = Some e' \<and> version \<le> e_Version e') then (e_Version (the prev), s)
         else (version, publish P k (storedEntry h e version (put_created now prev))
                 (case prev of None \<Rightarrow> 0 | Some e' \<Rightarrow> e_SizeBytes e') s))"
  by (simp add: PutWithVersion_def contents_def put_created_def Let_def split: option.splits)

lemma storedEntry_filed [simp]: "entry_filed (storeKey (e_ModelID e) h) (storedEntry h e v c)"
  by (simp add: entry_filed_def)

lemma Put_contents:
  assumes "store_wf s" and k: "k = storeKey (e_ModelID e) h"
  shows "store_wf (snd (Put P now h (Some e) s))"
    and "contents (snd (Put P now h (Some e) s)) =
      (contents s)(k \<mapsto> storedEntry h e (put_version (contents s k)) (put_created now (contents s k)))"
    and "fst (Put P now h (Some e) s) = put_version (contents s k)"
    and "s_policy (snd (Put P now h (Some e) s)) =
      RecordWrite P (write_meta k (storedEntry h e (put_version (contents s k)) (put_created now (contents s k)))) (s_policy s)"
  using publish_effect [OF assms(1) storedEntry_filed refl]
  by (simp_all add: Put_effect Let_def k)

lemma evict_effect:
  assumes "store_wf s"
  shows "store_wf (snd (evict P k s))" and "contents (snd (evict P k s)) = (contents s)(k := None)"
    and "fst (evict P k s) = (case contents s k of None \<Rightarrow> 0 | Some e \<Rightarrow> e_SizeBytes e)"
    and "s_policy (snd (evict P k s)) =
      (if contents s k = None then s_policy s else RecordEvict P k (s_policy s))"
    and "s_sink (snd (evict P k s)) = (case (contents s k, s_spill s) of
        (Some e, Some spill) \<Rightarrow> spill (e_ModelID e) (e_WireHash e) (e_Version e) (e_TokenIDs e) (e_KV e) (s_sink s)
      | _ \<Rightarrow> s_sink s)"
    and "s_spill (snd (evict P k s)) = s_spill s" and "s_maxBytes (snd (evict P k s)) = s_maxBytes s"
    and "s_loWater (snd (evict P k s)) = s_loWater s"
proof -
  define sink where "sink = (case (contents s k, s_spill s) of
      (Some e, Some spill) \<Rightarrow> spill (e_ModelID e) (e_WireHash e) (e_Version e) (e_TokenIDs e) (e_KV e) (s_sink s)
    | _ \<Rightarrow> s_sink s)"
  let ?s1 = "setStripe k (gm_del k (stripeFor s k)) (s\<lparr>s_sink := sink\<rparr>)"
  have ev: "evict P k s = (case contents s k of None \<Rightarrow> (0, s)
      | Some e \<Rightarrow> (e_SizeBytes e, ?s1\<lparr>s_totalBytes := s_totalBytes s + - e_SizeBytes e, s_policy := RecordEvict P k (s_policy s)\<rparr>))"
    by (auto simp: evict_def contents_def Let_def sink_def split: option.splits)
  have ok: "stripes_ok (s\<lparr>s_sink := sink\<rparr>)" using store_wfD(1) [OF assms] by simp
  have del: "stripes_ok ?s1" "contents ?s1 = (contents s)(k := None)"
    "resident_bytes ?s1 = resident_bytes s - (case contents s k of None \<Rightarrow> 0 | Some e' \<Rightarrow> e_SizeBytes e')"
    using stripe_del [OF ok, of k] by simp_all
  show "store_wf (snd (evict P k s))"
    using assms del store_wfD(2,3) [OF assms] by (auto simp: ev store_wf_def split: option.splits)
  show "contents (snd (evict P k s)) = (contents s)(k := None)"
    using del by (auto simp: ev fun_upd_idem split: option.splits)
  show "s_sink (snd (evict P k s)) = (case (contents s k, s_spill s) of
        (Some e, Some spill) \<Rightarrow> spill (e_ModelID e) (e_WireHash e) (e_Version e) (e_TokenIDs e) (e_KV e) (s_sink s)
      | _ \<Rightarrow> s_sink s)"
    by (auto simp: ev sink_def split: option.splits)
qed (auto simp: evict_def contents_def Let_def split: option.splits)

lemma Delete_effect:
  assumes "store_wf s"
  shows "store_wf (snd (Delete P model h s))"
    and "fst (Delete P model h s) \<longleftrightarrow> find_entry model h s \<noteq> None"
    and "contents (snd (Delete P model h s)) =
      (if find_entry model h s = None then contents s else (contents s)(storeKey model h := None))"
    and "s_policy (snd (Delete P model h s)) =
      (if find_entry model h s = None then s_policy s else RecordEvict P (storeKey model h) (s_policy s))"
    and "s_sink (snd (Delete P model h s)) = s_sink s"
proof -
  let ?k = "storeKey model h"
  let ?s1 = "setStripe ?k (gm_del ?k (stripeFor s ?k)) s"
  have del: "Delete P model h s = (case find_entry model h s of None \<Rightarrow> (False, s)
      | Some e \<Rightarrow> (True, ?s1\<lparr>s_policy := RecordEvict P ?k (s_policy s), s_totalBytes := s_totalBytes s + - e_SizeBytes e\<rparr>))"
    by (auto simp: Delete_def find_entry_def contents_def Let_def split: option.splits)
  note d = stripe_del [OF store_wfD(1) [OF assms], of ?k]
  show "store_wf (snd (Delete P model h s))"
    using assms d store_wfD(2,3) [OF assms]
    by (auto simp: del store_wf_def dest: find_entry_Some split: option.splits)
  show "contents (snd (Delete P model h s)) =
      (if find_entry model h s = None then contents s else (contents s)(?k := None))"
    using d(2) by (auto simp: del split: option.splits)
qed (auto simp: Delete_def find_entry_def contents_def Let_def split: option.splits)

lemma NewStore_stripes:
  assumes "\<And>opt s. opt \<in> set opts \<Longrightarrow> s_stripes (opt s) = s_stripes s \<and> s_totalBytes (opt s) = s_totalBytes s"
  shows "s_stripes (NewStore p x opts) = replicate numStripes []" "s_totalBytes (NewStore p x opts) = 0"
proof -
  have "s_stripes (fold (\<lambda>opt s. opt s) opts s) = s_stripes s \<and> s_totalBytes (fold (\<lambda>opt s. opt s) opts s) = s_totalBytes s" for s
    using assms by (induction opts arbitrary: s) auto
  then show "s_stripes (NewStore p x opts) = replicate numStripes []" "s_totalBytes (NewStore p x opts) = 0"
    by (simp_all add: NewStore_def Let_def)
qed

end
