(* ===== verification/Store_Correct.thy ===== *)
theory Store_Correct
  imports Store
begin

text \<open>
  What one shard promises: reads see the last write, models and hashes do not interfere, versions are
  minted and replicated consistently, deliveries of a replica converge, the byte counter is exact, the
  watermarks are ordered, and the idle sweep removes exactly the idle entries.
\<close>

section \<open>The store under a tracking policy\<close>

definition entry_ok :: "(WriteMeta \<Rightarrow> bool) \<Rightarrow> Entry \<Rightarrow> bool" where
  "entry_ok ok e \<longleftrightarrow>
     (\<forall>k t n. ok \<lparr>wm_Key = k, wm_TenantID = t, wm_Size = n, wm_Cost = e_RecomputeCost e\<rparr>)"

text \<open>The policy tracks exactly the stored keys.\<close>

definition shard_inv :: "('p \<Rightarrow> BlockHash set) \<Rightarrow> ('p \<Rightarrow> bool) \<Rightarrow> ('p, 'x) Store \<Rightarrow> bool" where
  "shard_inv tracked invar s \<longleftrightarrow> store_wf s \<and> invar (s_policy s) \<and> tracked (s_policy s) = dom (contents s)"

lemma shard_invD:
  assumes "shard_inv tracked invar s"
  shows "store_wf s" "invar (s_policy s)" "tracked (s_policy s) = dom (contents s)"
  using assms by (simp_all add: shard_inv_def)

lemma entry_ok_meta: "entry_ok ok e \<Longrightarrow> ok (write_meta k (storedEntry h e v c))"
  by (simp add: entry_ok_def write_meta_def)

context eviction_policy
begin

lemma Get_shard_inv:
  assumes "shard_inv tracked invar s"
  shows "shard_inv tracked invar (snd (Get P now model h s))"
proof (cases "find_entry model h s")
  case None
  then show ?thesis using assms by (simp add: Get_effect)
next
  case (Some e)
  then have "storeKey model h \<in> dom (contents s)" using find_entry_Some by blast
  then show ?thesis
    using Get_contents [OF shard_invD(1) [OF assms], of P now model h] access_law [OF shard_invD(2) [OF assms]]
      shard_invD(3) [OF assms] Some
    by (auto simp: shard_inv_def Get_effect Let_def)
qed

lemma Put_shard_inv:
  assumes "shard_inv tracked invar s" and "entry_ok ok e"
  shows "shard_inv tracked invar (snd (Put P now h (Some e) s))"
  using Put_contents [OF shard_invD(1) [OF assms(1)] refl, of P now h e] entry_ok_meta [OF assms(2)]
    write_law [OF shard_invD(2) [OF assms(1)]] shard_invD(3) [OF assms(1)]
  by (simp add: shard_inv_def write_meta_def)

lemma PutWithVersion_shard_inv:
  assumes "shard_inv tracked invar s" and "entry_ok ok e"
  shows "shard_inv tracked invar (snd (PutWithVersion P now h (Some e) version s))"
  using publish_effect [OF shard_invD(1) [OF assms(1)] storedEntry_filed refl] entry_ok_meta [OF assms(2)] assms(1)
    write_law [OF shard_invD(2) [OF assms(1)]] shard_invD(3) [OF assms(1)]
  by (simp add: PutWithVersion_effect Let_def shard_inv_def write_meta_def)

lemma Delete_shard_inv:
  assumes "shard_inv tracked invar s"
  shows "shard_inv tracked invar (snd (Delete P model h s))"
  using Delete_effect [OF shard_invD(1) [OF assms], of P model h] evict_law [OF shard_invD(2) [OF assms]] assms
  by (auto simp: shard_inv_def)

lemma evict_shard_inv:
  assumes "shard_inv tracked invar s"
  shows "shard_inv tracked invar (snd (evict P k s))"
  using evict_effect [OF shard_invD(1) [OF assms], of P k] evict_law [OF shard_invD(2) [OF assms]] assms
  by (auto simp: shard_inv_def)

lemma Victim_shard_inv:
  assumes "shard_inv tracked invar s" and "Victim P (s_policy s) = (p, v)"
  shows "shard_inv tracked invar (s\<lparr>s_policy := p\<rparr>)"
  using victim_law [OF shard_invD(2) [OF assms(1)] assms(2)] assms(1)
  by (auto simp: shard_inv_def store_wf_def)

end

section \<open>Exact accounting\<close>

definition true_bytes :: "('p, 'x) Store \<Rightarrow> nat" where
  "true_bytes s = (\<Sum>st\<leftarrow>s_stripes s. gm_sum (\<lambda>_ e. length (e_KV e)) st)"

lemma stripe_entry_contents:
  assumes "stripes_ok s" and "st \<in> set (s_stripes s)" and "(k, e) \<in> set st"
  shows "contents s k = Some e"
proof -
  obtain i where i: "i < numStripes" "st = s_stripes s ! i"
    using assms(1,2) by (auto simp: in_set_conv_nth stripes_ok_def)
  moreover have "k \<in> gm_keys st" using assms(3) by (rule rev_image_eqI) simp
  ultimately have "gm_wf st" "stripeIdx s k = i" using assms(1) by (auto simp: stripes_ok_def)
  then show ?thesis using i(2) assms(3) by (simp add: contents_def stripeFor_def)
qed

lemma resident_true_bytes:
  assumes "store_wf s"
  shows "resident_bytes s = word_of_nat (true_bytes s)"
proof -
  have "stripe_bytes st = word_of_nat (gm_sum (\<lambda>_ e. length (e_KV e)) st)" if "st \<in> set (s_stripes s)" for st
  proof -
    have sz: "e_SizeBytes e = len64 (e_KV e)" if "(k, e) \<in> set st" for k e
      using stripe_entry_contents [OF store_wfD(1) [OF assms] \<open>st \<in> set (s_stripes s)\<close> that] store_wfD(3) [OF assms]
      by (simp add: entry_filed_def)
    have "gm_sum (\<lambda>_ e. e_SizeBytes e) l = word_of_nat (gm_sum (\<lambda>_ e. length (e_KV e)) l)" if "set l \<subseteq> set st" for l
      using that by (induction l) (auto simp: sz len64_def)
    then show ?thesis by (simp add: stripe_bytes_def)
  qed
  then have "(\<Sum>st\<leftarrow>l. stripe_bytes st) = word_of_nat (\<Sum>st\<leftarrow>l. gm_sum (\<lambda>_ e. length (e_KV e)) st)"
    if "set l \<subseteq> set (s_stripes s)" for l
    using that by (induction l) auto
  then show ?thesis by (simp add: resident_bytes_def true_bytes_def)
qed

lemma true_bytes_word: "store_wf s \<Longrightarrow> s_totalBytes s = word_of_nat (true_bytes s)"
  using resident_true_bytes store_wfD(2) by metis

lemma sint_small: "n < 2 ^ 63 \<Longrightarrow> sint (word_of_nat n :: int64) = int n"
  by (simp add: signed_of_nat signed_take_bit_int_eq_self)

text \<open>
  While the stored payloads sum to less than \<open>2 ^ 63\<close> bytes, \<^verbatim>\<open>Bytes()\<close> is exactly that sum.
\<close>

lemma Bytes_exact:
  assumes "store_wf s" and "true_bytes s < 2 ^ 63"
  shows "sint (Bytes s) = int (true_bytes s)"
  using true_bytes_word [OF assms(1)] sint_small [OF assms(2)] by (simp add: Bytes_def)

section \<open>Reads see the last write\<close>

lemma find_entry_Put_same:
  assumes "store_wf s"
  shows "find_entry (e_ModelID e) h (snd (Put P now h (Some e) s)) =
    Some (storedEntry h e (fst (Put P now h (Some e) s)) (put_created now (contents s (storeKey (e_ModelID e) h))))"
  using Put_contents [OF assms refl, of P now h e] by (simp add: find_entry_def)

text \<open>
  Property C19: a read right after a write of the same model and hash returns the written payload, tokens,
  tenant and cost, at the version the write returned; that version is 1 for a new block and one more
  than the previous one for an overwrite, whose creation time is kept.
\<close>

theorem Get_after_Put:
  assumes "store_wf s"
  shows "let k = storeKey (e_ModelID e) h; (v, s') = Put P now h (Some e) s
    in v = (case contents s k of None \<Rightarrow> 1 | Some prev \<Rightarrow> e_Version prev + 1) \<and>
       fst (Get P now' (e_ModelID e) h s') =
         Some (recordAccess now' \<lparr>e_TokenIDs = e_TokenIDs e, e_KV = e_KV e, e_ModelID = e_ModelID e, e_WireHash = h,
            e_Version = v, e_SizeBytes = word_of_nat (length (e_KV e)), e_TenantID = e_TenantID e,
            e_RecomputeCost = e_RecomputeCost e,
            e_CreatedAt = (case contents s k of None \<Rightarrow> now | Some prev \<Rightarrow> e_CreatedAt prev),
            e_accessCount = 0, e_lastAccessed = 0\<rparr>)"
  using find_entry_Put_same [OF assms, of e h P now] Put_contents(3) [OF assms refl, of P now h e]
  by (simp add: Let_def case_prod_unfold Get_effect put_version_def put_created_def storedEntry_def len64_def)

text \<open>
  Two (model, hash) pairs with 32-byte hashes share a store key only when they are equal or their
  concatenations are two distinct strings with one digest.
\<close>

definition key_collision :: "string \<Rightarrow> BlockHash \<Rightarrow> string \<Rightarrow> BlockHash \<Rightarrow> bool" where
  "key_collision m h m' h' \<longleftrightarrow>
     str_bytes m @ h \<noteq> str_bytes m' @ h' \<and> sha256 (str_bytes m @ h) = sha256 (str_bytes m' @ h')"

lemma storeKey_eq:
  assumes "length h = 32" and "length h' = 32" and "storeKey m h = storeKey m' h'"
  shows "m = m' \<and> h = h' \<or> key_collision m h m' h'"
  using assms by (auto simp: storeKey_def key_collision_def)

text \<open>
  Property C20: a write, a replicated write or a deletion of one block never changes what is found under
  another model or hash, except when the two keys collide under SHA-256.
\<close>

theorem store_isolation:
  assumes "store_wf s" and "length h = 32" and "length h' = 32"
    and "(e_ModelID e, h) \<noteq> (m', h')"
  shows "(Peek m' h' (snd (Put P now h (Some e) s)) = Peek m' h' s \<and>
     Peek m' h' (snd (PutWithVersion P now h (Some e) v s)) = Peek m' h' s \<and>
     Peek m' h' (snd (Delete P (e_ModelID e) h s)) = Peek m' h' s) \<or>
    key_collision (e_ModelID e) h m' h'"
proof (cases "key_collision (e_ModelID e) h m' h'")
  case False
  then have "storeKey m' h' \<noteq> storeKey (e_ModelID e) h"
    using storeKey_eq [OF assms(2,3), of "e_ModelID e" m'] assms(4) by auto
  then show ?thesis
    using Put_contents(2) [OF assms(1) refl, of P now h e] Delete_effect(3) [OF assms(1), of P "e_ModelID e" h]
      publish_effect(2) [OF assms(1) storedEntry_filed refl]
    by (simp add: Peek_find find_entry_def PutWithVersion_effect Let_def)
qed simp

section \<open>Replication\<close>

text \<open>One delivery to a replica: the time it arrives, the entry and the primary's version.\<close>

definition deliver :: "'p EvictionPolicy \<Rightarrow> BlockHash \<Rightarrow> time \<times> Entry \<times> uint64 \<Rightarrow> ('p, 'x) Store \<Rightarrow> ('p, 'x) Store" where
  "deliver P h = (\<lambda>(now, e, v) s. snd (PutWithVersion P now h (Some e) v s))"

definition replica_view :: "('p, 'x) Store \<Rightarrow> BlockHash \<Rightarrow> (uint64 \<times> bytes \<times> int32 list) option" where
  "replica_view s k = map_option (\<lambda>e. (e_Version e, e_KV e, e_TokenIDs e)) (contents s k)"

definition payload :: "Entry \<Rightarrow> bytes \<times> int32 list" where
  "payload e = (e_KV e, e_TokenIDs e)"

lemma deliver_wf: "store_wf s \<Longrightarrow> store_wf (deliver P h d s)"
  using publish_effect(1) [OF _ storedEntry_filed refl]
  by (auto simp: deliver_def PutWithVersion_effect Let_def split: prod.splits)

lemma deliver_view:
  assumes "store_wf s" and "d = (now, e, v)" and "v \<noteq> 0"
  shows "replica_view (deliver P h d s) (storeKey (e_ModelID e) h) =
    (case replica_view s (storeKey (e_ModelID e) h) of
       None \<Rightarrow> Some (v, payload e)
     | Some (v', x) \<Rightarrow> if v \<le> v' then Some (v', x) else Some (v, payload e))"
  using publish_effect(2) [OF assms(1) storedEntry_filed refl] assms(2,3)
  by (auto simp: replica_view_def deliver_def PutWithVersion_effect Let_def payload_def split: option.splits)

text \<open>On the view a delivery is a maximum by version, so a sequence of them ends with a greatest candidate.\<close>

definition newer :: "uint64 \<times> 'a \<Rightarrow> (uint64 \<times> 'a) option \<Rightarrow> (uint64 \<times> 'a) option" where
  "newer c o' = (case o' of None \<Rightarrow> Some c | Some c' \<Rightarrow> if fst c \<le> fst c' then Some c' else Some c)"

text \<open>\<open>greatest_of C r\<close>: \<open>r\<close> is an element of \<open>C\<close> with the highest version, or nothing when \<open>C\<close> is empty.\<close>

definition greatest_of :: "(uint64 \<times> 'a) set \<Rightarrow> (uint64 \<times> 'a) option \<Rightarrow> bool" where
  "greatest_of C r \<longleftrightarrow> (r = None \<longleftrightarrow> C = {}) \<and> (\<forall>c. r = Some c \<longrightarrow> c \<in> C \<and> (\<forall>c' \<in> C. fst c' \<le> fst c))"

lemma greatest_of_newer:
  assumes "greatest_of C r"
  shows "greatest_of (insert c C) (newer c r)"
proof (cases r)
  case None
  then show ?thesis using assms by (simp add: greatest_of_def newer_def)
next
  case (Some c')
  then show ?thesis
    using assms by (auto simp: greatest_of_def newer_def intro: order_trans)
qed

lemma fold_newer: "greatest_of C r \<Longrightarrow> greatest_of (set cs \<union> C) (fold newer cs r)"
proof (induction cs arbitrary: C r)
  case (Cons c cs)
  then show ?case using Cons.IH [OF greatest_of_newer [OF Cons.prems, of c]] by simp
qed simp

lemma greatest_of_unique:
  assumes "greatest_of C r" and "greatest_of C r'" and "\<And>v x y. (v, x) \<in> C \<Longrightarrow> (v, y) \<in> C \<Longrightarrow> x = y"
  shows "r = r'"
proof (cases r)
  case None
  then show ?thesis using assms(1,2) by (simp add: greatest_of_def)
next
  case (Some c)
  then obtain c' where c': "r' = Some c'" using assms(1,2) by (cases r') (auto simp: greatest_of_def)
  have "c \<in> C" "c' \<in> C" "fst c = fst c'"
    using assms(1,2) Some c' by (auto simp: greatest_of_def intro: antisym)
  then show ?thesis using assms(3) Some c' by (metis prod.collapse)
qed

lemma greatest_of_ge: "greatest_of C r \<Longrightarrow> (v, x) \<in> C \<Longrightarrow> \<exists>v' x'. r = Some (v', x') \<and> v \<le> v'"
  by (cases r) (fastforce simp: greatest_of_def)+

lemma greatest_of_option: "greatest_of (set_option r) r"
  by (cases r) (auto simp: greatest_of_def)

lemma deliveries_view:
  assumes "store_wf s" and "\<forall>(now, e, v) \<in> set ds. e_ModelID e = m \<and> v \<noteq> 0"
  shows "store_wf (fold (deliver P h) ds s) \<and>
    replica_view (fold (deliver P h) ds s) (storeKey m h) =
      fold newer (map (\<lambda>(now, e, v). (v, payload e)) ds) (replica_view s (storeKey m h))"
  using assms
proof (induction ds arbitrary: s)
  case (Cons d ds)
  obtain now e v where d: "d = (now, e, v)" by (cases d)
  have ev: "e_ModelID e = m" "v \<noteq> 0" using Cons.prems(2) by (auto simp: d)
  have "replica_view (deliver P h d s) (storeKey m h) = newer (v, payload e) (replica_view s (storeKey m h))"
    using deliver_view [OF Cons.prems(1) d ev(2), of P h] ev(1) by (auto simp: newer_def split: option.splits)
  then show ?case
    using Cons.IH [OF deliver_wf [OF Cons.prems(1)], of P h d] Cons.prems(2) by (simp add: d)
qed simp

text \<open>
  Property C18: replicas converge. Two replicas that start from the same store and receive the same set of
  deliveries for a block, in any order and any multiplicity, with versions that determine their payload,
  end with the same version, payload and tokens for it, and that version is the highest one seen.
\<close>

theorem replicas_converge:
  assumes "store_wf s" and "\<forall>(now, e, v) \<in> set ds. e_ModelID e = m \<and> v \<noteq> 0"
    and "\<forall>(now, e, v) \<in> set ds. \<forall>(now', e', v') \<in> set ds. v = v' \<longrightarrow> payload e = payload e'"
    and "\<forall>(now, e, v) \<in> set ds. \<forall>(v', x) \<in> set_option (replica_view s (storeKey m h)). v = v' \<longrightarrow> payload e = x"
    and "set ds' = set ds"
  shows "replica_view (fold (deliver P h) ds' s) (storeKey m h) = replica_view (fold (deliver P h) ds s) (storeKey m h)
    \<and> (\<forall>(now, e, v) \<in> set ds. \<exists>v' x. replica_view (fold (deliver P h) ds s) (storeKey m h) = Some (v', x) \<and> v \<le> v')"
proof -
  let ?f = "\<lambda>(now, e, v). (v, payload e)" and ?o = "replica_view s (storeKey m h)"
  have v: "replica_view (fold (deliver P h) ds s) (storeKey m h) = fold newer (map ?f ds) ?o"
    "replica_view (fold (deliver P h) ds' s) (storeKey m h) = fold newer (map ?f ds') ?o"
    using deliveries_view [OF assms(1,2)] deliveries_view [OF assms(1), of ds' m P h] assms(2,5) by simp_all
  let ?C = "set_option ?o \<union> ?f ` set ds"
  have a3: "payload e = payload e'" if "(n, e, w) \<in> set ds" "(n', e', w) \<in> set ds" for n e n' e' w
    using assms(3) that by blast
  have a4: "payload e = x" if "(n, e, w) \<in> set ds" "?o = Some (w, x)" for n e w x
    using assms(4) that by fastforce
  have uniq: "x = y" if "(w, x) \<in> ?C" "(w, y) \<in> ?C" for w x y
  proof -
    have "?o = Some (w, z) \<or> (\<exists>n e. (n, e, w) \<in> set ds \<and> z = payload e)" if "(w, z) \<in> ?C" for z
      using that by auto
    from this [OF that(1)] this [OF that(2)] show ?thesis
      by (elim disjE exE conjE) (simp, metis a4, metis a4, metis a3)
  qed
  have g: "greatest_of ?C (fold newer (map ?f ds) ?o)" "greatest_of ?C (fold newer (map ?f ds') ?o)"
    using fold_newer [OF greatest_of_option, of "map ?f ds" ?o] fold_newer [OF greatest_of_option, of "map ?f ds'" ?o]
    by (simp_all add: assms(5) Un_commute)
  have "fold newer (map ?f ds') ?o = fold newer (map ?f ds) ?o"
    by (rule greatest_of_unique [OF g(2,1) uniq])
  moreover have "\<exists>v' x. fold newer (map ?f ds) ?o = Some (v', x) \<and> v \<le> v'" if "(now, e, v) \<in> set ds" for now e v
  proof -
    have c: "(v, payload e) \<in> ?C" using that by force
    show ?thesis by (rule greatest_of_ge [OF g(1) c])
  qed
  ultimately show ?thesis unfolding v by auto
qed

text \<open>
  Property C40: the primary does not remember versions of blocks it no longer holds. A block written again
  after its eviction restarts at version 1, and a replica that still holds any version of it keeps its old
  payload: the replicated rewrite is dropped as stale.
\<close>

theorem rewrite_after_eviction_is_stale:
  assumes "store_wf primary" and "k = storeKey (e_ModelID e) h"
    and "contents replica k = Some old" and "e_Version old \<noteq> 0"
  shows "fst (Put P now h (Some e) (snd (evict P k primary))) = 1 \<and>
    PutWithVersion Q now' h (Some e) 1 replica = (e_Version old, replica)"
proof -
  have "contents (snd (evict P k primary)) k = None" using evict_effect(2) [OF assms(1)] by simp
  moreover have "(1 :: uint64) \<le> e_Version old" using assms(4) by (metis One_nat_def Suc_leI unat_1 unat_gt_0 word_le_nat_alt)
  ultimately show ?thesis
    using Put_contents(3) [OF evict_effect(1) [OF assms(1), of P k] assms(2), of P now] assms(2,3)
    by (simp add: put_version_def PutWithVersion_effect Let_def)
qed

section \<open>Watermarks\<close>

lemma rnd_quarters: "rnd (3 / 4) = Fin (3 / 4)" "rnd (7 / 8) = Fin (7 / 8)"
proof -
  have "pow2 0 = 1" "pow2 (-2) = 1 / 4" "pow2 (-3) = 1 / 8"
    by (simp_all add: pow2_def power_int_minus)
  moreover have "ilog2 (3 / 4) < 0" "ilog2 (7 / 8) < 0"
    by (rule ilog2_less; simp add: pow2_def)+
  ultimately have "rnd_rat (3 / 4) = 3 / 4" "rnd_rat (7 / 8) = 7 / 8"
    using rnd_rat_exact [of "3 / 4" 3 "-2"] rnd_rat_exact [of "7 / 8" 7 "-3"] by simp_all
  then show "rnd (3 / 4) = Fin (3 / 4)" "rnd (7 / 8) = Fin (7 / 8)"
    by (simp_all add: rnd_def divide_le_eq le_divide_eq)
qed

definition fracs_ok :: "f64 \<Rightarrow> f64 \<Rightarrow> bool" where
  "fracs_ok hi lo \<longleftrightarrow> 0 < hi \<and> hi \<le> 1 \<and> 0 < lo \<and> lo < hi"

lemma default_fracs_ok: "fracs_ok defaultHiFrac defaultLoFrac"
proof -
  have "rnd (7 / 8) \<le> rnd (9 / 10)" "rnd (9 / 10) \<le> rnd 1" by (intro rnd_mono; simp)+
  then show ?thesis
    by (cases "rnd (9 / 10)")
      (auto simp: rnd_quarters fracs_ok_def defaultHiFrac_def defaultLoFrac_def f64_le_iff f64_less_iff
        zero_f64_def one_f64_def)
qed

lemma water_level:
  assumes "0 < M" and "M < 2 ^ 53" and "0 \<le> f" and "f \<le> 1"
  obtains y where "f64_of_int M * Fin f = Fin y" "0 \<le> y" "y \<le> of_int M"
    "sint (int64_of_f64 (f64_of_int M * Fin f)) = \<lfloor>y\<rfloor>"
proof -
  have M: "f64_of_int M = Fin (of_int M)" using rnd_of_int_exact [of M] assms(1,2) by (simp add: f64_of_int_def)
  have "of_int M * f \<le> of_int M" using assms mult_left_le [of f "of_int M :: rat"] by simp
  then have "rnd (of_int M * f) \<le> Fin (of_int M)" "0 \<le> rnd (of_int M * f)"
    using rnd_mono [of "of_int M * f" "of_int M"] M rnd_nonneg [of "of_int M * f"] assms by (simp_all add: f64_of_int_def)
  then obtain y where y: "rnd (of_int M * f) = Fin y" "0 \<le> y" "y \<le> of_int M"
    by (cases "rnd (of_int M * f)") (auto simp: f64_le_iff zero_f64_def)
  have fl: "0 \<le> \<lfloor>y\<rfloor>" "\<lfloor>y\<rfloor> \<le> M" using y(2,3) floor_mono [OF y(3)] by simp_all
  have "of_int M < (of_int (2 ^ 53) :: rat)" using assms(2) by (simp only: of_int_less_iff)
  then have "y < 2 ^ 53" using y(3) by simp
  then have "sint (int64_of_f64 (Fin y)) = \<lfloor>y\<rfloor>"
    using fl assms(2) y(2) by (simp add: int64_of_f64_def trunc_rat_def signed_take_bit_int_eq_self signed_of_int)
  then show thesis using that y M by (simp add: times_f64_def)
qed

lemma NewStore_levels:
  assumes "0 < sint (s_maxBytes (NewStore p x opts))" and "sint (s_maxBytes (NewStore p x opts)) < 2 ^ 53"
  shows "let s = NewStore p x opts in
    0 < s_loFrac s \<and> s_loFrac s < s_hiFrac s \<and> s_hiFrac s \<le> 1 \<and>
    0 \<le> sint (s_loWater s) \<and> sint (s_loWater s) \<le> sint (s_hiWater s) \<and> sint (s_hiWater s) \<le> sint (s_maxBytes s)"
proof -
  define s where "s = NewStore p x opts"
  let ?M = "sint (s_maxBytes s)"
  have fr: "fracs_ok (s_hiFrac s) (s_loFrac s)"
    using default_fracs_ok by (simp add: s_def NewStore_def Let_def fracs_ok_def)
  have lvl: "s_hiWater s = int64_of_f64 (f64_of_int ?M * s_hiFrac s)" "s_loWater s = int64_of_f64 (f64_of_int ?M * s_loFrac s)"
    using assms(1) by (auto simp: s_def NewStore_def Let_def slt64_def)
  obtain hi lo where f: "s_hiFrac s = Fin hi" "s_loFrac s = Fin lo" "0 < lo" "lo < hi" "hi \<le> 1"
    using fr by (cases "s_hiFrac s"; cases "s_loFrac s") (auto simp: fracs_ok_def f64_less_iff f64_le_iff zero_f64_def one_f64_def)
  have M: "0 < ?M" "?M < 2 ^ 53" using assms by (simp_all add: s_def)
  obtain a where a: "f64_of_int ?M * Fin hi = Fin a" "a \<le> of_int ?M" "sint (s_hiWater s) = \<lfloor>a\<rfloor>"
    using water_level [OF M, of hi] f lvl by auto
  obtain b where b: "f64_of_int ?M * Fin lo = Fin b" "0 \<le> b" "sint (s_loWater s) = \<lfloor>b\<rfloor>"
    using water_level [OF M, of lo] f lvl by auto
  have "(0 :: rat) \<le> of_int ?M" using M(1) by (simp only: of_int_0_le_iff)
  then have "of_int ?M * lo \<le> of_int ?M * hi" using f(4) by (intro mult_left_mono) simp_all
  then have "Fin b \<le> Fin a"
    using rnd_mono [of "of_int ?M * lo" "of_int ?M * hi"] a(1) b(1) M rnd_of_int_exact [of ?M]
    by (simp add: f64_of_int_def times_f64_def)
  then have "\<lfloor>b\<rfloor> \<le> \<lfloor>a\<rfloor>" by (simp add: f64_le_iff floor_mono)
  moreover have "\<lfloor>a\<rfloor> \<le> ?M" using floor_mono [OF a(2)] unfolding floor_of_int .
  ultimately show ?thesis
    using fr a b by (simp add: s_def [symmetric] Let_def fracs_ok_def)
qed

text \<open>
  Whatever options a store is built with, the fractions end up as \<open>0 < lo < hi <= 1\<close>, and a
  positive limit below \<open>2 ^ 53\<close> bytes gives watermarks with \<open>0 <= loWater <= hiWater <= maxBytes\<close>.
\<close>

lemma NewStore_watermarks:
  assumes "0 < sint (s_maxBytes (NewStore p x opts))" and "sint (s_maxBytes (NewStore p x opts)) < 2 ^ 53"
  shows "let s = NewStore p x opts in
    0 < s_loFrac s \<and> s_loFrac s < s_hiFrac s \<and> s_hiFrac s \<le> 1 \<and>
    0 \<le> sint (s_loWater s) \<and> sint (s_loWater s) \<le> sint (s_hiWater s) \<and> sint (s_hiWater s) \<le> sint (s_maxBytes s)"
  by (rule NewStore_levels [OF assms])

section \<open>The idle sweep\<close>

lemma distinct_concat_indexed:
  assumes "\<And>i. i < length xss \<Longrightarrow> distinct (xss ! i)" and "\<And>i x. i < length xss \<Longrightarrow> x \<in> set (xss ! i) \<Longrightarrow> f x = i + n"
  shows "distinct (concat xss)"
  using assms
proof (induction xss arbitrary: n)
  case (Cons xs xss)
  have "distinct (concat xss)"
    using Cons.prems by (intro Cons.IH [of "Suc n"]) fastforce+
  moreover have "x \<notin> set ys" if x: "x \<in> set xs" and ys: "ys \<in> set xss" for x ys
  proof
    assume "x \<in> set ys"
    obtain i where "i < length xss" "ys = xss ! i" using ys by (auto simp: in_set_conv_nth)
    then have "f x = Suc i + n" using Cons.prems(2) [of "Suc i" x] \<open>x \<in> set ys\<close> by simp
    moreover have "f x = n" using Cons.prems(2) [of 0 x] x by simp
    ultimately show False by simp
  qed
  ultimately show ?case using Cons.prems(1) [of 0] by auto
qed simp

definition idle :: "time \<Rightarrow> Entry option \<Rightarrow> bool" where
  "idle cutoff eo \<longleftrightarrow> (\<exists>e. eo = Some e \<and> idleSince e < cutoff)"

lemma sweepVictims_spec:
  assumes "stripes_ok s"
  shows "distinct (sweepVictims cutoff s)" "set (sweepVictims cutoff s) = {k. idle cutoff (contents s k)}"
proof -
  note len = stripes_okD(1) [OF assms]
  let ?f = "\<lambda>st. map fst (filter (\<lambda>(h, e). idleSince e < cutoff) st)"
  have st: "gm_wf (s_stripes s ! i)" "k \<in> gm_keys (s_stripes s ! i) \<Longrightarrow> stripeIdx s k = i" if "i < numStripes" for i k
    using assms that by (auto simp: stripes_ok_def)
  show "distinct (sweepVictims cutoff s)"
    unfolding sweepVictims_def
    by (rule distinct_concat_indexed [where f = "stripeIdx s" and n = 0])
      (use st len in \<open>auto simp: distinct_map_filter\<close>)
  show "set (sweepVictims cutoff s) = {k. idle cutoff (contents s k)}"
  proof (intro equalityI subsetI)
    fix k assume "k \<in> set (sweepVictims cutoff s)"
    then obtain stp e where "stp \<in> set (s_stripes s)" "(k, e) \<in> set stp" "idleSince e < cutoff"
      by (auto simp: sweepVictims_def)
    then show "k \<in> {k. idle cutoff (contents s k)}"
      using stripe_entry_contents [OF assms] by (auto simp: idle_def)
  next
    fix k assume "k \<in> {k. idle cutoff (contents s k)}"
    then obtain e where e: "contents s k = Some e" "idleSince e < cutoff" by (auto simp: idle_def)
    then have "(k, e) \<in> set (stripeFor s k)" by (auto simp: contents_def dest: map_of_SomeD)
    moreover have "stripeFor s k \<in> set (s_stripes s)"
      using stripeIdx_less [OF len, of k] len by (simp add: stripeFor_def)
    ultimately show "k \<in> set (sweepVictims cutoff s)"
      using e(2) by (force simp: sweepVictims_def)
  qed
qed

lemma sweep_fold:
  assumes "store_wf s" and "distinct vs"
  shows "store_wf (snd (fold (sweepStep P) vs (n, s))) \<and>
    contents (snd (fold (sweepStep P) vs (n, s))) = (\<lambda>k. if k \<in> set vs then None else contents s k) \<and>
    fst (fold (sweepStep P) vs (n, s)) =
      n + length (filter (\<lambda>k. slt64 0 (case contents s k of None \<Rightarrow> 0 | Some e \<Rightarrow> e_SizeBytes e)) vs)"
  using assms(1,2)
proof (induction vs arbitrary: n s)
  case Nil
  then show ?case by simp
next
  case (Cons h vs)
  note ev = evict_effect [OF Cons.prems(1), of P h]
  let ?n = "if slt64 0 (fst (evict P h s)) then n + 1 else n"
  have st: "sweepStep P h (n, s) = (?n, snd (evict P h s))" by (simp add: sweepStep_def case_prod_unfold Let_def)
  have "filter (\<lambda>k. slt64 0 (case contents (snd (evict P h s)) k of None \<Rightarrow> 0 | Some e \<Rightarrow> e_SizeBytes e)) vs =
      filter (\<lambda>k. slt64 0 (case contents s k of None \<Rightarrow> 0 | Some e \<Rightarrow> e_SizeBytes e)) vs"
    using Cons.prems(2) by (intro filter_cong) (auto simp: ev(2))
  then show ?case
    using Cons.IH [OF ev(1), of ?n] Cons.prems(2) ev(2,3) by (auto simp: st fun_eq_iff)
qed

text \<open>
  A sweep with a positive TTL drops exactly the entries not read (or, if never read, not
  created) within the TTL, and reports the number of dropped entries whose payload is not empty.
\<close>

lemma sweepIdle_spec:
  assumes "store_wf s" and "0 < ttl"
  shows "store_wf (snd (sweepIdle P now ttl s)) \<and>
    contents (snd (sweepIdle P now ttl s)) = (\<lambda>k. if idle (now - ttl) (contents s k) then None else contents s k) \<and>
    fst (sweepIdle P now ttl s) =
      card {k. \<exists>e. contents s k = Some e \<and> idleSince e < now - ttl \<and> slt64 0 (e_SizeBytes e)}"
proof -
  note v = sweepVictims_spec [OF store_wfD(1) [OF assms(1)], of "now - ttl"]
  let ?nz = "\<lambda>k. slt64 0 (case contents s k of None \<Rightarrow> 0 | Some e \<Rightarrow> e_SizeBytes e)"
  have "length (filter ?nz (sweepVictims (now - ttl) s)) = card ({k. ?nz k} \<inter> {k. idle (now - ttl) (contents s k)})"
    using distinct_length_filter [OF v(1), of ?nz] v(2) by (simp add: Int_commute)
  also have "{k. ?nz k} \<inter> {k. idle (now - ttl) (contents s k)} =
      {k. \<exists>e. contents s k = Some e \<and> idleSince e < now - ttl \<and> slt64 0 (e_SizeBytes e)}"
    by (auto simp: idle_def)
  finally show ?thesis
    using sweep_fold [OF assms(1) v(1), of P 0] assms(2) v(2) by (simp add: sweepIdle_def)
qed

section \<open>A concrete shard\<close>

lemma empty_store_wf:
  assumes "s_stripes s = replicate numStripes []" and "s_totalBytes s = 0"
  shows "store_wf s" and "contents s = Map.empty"
proof -
  have c: "contents s k = None" for k
    using assms stripeIdx_less [of s k] by (simp add: contents_def stripeFor_def)
  then show "contents s = Map.empty" by auto
  have "(\<Sum>st\<leftarrow>replicate n []. stripe_bytes st) = 0" for n
    by (induction n) (simp_all add: stripe_bytes_def)
  then show "store_wf s"
    using assms c by (simp add: store_wf_def stripes_ok_def resident_bytes_def)
qed

lemma NewStore_default_wf: "store_wf (NewStore p x [])" "contents (NewStore p x []) = Map.empty"
  using empty_store_wf [OF NewStore_stripes [of "[]"]] by simp_all

definition ex_entry :: Entry where
  "ex_entry = \<lparr>e_TokenIDs = [7, 8], e_KV = [1, 2, 3], e_ModelID = ''m'', e_WireHash = [], e_Version = 0,
     e_SizeBytes = 0, e_TenantID = ''t'', e_RecomputeCost = Fin 1, e_CreatedAt = 0, e_accessCount = 0,
     e_lastAccessed = 0\<rparr>"

definition ex_hash :: BlockHash where
  "ex_hash = replicate 32 0"

definition ex_store :: "(unit, unit) Store" where
  "ex_store = snd (Put NoopPolicy 5 ex_hash (Some ex_entry) (NewStore () () []))"

lemma ex_store_wf: "store_wf ex_store"
  using Put_contents(1) [OF NewStore_default_wf(1) [of "()" "()"] refl] by (simp add: ex_store_def)

lemma ex_store_contents:
  "contents ex_store = [storeKey ''m'' ex_hash \<mapsto> storedEntry ex_hash ex_entry 1 5]"
  using Put_contents(2) [OF NewStore_default_wf(1) [of "()" "()"] refl, where P = NoopPolicy and now = 5 and h = ex_hash and e = ex_entry]
  by (simp add: ex_store_def NewStore_default_wf(2) put_version_def put_created_def) (simp add: ex_entry_def)

lemma ex_store_true_bytes: "true_bytes ex_store = 3"
proof -
  let ?s = "NewStore () () [] :: (unit, unit) Store"
  have st: "s_stripes ?s = replicate 16 []"
    using NewStore_stripes(1) [of "[]" "()" "()"] by (simp add: numStripes_def)
  define i where "i = stripeIdx ?s (storeKey (e_ModelID ex_entry) ex_hash)"
  have i: "i < 16" using stripeIdx_less [of ?s] st by (simp add: i_def numStripes_def)
  have "s_stripes ex_store = (replicate 16 [])[i := [(storeKey (e_ModelID ex_entry) ex_hash, storedEntry ex_hash ex_entry 1 5)]]"
    using i by (simp add: ex_store_def Put_effect Let_def NewStore_default_wf(2) put_version_def put_created_def publish_def
        setStripe_def stripeFor_def st i_def [symmetric])
  also have "\<dots> = replicate i [] @ [(storeKey (e_ModelID ex_entry) ex_hash, storedEntry ex_hash ex_entry 1 5)] #
      replicate (15 - i) []"
    using i by (simp add: upd_conv_take_nth_drop)
  finally show ?thesis
    by (simp add: true_bytes_def sum_list_replicate) (simp add: ex_entry_def)
qed

theorem Get_after_Put_witness:
  "map_option e_KV (fst (Get NoopPolicy 9 ''m'' ex_hash ex_store)) = Some [1, 2, 3]"
  using Get_after_Put [OF NewStore_default_wf(1) [of "()" "()"], where P = NoopPolicy and now = 5 and h = ex_hash and e = ex_entry and now' = 9]
  by (simp add: ex_store_def Let_def case_prod_unfold) (simp add: ex_entry_def)

theorem store_isolation_witness:
  "Peek ''m'' ex_hash (snd (Delete NoopPolicy ''m'' ex_hash ex_store)) = None \<and>
   (Peek ''n'' ex_hash (snd (Delete NoopPolicy ''m'' ex_hash ex_store)) = Peek ''n'' ex_hash ex_store \<or>
     key_collision ''m'' ex_hash ''n'' ex_hash)"
proof -
  have "e_ModelID ex_entry = ''m''" "length ex_hash = 32" by (simp_all add: ex_entry_def ex_hash_def)
  moreover have "Peek ''m'' ex_hash (snd (Delete NoopPolicy ''m'' ex_hash ex_store)) = None"
    using Delete_effect(3) [OF ex_store_wf, of NoopPolicy "''m''" ex_hash] by (auto simp: Peek_find find_entry_def)
  ultimately show ?thesis
    using store_isolation [OF ex_store_wf, where h = ex_hash and h' = ex_hash and e = ex_entry and m' = "''n''"
      and P = NoopPolicy and now = 0 and v = 1] by auto
qed

theorem replicas_converge_witness:
  "replica_view (fold (deliver NoopPolicy ex_hash) [(1, ex_entry, 3), (2, ex_entry, 2)] ex_store) (storeKey ''m'' ex_hash) =
   replica_view (fold (deliver NoopPolicy ex_hash) [(2, ex_entry, 2), (1, ex_entry, 3), (1, ex_entry, 3)] ex_store)
     (storeKey ''m'' ex_hash)"
proof -
  have "e_ModelID ex_entry = ''m''" by (simp add: ex_entry_def)
  moreover have "replica_view ex_store (storeKey ''m'' ex_hash) = Some (1, payload ex_entry)"
    by (simp add: replica_view_def ex_store_contents payload_def)
  ultimately show ?thesis
    using replicas_converge [OF ex_store_wf, where ds = "[(2, ex_entry, 2), (1, ex_entry, 3), (1, ex_entry, 3)]"
      and m = "''m''" and h = ex_hash and ds' = "[(1, ex_entry, 3), (2, ex_entry, 2)]" and P = NoopPolicy] by auto
qed

theorem rewrite_after_eviction_is_stale_witness:
  "PutWithVersion NoopPolicy 6 ex_hash (Some ex_entry) 1 ex_store = (1, ex_store)"
  using rewrite_after_eviction_is_stale [OF ex_store_wf refl, where replica = ex_store and h = ex_hash and e = ex_entry
      and old = "storedEntry ex_hash ex_entry 1 5" and P = NoopPolicy and Q = NoopPolicy and now = 6 and now' = 6]
  by (simp add: ex_store_contents ex_entry_def)

end
