(* ===== verification/Cold_Tier.thy ===== *)
theory Cold_Tier
  imports Cache_Types
begin

text \<open>
  \<^verbatim>\<open>internal/coldtier\<close>: the cold storage tier evicted blocks are spilled to. \<^verbatim>\<open>coldtier.go\<close> gives the object
  key, the framing and the in-memory tier, \<^verbatim>\<open>s3.go\<close> the queue and the worker pool over S3. S3 is a service:
  the outcome of a \<^verbatim>\<open>GetObject\<close> is a parameter, and an upload is a step that may succeed or fail.
\<close>

section \<open>Object keys and framing (coldtier.go)\<close>

text \<open>\<^verbatim>\<open>hex.EncodeToString\<close>.\<close>

definition hexDigit :: "byte \<Rightarrow> char" where
  "hexDigit d = ''0123456789abcdef'' ! unat d"

definition hexEncode :: "bytes \<Rightarrow> string" where
  "hexEncode bs = concat (map (\<lambda>b. [hexDigit (drop_bit 4 b), hexDigit (take_bit 4 b)]) bs)"

definition objectKey :: "string \<Rightarrow> BlockHash \<Rightarrow> string" where
  "objectKey model h = ''blocks/'' @ model @ ''/'' @ hexEncode h"

definition magic :: bytes where
  "magic = str_bytes ''KVC1''"

definition headerMin :: nat where
  "headerMin = 4 + 8 + 4"

text \<open>The buffer is filled left to right by consecutive writes.\<close>

definition encode :: "uint64 \<Rightarrow> int32 list \<Rightarrow> bytes \<Rightarrow> bytes" where
  "encode version tokenIDs kv =
     magic @ le_bytes 8 version @ le_bytes 4 (word_of_nat (length tokenIDs) :: uint32) @
     concat (map (le_bytes 4) tokenIDs) @ kv"

datatype cold_error = BadHeader | TokenOverrun nat nat | Storage string

primrec readTokens :: "nat \<Rightarrow> nat \<Rightarrow> bytes \<Rightarrow> int32 list" where
  "readTokens 0 off blob = []"
| "readTokens (Suc n) off blob = le_word (take 4 (drop off blob)) # readTokens n (off + 4) blob"

definition decode :: "bytes \<Rightarrow> cold_error + uint64 \<times> int32 list \<times> bytes" where
  "decode blob =
     (if length blob < headerMin \<or> take 4 blob \<noteq> magic then Inl BadHeader
      else let version = le_word (take 8 (drop 4 blob));
               n = unat (le_word (take 4 (drop 12 blob)) :: uint32)
           in if length blob < 16 + 4 * n then Inl (TokenOverrun n (length blob))
              else Inr (version, readTokens n 16 blob, drop (16 + 4 * n) blob))"

text \<open>A lookup in a tier is an error, a clean miss, or the payload with its version and tokens.\<close>

type_synonym cold_result = "cold_error + (bytes \<times> uint64 \<times> int32 list) option"

definition decoded :: "bytes \<Rightarrow> cold_result" where
  "decoded blob = (case decode blob of Inl err \<Rightarrow> Inl err | Inr (version, tokenIDs, kv) \<Rightarrow> Inr (Some (kv, version, tokenIDs)))"

section \<open>The in-memory tier\<close>

type_synonym Memory = "(string, bytes) gomap"

definition NewMemory :: Memory where
  "NewMemory = []"

definition mem_Spill :: "string \<Rightarrow> BlockHash \<Rightarrow> uint64 \<Rightarrow> int32 list \<Rightarrow> bytes \<Rightarrow> Memory \<Rightarrow> Memory" where
  "mem_Spill model h version tokenIDs kv t = gm_put (objectKey model h) (encode version tokenIDs kv) t"

definition mem_Get :: "Memory \<Rightarrow> string \<Rightarrow> BlockHash \<Rightarrow> cold_result" where
  "mem_Get t model h = (case gm_get t (objectKey model h) of None \<Rightarrow> Inr None | Some blob \<Rightarrow> decoded blob)"

section \<open>The S3 tier (s3.go)\<close>

definition defaultSpillWorkers :: nat where
  "defaultSpillWorkers = 4"

definition defaultSpillQueue :: nat where
  "defaultSpillQueue = 256"

record spillJob =
  sj_model :: string
  sj_hash :: BlockHash
  sj_version :: uint64
  sj_tokenIDs :: "int32 list"
  sj_kv :: bytes

record S3Tier =
  t_bucket :: string
  t_jobs :: "spillJob list"
  t_closed :: bool
  t_dropped :: int64

definition newS3WithClient :: "string \<Rightarrow> S3Tier" where
  "newS3WithClient bucket = \<lparr>t_bucket = bucket, t_jobs = [], t_closed = False, t_dropped = 0\<rparr>"

text \<open>\<open>config\<close> is the outcome of loading the SDK configuration, from which the client is made.\<close>

definition NewS3 :: "string option \<Rightarrow> string \<Rightarrow> string + S3Tier" where
  "NewS3 config bucket = (case config of Some err \<Rightarrow> Inl err | None \<Rightarrow> Inr (newS3WithClient bucket))"

text \<open>A send on the closed channel panics: \<^term>\<open>None\<close>.\<close>

definition s3_Spill :: "spillJob \<Rightarrow> S3Tier \<Rightarrow> S3Tier option" where
  "s3_Spill job t =
     (if t_closed t then None
      else if length (t_jobs t) < defaultSpillQueue then Some (t\<lparr>t_jobs := t_jobs t @ [job]\<rparr>)
      else Some (t\<lparr>t_dropped := t_dropped t + 1\<rparr>))"

text \<open>The request a worker makes for a job: key and body.\<close>

definition s3_upload :: "spillJob \<Rightarrow> string \<times> bytes" where
  "s3_upload job = (objectKey (sj_model job) (sj_hash job), encode (sj_version job) (sj_tokenIDs job) (sj_kv job))"

datatype GetObjectOutput = NoSuchKeyErr | NotFoundErr | GetFailed string | Body "string + bytes"

definition s3_Get :: "(string \<Rightarrow> GetObjectOutput) \<Rightarrow> string \<Rightarrow> BlockHash \<Rightarrow> cold_result" where
  "s3_Get getObject model h =
     (case getObject (objectKey model h) of
        NoSuchKeyErr \<Rightarrow> Inr None
      | NotFoundErr \<Rightarrow> Inr None
      | GetFailed e \<Rightarrow> Inl (Storage e)
      | Body (Inl e) \<Rightarrow> Inl (Storage e)
      | Body (Inr blob) \<Rightarrow> decoded blob)"

definition Dropped :: "S3Tier \<Rightarrow> int64" where
  "Dropped t = t_dropped t"

text \<open>Closing the channel twice panics.\<close>

definition s3_Close :: "S3Tier \<Rightarrow> S3Tier option" where
  "s3_Close t = (if t_closed t then None else Some (t\<lparr>t_closed := True\<rparr>))"

section \<open>Round trip of the framing\<close>

lemma hexDigit_inj:
  assumes "x < 16" and "y < 16" and "hexDigit x = hexDigit y"
  shows "x = y"
proof -
  have "unat x < 16" "unat y < 16" using assms(1,2) by (simp_all add: word_less_nat_alt)
  moreover have "distinct ''0123456789abcdef''" by simp
  ultimately have "unat x = unat y" using assms(3) nth_eq_iff_index_eq [of "''0123456789abcdef''"] by (simp add: hexDigit_def)
  then show ?thesis by (rule unsigned_word_eqI)
qed

lemma hexEncode_byte: "hexDigit (drop_bit 4 a) = hexDigit (drop_bit 4 b) \<Longrightarrow> hexDigit (take_bit 4 a) = hexDigit (take_bit 4 b) \<Longrightarrow> a = b"
proof -
  assume h: "hexDigit (drop_bit 4 a) = hexDigit (drop_bit 4 b)" and l: "hexDigit (take_bit 4 a) = hexDigit (take_bit 4 b)"
  have "drop_bit 4 w < 16" "take_bit 4 w < 16" for w :: byte
    using unsigned_less [of w, where 'a = nat]
    by (simp_all add: word_less_nat_alt take_bit_eq_mod drop_bit_eq_div unat_div unat_mod)
  then have "drop_bit 4 a = drop_bit 4 b" "take_bit 4 a = take_bit 4 b" using h l hexDigit_inj by blast+
  then show "a = b" by (metis bits_ident)
qed

lemma hexEncode_inj: "length a = length b \<Longrightarrow> hexEncode a = hexEncode b \<Longrightarrow> a = b"
proof (induction a b rule: list_induct2)
  case (Cons x xs y ys)
  then show ?case using hexEncode_byte [of x y] by (simp add: hexEncode_def)
qed simp

lemma length_hexEncode [simp]: "length (hexEncode bs) = 2 * length bs"
  by (induction bs) (simp_all add: hexEncode_def)

lemma objectKey_inj:
  assumes "length h = length h'" and "objectKey model h = objectKey model' h'"
  shows "model = model' \<and> h = h'"
proof -
  have "(model @ ''/'') @ hexEncode h = (model' @ ''/'') @ hexEncode h'" using assms(2) by (simp add: objectKey_def)
  then have "model @ ''/'' = model' @ ''/'' \<and> hexEncode h = hexEncode h'"
    using assms(1) append_eq_append_conv [of "hexEncode h" "hexEncode h'"]
    by (metis append_eq_append_conv length_hexEncode)
  then show ?thesis using hexEncode_inj [OF assms(1)] by simp
qed

lemma length_magic [simp]: "length magic = 4"
  by (simp add: magic_def)

lemma length_tokens [simp]: "length (concat (map (le_bytes 4) ts)) = 4 * length ts"
  by (induction ts) simp_all

lemma readTokens_written:
  "length pre = off \<Longrightarrow> readTokens (length ts) off (pre @ concat (map (le_bytes 4) ts) @ kv) = ts"
proof (induction ts arbitrary: pre off)
  case (Cons t ts)
  then show ?case using Cons.IH [of "pre @ le_bytes 4 t" "off + 4"] by simp
qed simp

lemma length_readTokens [simp]: "length (readTokens n off blob) = n"
  by (induction n arbitrary: off) simp_all

lemma readTokens_bytes:
  "off + 4 * n \<le> length blob \<Longrightarrow> concat (map (le_bytes 4) (readTokens n off blob)) = take (4 * n) (drop off blob)"
proof (induction n arbitrary: off)
  case (Suc n)
  have "le_bytes 4 (le_word (take 4 (drop off blob)) :: int32) = take 4 (drop off blob)"
    using le_bytes_le_word [of "take 4 (drop off blob)", where 'a = 32] Suc.prems by simp
  moreover have "take 4 (drop off blob) @ take (4 * n) (drop (off + 4) blob) = take (4 * Suc n) (drop off blob)"
    using take_add [of 4 "4 * n" "drop off blob"] by (simp add: add.commute)
  ultimately show ?case using Suc.IH [of "off + 4"] Suc.prems by simp
qed simp

lemma split_at: "drop b xs = take a (drop b xs) @ drop (b + a) xs"
  by (metis append_take_drop_id drop_drop add.commute)

lemma decode_encode:
  assumes "length toks < 2 ^ 32"
  shows "decode (encode ver toks kv) = Inr (ver, toks, kv)"
proof -
  have n: "unat (word_of_nat (length toks) :: uint32) = length toks" using assms by (simp add: unat_of_nat take_bit_nat_eq_self)
  have "take 8 (drop 4 (encode ver toks kv)) = le_bytes 8 ver"
    "take 4 (drop 12 (encode ver toks kv)) = le_bytes 4 (word_of_nat (length toks) :: uint32)"
    "drop (16 + 4 * length toks) (encode ver toks kv) = kv"
    by (simp_all add: encode_def)
  moreover have "readTokens (length toks) 16 (encode ver toks kv) = toks"
    using readTokens_written [of "magic @ le_bytes 8 ver @ le_bytes 4 (word_of_nat (length toks) :: uint32)" 16 toks kv]
    by (simp add: encode_def)
  ultimately show ?thesis by (simp add: decode_def headerMin_def Let_def n) (simp add: encode_def)
qed

lemma encode_decode:
  assumes "decode blob = Inr (ver, toks, kv)"
  shows "blob = encode ver toks kv \<and> length toks < 2 ^ 32"
proof -
  let ?n = "unat (le_word (take 4 (drop 12 blob)) :: uint32)"
  have d: "16 \<le> length blob" "take 4 blob = magic" "16 + 4 * ?n \<le> length blob"
    "ver = le_word (take 8 (drop 4 blob))" "toks = readTokens ?n 16 blob" "kv = drop (16 + 4 * ?n) blob"
    using assms by (auto simp: decode_def headerMin_def Let_def split: if_splits)
  have "le_bytes 8 ver = take 8 (drop 4 blob)"
    using le_bytes_le_word [of "take 8 (drop 4 blob)", where 'a = 64] d(1,4) by simp
  moreover have "le_bytes 4 (word_of_nat (length toks) :: uint32) = take 4 (drop 12 blob)"
    using le_bytes_le_word [of "take 4 (drop 12 blob)", where 'a = 32] d(1,5) by simp
  moreover have "concat (map (le_bytes 4) toks) = take (4 * ?n) (drop 16 blob)"
    unfolding d(5) using readTokens_bytes d(3) by blast
  moreover have "blob = take 4 blob @ take 8 (drop 4 blob) @ take 4 (drop 12 blob) @ take (4 * ?n) (drop 16 blob) @ drop (16 + 4 * ?n) blob"
    using split_at [of 0 blob 4] split_at [of 4 blob 8] split_at [of 12 blob 4] split_at [of 16 blob "4 * ?n"] by simp
  moreover have "length toks < 2 ^ 32" unfolding d(5) using unsigned_less [of "le_word (take 4 (drop 12 blob)) :: uint32"] by simp
  ultimately show ?thesis using d(2,6) by (simp add: encode_def)
qed

section \<open>The contract of a tier\<close>

text \<open>A block as it was spilled: model, hash, version, tokens and payload.\<close>

type_synonym cold_block = "string \<times> BlockHash \<times> uint64 \<times> int32 list \<times> bytes"

definition job_block :: "spillJob \<Rightarrow> cold_block" where
  "job_block j = (sj_model j, sj_hash j, sj_version j, sj_tokenIDs j, sj_kv j)"

text \<open>Blocks as the cache has them: 32-byte hashes and fewer than $2^{32}$ tokens.\<close>

fun block_ok :: "cold_block \<Rightarrow> bool" where
  "block_ok (model, h, ver, toks, kv) \<longleftrightarrow> length h = 32 \<and> length toks < 2 ^ 32"

text \<open>
  What a reader relies on (\<^verbatim>\<open>coldtier.Tier\<close> and the server's \<^verbatim>\<open>coldReader\<close>): a hit is a block that was spilled
  under exactly that model and hash.
\<close>

locale cold_tier =
  fixes inv :: "'t \<Rightarrow> bool" and spilled :: "'t \<Rightarrow> cold_block set" and get :: "'t \<Rightarrow> string \<Rightarrow> BlockHash \<Rightarrow> cold_result"
  assumes get_law: "inv t \<Longrightarrow> length h = 32 \<Longrightarrow> get t model h = Inr (Some (kv, ver, toks)) \<Longrightarrow>
    (model, h, ver, toks, kv) \<in> spilled t"

text \<open>Every stored object is the framing of a spilled block under its key.\<close>

definition objects_ok :: "(string \<rightharpoonup> bytes) \<Rightarrow> cold_block set \<Rightarrow> bool" where
  "objects_ok objs blocks \<longleftrightarrow> (\<forall>b \<in> blocks. block_ok b) \<and>
     (\<forall>k blob. objs k = Some blob \<longrightarrow>
        (\<exists>model h ver toks kv. (model, h, ver, toks, kv) \<in> blocks \<and> k = objectKey model h \<and> blob = encode ver toks kv))"

lemma objects_ok_empty: "objects_ok Map.empty {}"
  by (simp add: objects_ok_def)

lemma objects_ok_mono: "objects_ok objs B \<Longrightarrow> block_ok b \<Longrightarrow> objects_ok objs (insert b B)"
  unfolding objects_ok_def by blast

lemma objects_ok_put:
  "objects_ok objs B \<Longrightarrow> (model, h, ver, toks, kv) \<in> B \<Longrightarrow> objects_ok (objs(objectKey model h \<mapsto> encode ver toks kv)) B"
  unfolding objects_ok_def fun_upd_apply by (metis option.inject)

lemma objects_ok_get:
  assumes "objects_ok objs B" and "length h = 32" and "objs (objectKey model h) = Some blob"
    and "decoded blob = Inr (Some (kv, ver, toks))"
  shows "(model, h, ver, toks, kv) \<in> B"
proof -
  obtain model' h' ver' toks' kv' where b: "(model', h', ver', toks', kv') \<in> B" "objectKey model h = objectKey model' h'"
      "blob = encode ver' toks' kv'"
    using assms(1,3) unfolding objects_ok_def by blast
  have ok: "length h' = 32" "length toks' < 2 ^ 32" using assms(1) b(1) unfolding objects_ok_def by fastforce+
  have "model' = model \<and> h' = h" using objectKey_inj [of h' h model' model] ok(1) assms(2) b(2) by simp
  moreover have "ver' = ver \<and> toks' = toks \<and> kv' = kv"
    using assms(4) decode_encode [OF ok(2)] b(3) by (simp add: decoded_def)
  ultimately show ?thesis using b(1) by simp
qed

text \<open>The in-memory tier with the blocks spilled to it so far.\<close>

definition mem_run :: "cold_block list \<Rightarrow> Memory" where
  "mem_run blocks = fold (\<lambda>(model, h, ver, toks, kv). mem_Spill model h ver toks kv) blocks NewMemory"

lemma mem_run_ok: "\<forall>b \<in> set blocks. block_ok b \<Longrightarrow> objects_ok (gm_get (mem_run blocks)) (set blocks)"
proof (induction blocks rule: rev_induct)
  case Nil
  then show ?case by (simp add: mem_run_def NewMemory_def objects_ok_empty)
next
  case (snoc b blocks)
  obtain model h ver toks kv where b: "b = (model, h, ver, toks, kv)" by (cases b)
  have "objects_ok (gm_get (mem_run blocks)) (insert b (set blocks))"
    using snoc by (intro objects_ok_mono) simp_all
  then have "objects_ok ((gm_get (mem_run blocks))(objectKey model h \<mapsto> encode ver toks kv)) (insert b (set blocks))"
    by (rule objects_ok_put) (simp add: b)
  moreover have "gm_get (mem_run (blocks @ [b])) = (gm_get (mem_run blocks))(objectKey model h \<mapsto> encode ver toks kv)"
    by (rule ext) (simp add: mem_run_def mem_Spill_def b)
  ultimately show ?case by (simp only: set_append list.set Un_insert_right Un_empty_right)
qed

interpretation memory: cold_tier "\<lambda>blocks. \<forall>b \<in> set blocks. block_ok b" set "\<lambda>blocks. mem_Get (mem_run blocks)"
proof
  fix t model h kv ver toks
  assume "\<forall>b \<in> set t. block_ok b" "length h = 32" "mem_Get (mem_run t) model h = Inr (Some (kv, ver, toks))"
  then show "(model, h, ver, toks, kv) \<in> set t"
    using objects_ok_get [OF mem_run_ok [of t]] by (auto simp: mem_Get_def split: option.splits)
qed

section \<open>Uploads in progress\<close>

text \<open>
  The tier, the jobs its workers hold, the bucket, and the blocks spilled so far. Uploads by different
  workers finish in any order and each may fail.
\<close>

record s3_world =
  w_tier :: S3Tier
  w_busy :: "spillJob list"
  w_objects :: "string \<rightharpoonup> bytes"
  w_spilled :: "cold_block set"

inductive s3_step :: "s3_world \<Rightarrow> s3_world \<Rightarrow> bool" where
  s3_spill: "s3_Spill job (w_tier w) = Some t \<Longrightarrow> block_ok (job_block job) \<Longrightarrow>
    s3_step w (w\<lparr>w_tier := t, w_spilled := insert (job_block job) (w_spilled w)\<rparr>)"
| s3_take: "t_jobs (w_tier w) = job # jobs \<Longrightarrow> length (w_busy w) < defaultSpillWorkers \<Longrightarrow>
    s3_step w (w\<lparr>w_tier := (w_tier w)\<lparr>t_jobs := jobs\<rparr>, w_busy := w_busy w @ [job]\<rparr>)"
| s3_put: "w_busy w = xs @ job # ys \<Longrightarrow> s3_upload job = (k, blob) \<Longrightarrow>
    s3_step w (w\<lparr>w_busy := xs @ ys, w_objects := (w_objects w)(k \<mapsto> blob)\<rparr>)"
| s3_put_failed: "w_busy w = xs @ job # ys \<Longrightarrow> s3_step w (w\<lparr>w_busy := xs @ ys\<rparr>)"
| s3_close: "s3_Close (w_tier w) = Some t \<Longrightarrow> s3_step w (w\<lparr>w_tier := t\<rparr>)"

definition s3_start :: "string \<Rightarrow> s3_world" where
  "s3_start bucket = \<lparr>w_tier = newS3WithClient bucket, w_busy = [], w_objects = Map.empty, w_spilled = {}\<rparr>"

definition s3_inv :: "s3_world \<Rightarrow> bool" where
  "s3_inv w \<longleftrightarrow> length (t_jobs (w_tier w)) \<le> defaultSpillQueue \<and> length (w_busy w) \<le> defaultSpillWorkers \<and>
     (\<forall>j. j \<in> set (t_jobs (w_tier w)) \<union> set (w_busy w) \<longrightarrow> job_block j \<in> w_spilled w) \<and> objects_ok (w_objects w) (w_spilled w)"

inductive_cases s3_stepE: "s3_step w w'"

lemma s3_step_inv: "s3_step w w' \<Longrightarrow> s3_inv w \<Longrightarrow> s3_inv w'"
proof (induction rule: s3_step.induct)
  case (s3_spill job w t)
  then show ?case
    using objects_ok_mono [of "w_objects w" "w_spilled w" "job_block job"]
    by (auto simp: s3_inv_def s3_Spill_def split: if_splits)
next
  case (s3_put w xs job ys k blob)
  have "(sj_model job, sj_hash job, sj_version job, sj_tokenIDs job, sj_kv job) \<in> w_spilled w"
    using s3_put by (auto simp: s3_inv_def job_block_def)
  then have "objects_ok ((w_objects w)(k \<mapsto> blob)) (w_spilled w)"
    using s3_put objects_ok_put [of "w_objects w" "w_spilled w"] by (auto simp: s3_inv_def s3_upload_def)
  then show ?case using s3_put by (auto simp: s3_inv_def)
qed (auto simp: s3_inv_def s3_Close_def split: if_splits)

lemma s3_reachable_inv: "s3_step\<^sup>*\<^sup>* (s3_start bucket) w \<Longrightarrow> s3_inv w"
proof (induction rule: rtranclp_induct)
  case base
  show ?case by (simp add: s3_inv_def s3_start_def newS3WithClient_def objects_ok_empty)
qed (rule s3_step_inv)

text \<open>A \<^verbatim>\<open>GetObject\<close> that succeeds returns the object stored under the key.\<close>

definition serves_objects :: "(string \<rightharpoonup> bytes) \<Rightarrow> (string \<Rightarrow> GetObjectOutput) \<Rightarrow> bool" where
  "serves_objects objs getObject \<longleftrightarrow> (\<forall>k blob. getObject k = Body (Inr blob) \<longrightarrow> objs k = Some blob)"

interpretation s3: cold_tier "\<lambda>(w, getObject). s3_inv w \<and> serves_objects (w_objects w) getObject" "\<lambda>(w, _). w_spilled w"
  "\<lambda>(w, getObject). s3_Get getObject"
proof
  fix t :: "s3_world \<times> (string \<Rightarrow> GetObjectOutput)" and model h kv ver toks
  assume a: "case t of (w, getObject) \<Rightarrow> s3_inv w \<and> serves_objects (w_objects w) getObject" "length h = 32"
    "(case t of (w, getObject) \<Rightarrow> s3_Get getObject) model h = Inr (Some (kv, ver, toks))"
  obtain w getObject where t: "t = (w, getObject)" by (cases t)
  obtain blob where "getObject (objectKey model h) = Body (Inr blob)" "decoded blob = Inr (Some (kv, ver, toks))"
    using a(3) t by (auto simp: s3_Get_def split: GetObjectOutput.splits sum.splits)
  then show "(model, h, ver, toks, kv) \<in> (case t of (w, _) \<Rightarrow> w_spilled w)"
    using a(1,2) t objects_ok_get [of "w_objects w" "w_spilled w" h] by (auto simp: s3_inv_def serves_objects_def)
qed

section \<open>Properties\<close>

lemma encode_cut_payload: "take (16 + 4 * length toks + j) (encode ver toks kv) = encode ver toks (take j kv)"
  by (simp add: encode_def)

lemma encode_cut_header:
  assumes "length toks < 2 ^ 32" and "m < 16 + 4 * length toks"
  shows "isl (decode (take m (encode ver toks kv)))"
proof (rule ccontr)
  assume "\<not> isl (decode (take m (encode ver toks kv)))"
  then obtain v ts k where "decode (take m (encode ver toks kv)) = Inr (v, ts, k)" by (cases "decode (take m (encode ver toks kv))") auto
  then have e: "take m (encode ver toks kv) = encode v ts k" "length ts < 2 ^ 32" using encode_decode by blast+
  have len: "16 + 4 * length ts \<le> m" using arg_cong [OF e(1), of length] by (simp add: encode_def)
  have count: "take 4 (drop 12 (encode v' ts' k')) = le_bytes 4 (word_of_nat (length ts') :: uint32)" for v' ts' k'
    by (simp add: encode_def)
  have "take 4 (drop 12 (take m (encode ver toks kv))) = take 4 (drop 12 (encode ver toks kv))"
    using len by (simp add: take_drop min_def)
  then have "le_bytes 4 (word_of_nat (length ts) :: uint32) = le_bytes 4 (word_of_nat (length toks) :: uint32)"
    unfolding e(1) count .
  then have "(word_of_nat (length ts) :: uint32) = word_of_nat (length toks)" by (metis le_u32_roundtrip)
  moreover have "unat (word_of_nat j :: uint32) = j" if "j < 2 ^ 32" for j
    using that by (simp add: unat_of_nat take_bit_nat_eq_self)
  ultimately have "length ts = length toks" using e(2) assms(1) by metis
  then show False using len assms(2) by simp
qed

text \<open>
  Property C11: the object framing. Decoding accepts exactly the framings of blocks with fewer than $2^{32}$
  tokens and returns the version, tokens and payload that were framed, so a foreign object is an error. An object
  that lost its end is an error when the cut is before the end of the tokens; the payload has no length of its own,
  so an object cut inside the payload decodes to the version, the tokens and the shorter payload.
\<close>

theorem decode_iff_encode:
  "(decode blob = Inr (ver, toks, kv) \<longleftrightarrow> blob = encode ver toks kv \<and> length toks < 2 ^ 32) \<and>
   (length toks < 2 ^ 32 \<longrightarrow>
     (if m < 16 + 4 * length toks then isl (decode (take m (encode ver toks kv)))
      else decode (take m (encode ver toks kv)) = Inr (ver, toks, take (m - (16 + 4 * length toks)) kv)))"
proof -
  have "decode (take m (encode ver toks kv)) = Inr (ver, toks, take (m - (16 + 4 * length toks)) kv)"
    if "16 + 4 * length toks \<le> m" "length toks < 2 ^ 32"
    using encode_cut_payload [of toks "m - (16 + 4 * length toks)" ver kv] decode_encode [OF that(2)] that(1) by simp
  then show ?thesis using decode_encode encode_decode encode_cut_header by (auto simp: not_less)
qed

text \<open>
  Property C10: a cold hit is never a wrong block. Whatever spills, uploads in any order, upload failures and
  drops led to the state of the bucket, a hit for a model and hash is a block that was spilled under that
  model and hash with exactly this version, tokens and payload; the queue and the workers stay bounded.
\<close>

theorem cold_hit_was_spilled:
  assumes "s3_step\<^sup>*\<^sup>* (s3_start bucket) w" and "serves_objects (w_objects w) getObject" and "length h = 32"
    and "s3_Get getObject model h = Inr (Some (kv, ver, toks))"
  shows "(model, h, ver, toks, kv) \<in> w_spilled w \<and>
    length (t_jobs (w_tier w)) \<le> 256 \<and> length (w_busy w) \<le> 4"
  using s3.get_law [of "(w, getObject)" h model kv ver toks] s3_reachable_inv [OF assms(1)] assms(2-)
  by (simp add: s3_inv_def defaultSpillQueue_def defaultSpillWorkers_def)

definition ex_job :: spillJob where
  "ex_job = \<lparr>sj_model = ''m'', sj_hash = replicate 32 7, sj_version = 3, sj_tokenIDs = [1, 2], sj_kv = [9]\<rparr>"

lemma ex_s3_run:
  "\<exists>w. s3_step\<^sup>*\<^sup>* (s3_start ''b'') w \<and> w_objects w = [fst (s3_upload ex_job) \<mapsto> snd (s3_upload ex_job)]"
proof -
  let ?w0 = "s3_start ''b''"
  let ?w1 = "?w0\<lparr>w_tier := (w_tier ?w0)\<lparr>t_jobs := [ex_job]\<rparr>, w_spilled := insert (job_block ex_job) (w_spilled ?w0)\<rparr>"
  let ?w2 = "?w1\<lparr>w_tier := (w_tier ?w1)\<lparr>t_jobs := []\<rparr>, w_busy := w_busy ?w1 @ [ex_job]\<rparr>"
  let ?w3 = "?w2\<lparr>w_busy := [] @ [], w_objects := (w_objects ?w2)(fst (s3_upload ex_job) \<mapsto> snd (s3_upload ex_job))\<rparr>"
  have "s3_step ?w0 ?w1"
    by (rule s3_spill) (simp_all add: s3_Spill_def s3_start_def newS3WithClient_def defaultSpillQueue_def job_block_def ex_job_def)
  moreover have "s3_step ?w1 ?w2"
    by (rule s3_take) (simp_all add: s3_start_def newS3WithClient_def defaultSpillWorkers_def)
  moreover have "s3_step ?w2 ?w3"
    by (rule s3_put [where job = ex_job]) (simp_all add: s3_start_def)
  ultimately have "s3_step\<^sup>*\<^sup>* ?w0 ?w3" by (meson converse_rtranclp_into_rtranclp rtranclp.rtrancl_refl)
  then show ?thesis by (intro exI [of _ ?w3]) (simp add: s3_start_def)
qed

theorem cold_hit_was_spilled_witness:
  "\<exists>w :: s3_world. w_objects w = [fst (s3_upload ex_job) \<mapsto> snd (s3_upload ex_job)] \<and>
     (''m'', replicate 32 7, 3, [1, 2], [9]) \<in> w_spilled w"
proof -
  obtain w where w: "s3_step\<^sup>*\<^sup>* (s3_start ''b'') w" "w_objects w = [fst (s3_upload ex_job) \<mapsto> snd (s3_upload ex_job)]"
    using ex_s3_run by blast
  define get where "get k = (case w_objects w k of None \<Rightarrow> NoSuchKeyErr | Some blob \<Rightarrow> Body (Inr blob))" for k
  have "serves_objects (w_objects w) get" by (simp add: serves_objects_def get_def split: option.split)
  moreover have "s3_Get get ''m'' (replicate 32 7) = Inr (Some ([9], 3, [1, 2]))"
    using decode_encode [of "[1, 2]" 3 "[9]"] by (simp add: s3_Get_def get_def w(2) s3_upload_def ex_job_def decoded_def)
  ultimately have "(''m'', replicate 32 7, 3, [1, 2], [9]) \<in> w_spilled w"
    using cold_hit_was_spilled [OF w(1), of get "replicate 32 7" "''m''" "[9]" 3 "[1, 2]"] by simp
  then show ?thesis using w(2) by blast
qed

theorem decode_iff_encode_witness:
  "decode (take 22 (encode 3 [7] [1, 2, 3])) = Inr (3, [7], [1, 2]) \<and> isl (decode (take 19 (encode 3 [7] [1, 2, 3])))"
  using decode_iff_encode [where m = 22 and ver = 3 and toks = "[7]" and kv = "[1, 2, 3]"]
    decode_iff_encode [where m = 19 and ver = 3 and toks = "[7]" and kv = "[1, 2, 3]"] by simp

end
