(* ===== verification/Server.thy ===== *)
theory Server
  imports Store_Correct Cold_Tier
begin

text \<open>
  \<^verbatim>\<open>internal/server/server.go\<close>: the gRPC service over one store. A handler takes the policy, the clock and the
  server and returns its result and the server; a server stream is the list of frames sent, where
  \<open>sendErr k\<close> is the error of the \<open>k\<close>-th \<^verbatim>\<open>Send\<close>, and a client stream is the list of messages received with
  the way it ended. The optional parts of a server (replicator, cold tier, metrics) are options.
\<close>

section \<open>Streams\<close>

definition fetchChunkBytes :: nat where
  "fetchChunkBytes = 2 ^ 20"

record KVChunk =
  c_Data :: bytes
  c_Last :: bool

record BatchKVChunk =
  bc_Index :: uint32
  bc_Data :: bytes
  bc_Found :: bool
  bc_Last :: bool

type_synonym sendErr = "nat \<Rightarrow> string option"

text \<open>\<^verbatim>\<open>stream.Send\<close>: the error, if any, and the frames sent so far.\<close>

definition streamSend :: "sendErr \<Rightarrow> 'f \<Rightarrow> 'f list \<Rightarrow> string option \<times> 'f list" where
  "streamSend err frame sent = (case err (length sent) of Some e \<Rightarrow> (Some e, sent) | None \<Rightarrow> (None, sent @ [frame]))"

text \<open>
  The chunking loop \<^verbatim>\<open>for off := 0; off < len(data); off += chunk\<close> that the three senders share, over the
  frame \<open>mk data last\<close> each of them builds.
\<close>

function chunkLoop :: "nat \<Rightarrow> (bytes \<Rightarrow> bool \<Rightarrow> 'f) \<Rightarrow> sendErr \<Rightarrow> bytes \<Rightarrow> nat \<Rightarrow> 'f list \<Rightarrow> string option \<times> 'f list" where
  "chunkLoop chunk mk err data off sent =
     (if off < length data \<and> 0 < chunk then
        let e = (if length data < off + chunk then length data else off + chunk)
        in case streamSend err (mk (take (e - off) (drop off data)) (e = length data)) sent of
             (Some x, sent') \<Rightarrow> (Some x, sent')
           | (None, sent') \<Rightarrow> chunkLoop chunk mk err data (off + chunk) sent'
      else (None, sent))"
  by pat_completeness auto
termination
  by (relation "measure (\<lambda>(chunk, mk, err, data, off, sent). length data - off)") auto

declare chunkLoop.simps [simp del]

definition streamKV :: "sendErr \<Rightarrow> bytes \<Rightarrow> KVChunk list \<Rightarrow> string option \<times> KVChunk list" where
  "streamKV err data sent =
     (case chunkLoop fetchChunkBytes (\<lambda>d l. \<lparr>c_Data = d, c_Last = l\<rparr>) err data 0 sent of
        (Some x, sent') \<Rightarrow> (Some x, sent')
      | (None, sent') \<Rightarrow>
          if length data = 0 then streamSend err \<lparr>c_Data = [], c_Last = True\<rparr> sent' else (None, sent'))"

definition streamBatchKV :: "sendErr \<Rightarrow> uint32 \<Rightarrow> bytes \<Rightarrow> BatchKVChunk list \<Rightarrow> string option \<times> BatchKVChunk list" where
  "streamBatchKV err idx data sent =
     (case chunkLoop fetchChunkBytes (\<lambda>d l. \<lparr>bc_Index = idx, bc_Data = d, bc_Found = True, bc_Last = l\<rparr>) err data 0 sent of
        (Some x, sent') \<Rightarrow> (Some x, sent')
      | (None, sent') \<Rightarrow>
          if length data = 0 then streamSend err \<lparr>bc_Index = idx, bc_Data = [], bc_Found = True, bc_Last = True\<rparr> sent'
          else (None, sent'))"

definition sendNotFound :: "sendErr \<Rightarrow> uint32 \<Rightarrow> BatchKVChunk list \<Rightarrow> string option \<times> BatchKVChunk list" where
  "sendNotFound err idx sent = streamSend err \<lparr>bc_Index = idx, bc_Data = [], bc_Found = False, bc_Last = True\<rparr> sent"

text \<open>The frames of a payload: pieces of the chunk size, the last one marked.\<close>

function pieces :: "nat \<Rightarrow> bytes \<Rightarrow> (bytes \<times> bool) list" where
  "pieces chunk data =
     (if length data \<le> chunk \<or> chunk = 0 then [(data, True)] else (take chunk data, False) # pieces chunk (drop chunk data))"
  by pat_completeness auto
termination
  by (relation "measure (\<lambda>(chunk, data). length data)") auto

declare pieces.simps [simp del]

lemma pieces_data: "concat (map fst (pieces chunk data)) = data"
  by (induction chunk data rule: pieces.induct) (subst pieces.simps, simp)

lemma pieces_last: "map snd (pieces chunk data) = replicate (length (pieces chunk data) - 1) False @ [True]"
proof (induction chunk data rule: pieces.induct)
  case (1 chunk data)
  have "pieces chunk (drop chunk data) \<noteq> []" by (subst pieces.simps) simp
  then show ?case using 1 by (subst (1 2) pieces.simps) (auto simp: neq_Nil_conv)
qed

lemma pieces_size: "0 < chunk \<Longrightarrow> p \<in> set (pieces chunk data) \<Longrightarrow> length (fst p) \<le> chunk"
  by (induction chunk data rule: pieces.induct) (subst (asm) (2) pieces.simps, auto split: if_splits)

lemma chunkLoop_pieces:
  assumes "0 < chunk" and "\<forall>k. err k = None" and "off < length data"
  shows "chunkLoop chunk mk err data off sent = (None, sent @ map (\<lambda>(d, l). mk d l) (pieces chunk (drop off data)))"
  using assms(3)
proof (induction "length data - off" arbitrary: off sent rule: less_induct)
  case less
  show ?case
  proof (cases "off + chunk < length data")
    case True
    have "chunkLoop chunk mk err data off sent =
        chunkLoop chunk mk err data (off + chunk) (sent @ [mk (take chunk (drop off data)) False])"
      using less.prems assms True by (subst chunkLoop.simps) (simp add: streamSend_def)
    also have "\<dots> = (None, sent @ [mk (take chunk (drop off data)) False] @
        map (\<lambda>(d, l). mk d l) (pieces chunk (drop (off + chunk) data)))"
      using less True assms(1) by simp
    also have "pieces chunk (drop off data) = (take chunk (drop off data), False) # pieces chunk (drop (off + chunk) data)"
      using True assms(1) by (subst pieces.simps) (simp add: add.commute)
    ultimately show ?thesis by simp
  next
    case False
    have "chunkLoop chunk mk err data (off + chunk) sent' = (None, sent')" for sent'
      using False by (subst chunkLoop.simps) simp
    then have "chunkLoop chunk mk err data off sent = (None, sent @ [mk (drop off data) True])"
      using less.prems assms False by (subst chunkLoop.simps) (simp add: streamSend_def)
    moreover have "length data - off \<le> chunk" using False by simp
    then have "pieces chunk (drop off data) = [(drop off data, True)]" by (subst pieces.simps) simp
    ultimately show ?thesis by simp
  qed
qed

lemma pieces_nil [simp]: "pieces chunk [] = [([], True)]"
  by (subst pieces.simps) simp

lemma chunk_pos: "0 < fetchChunkBytes"
  by (simp add: fetchChunkBytes_def)

lemma streamKV_pieces:
  assumes "\<forall>k. err k = None"
  shows "streamKV err data sent =
    (None, sent @ map (\<lambda>(d, l). \<lparr>c_Data = d, c_Last = l\<rparr>) (pieces fetchChunkBytes data))"
proof (cases "data = []")
  case True
  then show ?thesis using assms by (simp add: streamKV_def chunkLoop.simps streamSend_def)
next
  case False
  then show ?thesis
    by (simp add: streamKV_def chunkLoop_pieces [OF chunk_pos assms])
qed

lemma streamBatchKV_pieces:
  assumes "\<forall>k. err k = None"
  shows "streamBatchKV err idx data sent =
    (None, sent @ map (\<lambda>(d, l). \<lparr>bc_Index = idx, bc_Data = d, bc_Found = True, bc_Last = l\<rparr>) (pieces fetchChunkBytes data))"
proof (cases "data = []")
  case True
  then show ?thesis using assms by (simp add: streamBatchKV_def chunkLoop.simps streamSend_def)
next
  case False
  then show ?thesis
    by (simp add: streamBatchKV_def chunkLoop_pieces [OF chunk_pos assms])
qed

section \<open>The server\<close>

datatype metric = MHit string | MMiss string | MEviction string nat | MReplica string

record ReplicaJob =
  rj_Hash :: BlockHash
  rj_ModelID :: string
  rj_KV :: bytes
  rj_TokenIDs :: "int32 list"
  rj_TenantID :: string
  rj_RecomputeCost :: f64
  rj_Version :: uint64
  rj_RoutingKey :: bytes

type_synonym coldReader = "string \<Rightarrow> BlockHash \<Rightarrow> cold_result"

text \<open>
  \<open>sv_repl\<close> is the \<^verbatim>\<open>Enqueue\<close> of the replicator over its state \<open>sv_queue\<close>; \<open>sv_metrics\<close> is \<^term>\<open>None\<close> for the
  no-op sink and otherwise the events it received.
\<close>

record ('p, 'x, 'q) Server =
  sv_store :: "('p, 'x) Store"
  sv_repl :: "(ReplicaJob \<Rightarrow> 'q \<Rightarrow> 'q) option"
  sv_queue :: 'q
  sv_metrics :: "metric list option"
  sv_cold :: "coldReader option"

definition server_New :: "('p, 'x) Store \<Rightarrow> 'q \<Rightarrow> ('p, 'x, 'q) Server" where
  "server_New store q = \<lparr>sv_store = store, sv_repl = None, sv_queue = q, sv_metrics = None, sv_cold = None\<rparr>"

definition NewWithReplicator :: "('p, 'x) Store \<Rightarrow> (ReplicaJob \<Rightarrow> 'q \<Rightarrow> 'q) \<Rightarrow> 'q \<Rightarrow> ('p, 'x, 'q) Server" where
  "NewWithReplicator store enqueue q =
     \<lparr>sv_store = store, sv_repl = Some enqueue, sv_queue = q, sv_metrics = None, sv_cold = None\<rparr>"

definition WithMetrics :: "metric list option \<Rightarrow> ('p, 'x, 'q) Server \<Rightarrow> ('p, 'x, 'q) Server" where
  "WithMetrics m s = (case m of None \<Rightarrow> s | Some _ \<Rightarrow> s\<lparr>sv_metrics := m\<rparr>)"

definition WithColdReader :: "coldReader option \<Rightarrow> ('p, 'x, 'q) Server \<Rightarrow> ('p, 'x, 'q) Server" where
  "WithColdReader c s = (case c of None \<Rightarrow> s | Some _ \<Rightarrow> s\<lparr>sv_cold := c\<rparr>)"

definition emit :: "metric \<Rightarrow> ('p, 'x, 'q) Server \<Rightarrow> ('p, 'x, 'q) Server" where
  "emit ev s = s\<lparr>sv_metrics := map_option (\<lambda>evs. evs @ [ev]) (sv_metrics s)\<rparr>"

datatype srv_error =
    InvalidArgument string
  | NotFound string
  | ResourceExhausted string
  | StreamError string
  | StreamEOF
  | MakeSlicePanic

definition toBlockHash :: "bytes \<Rightarrow> BlockHash option" where
  "toBlockHash b = (if length b \<noteq> 32 then None else Some b)"

section \<open>Lookup\<close>

record BlockPresence =
  bp_HasEntry :: bool
  bp_Version :: uint64
  bp_SizeBytes :: uint64

definition lookupOne :: "string \<Rightarrow> bytes \<Rightarrow> ('p, 'x, 'q) Server \<Rightarrow> BlockPresence \<times> ('p, 'x, 'q) Server" where
  "lookupOne model hb s =
     (let absent = \<lparr>bp_HasEntry = False, bp_Version = 0, bp_SizeBytes = 0\<rparr>
      in case toBlockHash hb of
           Some h \<Rightarrow>
             (case Peek model h (sv_store s) of
                Some e \<Rightarrow> (\<lparr>bp_HasEntry = True, bp_Version = e_Version e, bp_SizeBytes = e_SizeBytes e\<rparr>, emit (MHit ''lookup'') s)
              | None \<Rightarrow> (absent, emit (MMiss ''lookup'') s))
         | None \<Rightarrow> (absent, emit (MMiss ''lookup'') s))"

definition srv_Lookup :: "string \<Rightarrow> bytes list \<Rightarrow> ('p, 'x, 'q) Server \<Rightarrow> BlockPresence list \<times> ('p, 'x, 'q) Server" where
  "srv_Lookup model hashes s =
     fold (\<lambda>hb (blocks, s). let (bp, s') = lookupOne model hb s in (blocks @ [bp], s')) hashes ([], s)"

section \<open>Fetch\<close>

record FetchBlock =
  fb_BlockHash :: bytes
  fb_Version :: uint64
  fb_TokenIds :: "int32 list"

text \<open>The entry a caller hands to the store; the store fills in the rest.\<close>

definition newEntry :: "string \<Rightarrow> bytes \<Rightarrow> int32 list \<Rightarrow> string \<Rightarrow> f64 \<Rightarrow> Entry" where
  "newEntry model kv toks tenant cost =
     \<lparr>e_TokenIDs = toks, e_KV = kv, e_ModelID = model, e_WireHash = replicate 32 0, e_Version = 0, e_SizeBytes = 0,
      e_TenantID = tenant, e_RecomputeCost = cost, e_CreatedAt = 0, e_accessCount = 0, e_lastAccessed = 0\<rparr>"

definition coldHit ::
  "'p EvictionPolicy \<Rightarrow> time \<Rightarrow> string \<Rightarrow> BlockHash \<Rightarrow> uint64 \<Rightarrow> int32 list \<Rightarrow> ('p, 'x, 'q) Server
     \<Rightarrow> bytes option \<times> ('p, 'x, 'q) Server" where
  "coldHit P now model h version tokenIDs s =
     (case sv_cold s of
        None \<Rightarrow> (None, s)
      | Some cold \<Rightarrow>
          (case cold model h of
             Inl err \<Rightarrow> (None, s)
           | Inr None \<Rightarrow> (None, s)
           | Inr (Some (kv, ver, toks)) \<Rightarrow>
               if version \<noteq> 0 \<and> version \<noteq> ver then (None, s)
               else if 0 < length tokenIDs \<and> tokenIDs \<noteq> toks then (None, s)
               else let s1 = (if \<not> OverHardLimit (len64 kv) (sv_store s)
                              then s\<lparr>sv_store := snd (PutWithVersion P now h (Some (newEntry model kv toks [] 0)) ver (sv_store s))\<rparr>
                              else s)
                    in (Some kv, emit (MHit ''fetch_cold'') s1)))"

definition srv_Fetch ::
  "'p EvictionPolicy \<Rightarrow> time \<Rightarrow> sendErr \<Rightarrow> string \<Rightarrow> FetchBlock \<Rightarrow> ('p, 'x, 'q) Server
     \<Rightarrow> (srv_error option \<times> KVChunk list) \<times> ('p, 'x, 'q) Server" where
  "srv_Fetch P now err model req s =
     (case toBlockHash (fb_BlockHash req) of
        None \<Rightarrow> ((Some (InvalidArgument ''block_hash must be 32 bytes''), []), s)
      | Some h \<Rightarrow>
          let (got, store') = Get P now model h (sv_store s); s1 = s\<lparr>sv_store := store'\<rparr>
          in case got of
               None \<Rightarrow>
                 (case coldHit P now model h (fb_Version req) (fb_TokenIds req) s1 of
                    (Some kv, s2) \<Rightarrow> (let (e, frames) = streamKV err kv [] in ((map_option StreamError e, frames), s2))
                  | (None, s2) \<Rightarrow> ((Some (NotFound ''block not cached''), []), emit (MMiss ''fetch'') s2))
             | Some e \<Rightarrow>
                 let s2 = emit (MHit ''fetch'') s1
                 in if fb_Version req \<noteq> 0 \<and> fb_Version req \<noteq> e_Version e
                    then ((Some (NotFound ''requested version not available''), []), s2)
                    else if 0 < length (fb_TokenIds req) \<and> fb_TokenIds req \<noteq> e_TokenIDs e
                    then ((Some (NotFound ''token_ids do not match cached block''), []), s2)
                    else let (e, frames) = streamKV err (e_KV e) [] in ((map_option StreamError e, frames), s2))"

section \<open>BatchFetch\<close>

definition batchResolve ::
  "'p EvictionPolicy \<Rightarrow> time \<Rightarrow> string \<Rightarrow> FetchBlock \<Rightarrow> BlockHash \<Rightarrow> ('p, 'x, 'q) Server
     \<Rightarrow> bytes option \<times> ('p, 'x, 'q) Server" where
  "batchResolve P now model fb h s =
     (let (got, store') = Get P now model h (sv_store s); s1 = s\<lparr>sv_store := store'\<rparr>
      in case got of
           None \<Rightarrow> coldHit P now model h (fb_Version fb) (fb_TokenIds fb) s1
         | Some e \<Rightarrow>
             if fb_Version fb \<noteq> 0 \<and> fb_Version fb \<noteq> e_Version e then (None, s1)
             else if 0 < length (fb_TokenIds fb) \<and> fb_TokenIds fb \<noteq> e_TokenIDs e then (None, s1)
             else (Some (e_KV e), s1))"

text \<open>The loop over the blocks, with the running index; a send error ends it.\<close>

fun batchLoop ::
  "'p EvictionPolicy \<Rightarrow> time \<Rightarrow> sendErr \<Rightarrow> string \<Rightarrow> nat \<Rightarrow> FetchBlock list \<Rightarrow> BatchKVChunk list \<Rightarrow> ('p, 'x, 'q) Server
     \<Rightarrow> (srv_error option \<times> BatchKVChunk list) \<times> ('p, 'x, 'q) Server" where
  "batchLoop P now err model i [] sent s = ((None, sent), s)"
| "batchLoop P now err model i (fb # fbs) sent s =
     (let idx = word_of_nat i;
          (kv, s1) = (case toBlockHash (fb_BlockHash fb) of None \<Rightarrow> (None, s) | Some h \<Rightarrow> batchResolve P now model fb h s)
      in case kv of
           None \<Rightarrow>
             let s2 = emit (MMiss ''batch_fetch'') s1
             in (case sendNotFound err idx sent of
                   (Some e, sent') \<Rightarrow> ((Some (StreamError e), sent'), s2)
                 | (None, sent') \<Rightarrow> batchLoop P now err model (i + 1) fbs sent' s2)
         | Some data \<Rightarrow>
             let s2 = emit (MHit ''batch_fetch'') s1
             in (case streamBatchKV err idx data sent of
                   (Some e, sent') \<Rightarrow> ((Some (StreamError e), sent'), s2)
                 | (None, sent') \<Rightarrow> batchLoop P now err model (i + 1) fbs sent' s2))"

definition BatchFetch ::
  "'p EvictionPolicy \<Rightarrow> time \<Rightarrow> sendErr \<Rightarrow> string \<Rightarrow> FetchBlock list \<Rightarrow> ('p, 'x, 'q) Server
     \<Rightarrow> (srv_error option \<times> BatchKVChunk list) \<times> ('p, 'x, 'q) Server" where
  "BatchFetch P now err model blocks s = batchLoop P now err model 0 blocks [] s"

section \<open>Write and Replicate\<close>

record WriteHeader =
  wh_ModelId :: string
  wh_BlockHash :: bytes
  wh_TokenIds :: "int32 list"
  wh_TenantId :: string
  wh_RecomputeCost :: f64
  wh_TotalSize :: uint64
  wh_Version :: uint64
  wh_RoutingKey :: bytes

text \<open>The \<^verbatim>\<open>oneof\<close> of a \<^verbatim>\<open>WriteChunk\<close>, which may be unset, and how a client stream ends.\<close>

datatype WriteChunk = Header WriteHeader | Chunk KVChunk | Unset

datatype recv_end = EOF | RecvError string

fun recv_error :: "recv_end \<Rightarrow> srv_error" where
  "recv_error EOF = StreamEOF"
| "recv_error (RecvError e) = StreamError e"

text \<open>\<^verbatim>\<open>make([]byte, 0, n)\<close> panics beyond the address space of the platform, 48 bits on linux/amd64.\<close>

definition maxAlloc :: nat where
  "maxAlloc = 2 ^ 48"

fun recvLoop :: "WriteChunk list \<Rightarrow> recv_end \<Rightarrow> bytes \<Rightarrow> srv_error + bytes" where
  "recvLoop [] EOF buf = Inr buf"
| "recvLoop [] (RecvError e) buf = Inl (StreamError e)"
| "recvLoop (Header _ # ms) fin buf = Inl (InvalidArgument ''unexpected second WriteHeader'')"
| "recvLoop (Chunk c # ms) fin buf = recvLoop ms fin (buf @ c_Data c)"
| "recvLoop (Unset # ms) fin buf = recvLoop ms fin buf"

definition assembleBlock :: "WriteChunk list \<Rightarrow> recv_end \<Rightarrow> srv_error + (WriteHeader \<times> bytes)" where
  "assembleBlock msgs fin =
     (case msgs of
        [] \<Rightarrow> Inl (recv_error fin)
      | Header hdr # ms \<Rightarrow>
          if 0 < wh_TotalSize hdr \<and> maxAlloc < unat (wh_TotalSize hdr) then Inl MakeSlicePanic
          else (case recvLoop ms fin [] of Inl e \<Rightarrow> Inl e | Inr buf \<Rightarrow> Inr (hdr, buf))
      | _ \<Rightarrow> Inl (InvalidArgument ''first message must be a WriteHeader''))"

record WriteResponse =
  wr_Version :: uint64
  wr_Stored :: bool

text \<open>\<^verbatim>\<open>SendAndClose\<close>, with its error.\<close>

definition sendAndClose :: "string option \<Rightarrow> WriteResponse \<Rightarrow> srv_error + WriteResponse" where
  "sendAndClose ack resp = (case ack of Some e \<Rightarrow> Inl (StreamError e) | None \<Rightarrow> Inr resp)"

text \<open>
  \<^verbatim>\<open>Write\<close> in its two halves: everything up to the admission guard, which only reads, and everything from the
  \<^verbatim>\<open>Put\<close> on. No lock spans the two, so other handlers run between them; the theory of admission interleaves
  them, and \<open>srv_Write\<close> is the handler that is left alone.
\<close>

definition writeAdmit ::
  "WriteChunk list \<Rightarrow> recv_end \<Rightarrow> ('p, 'x, 'q) Server \<Rightarrow> srv_error + (BlockHash \<times> WriteHeader \<times> bytes)" where
  "writeAdmit msgs fin s =
     (case assembleBlock msgs fin of
        Inl err \<Rightarrow> Inl err
      | Inr (hdr, buf) \<Rightarrow>
          (case toBlockHash (wh_BlockHash hdr) of
             None \<Rightarrow> Inl (InvalidArgument ''block_hash must be 32 bytes'')
           | Some h \<Rightarrow>
               if OverHardLimit (len64 buf) (sv_store s) then Inl (ResourceExhausted ''cache full'')
               else Inr (h, hdr, buf)))"

definition writeCommit ::
  "'p EvictionPolicy \<Rightarrow> time \<Rightarrow> BlockHash \<Rightarrow> WriteHeader \<Rightarrow> bytes \<Rightarrow> string option \<Rightarrow> ('p, 'x, 'q) Server
     \<Rightarrow> (srv_error + WriteResponse) \<times> ('p, 'x, 'q) Server" where
  "writeCommit P now h hdr buf ack s =
     (let (ver, store') = Put P now h (Some (newEntry (wh_ModelId hdr) buf (wh_TokenIds hdr)
                             (wh_TenantId hdr) (wh_RecomputeCost hdr))) (sv_store s);
          s1 = s\<lparr>sv_store := store'\<rparr>;
          s2 = (case sv_repl s1 of
                  None \<Rightarrow> s1
                | Some enqueue \<Rightarrow> s1\<lparr>sv_queue := enqueue
                    \<lparr>rj_Hash = h, rj_ModelID = wh_ModelId hdr, rj_KV = buf, rj_TokenIDs = wh_TokenIds hdr,
                     rj_TenantID = wh_TenantId hdr, rj_RecomputeCost = wh_RecomputeCost hdr,
                     rj_Version = ver, rj_RoutingKey = wh_RoutingKey hdr\<rparr> (sv_queue s1)\<rparr>)
      in (sendAndClose ack \<lparr>wr_Version = ver, wr_Stored = True\<rparr>, s2))"

definition srv_Write ::
  "'p EvictionPolicy \<Rightarrow> time \<Rightarrow> WriteChunk list \<Rightarrow> recv_end \<Rightarrow> string option \<Rightarrow> ('p, 'x, 'q) Server
     \<Rightarrow> (srv_error + WriteResponse) \<times> ('p, 'x, 'q) Server" where
  "srv_Write P now msgs fin ack s =
     (case writeAdmit msgs fin s of
        Inl err \<Rightarrow> (Inl err, s)
      | Inr (h, hdr, buf) \<Rightarrow> writeCommit P now h hdr buf ack s)"

lemmas Write_defs = srv_Write_def writeAdmit_def writeCommit_def

definition srv_Replicate ::
  "'p EvictionPolicy \<Rightarrow> time \<Rightarrow> WriteChunk list \<Rightarrow> recv_end \<Rightarrow> string option \<Rightarrow> ('p, 'x, 'q) Server
     \<Rightarrow> (srv_error + WriteResponse) \<times> ('p, 'x, 'q) Server" where
  "srv_Replicate P now msgs fin ack s =
     (case assembleBlock msgs fin of
        Inl err \<Rightarrow> (Inl err, s)
      | Inr (hdr, buf) \<Rightarrow>
          (case toBlockHash (wh_BlockHash hdr) of
             None \<Rightarrow> (Inl (InvalidArgument ''block_hash must be 32 bytes''), s)
           | Some h \<Rightarrow>
               let ver = wh_Version hdr
               in if ver = 0 then (Inl (InvalidArgument ''Replicate requires header.version > 0''), s)
                  else let (stored, store') = PutWithVersion P now h (Some (newEntry (wh_ModelId hdr) buf (wh_TokenIds hdr)
                                                 (wh_TenantId hdr) (wh_RecomputeCost hdr))) ver (sv_store s)
                       in (sendAndClose ack \<lparr>wr_Version = stored, wr_Stored = (stored = ver)\<rparr>, s\<lparr>sv_store := store'\<rparr>)))"

section \<open>Evict and Health\<close>

definition srv_Evict ::
  "'p EvictionPolicy \<Rightarrow> string \<Rightarrow> bytes \<Rightarrow> ('p, 'x, 'q) Server \<Rightarrow> (srv_error + bool) \<times> ('p, 'x, 'q) Server" where
  "srv_Evict P model hb s =
     (case toBlockHash hb of
        None \<Rightarrow> (Inl (InvalidArgument ''block_hash must be 32 bytes''), s)
      | Some h \<Rightarrow>
          let (evicted, store') = Delete P model h (sv_store s); s1 = s\<lparr>sv_store := store'\<rparr>
          in (Inr evicted, if evicted then emit (MEviction ''manual'' 1) s1 else s1))"

definition Health :: "('p, 'x, 'q) Server \<Rightarrow> bool \<times> ('p, 'x, 'q) Server" where
  "Health s = (True, s)"

end
