(* ===== verification/Policy_LRU.thy ===== *)
theory Policy_LRU
  imports Cache_Types
begin

text \<open>
  \<^verbatim>\<open>internal/cache/lru.go\<close>: the least-recently-used policy over Go's \<^verbatim>\<open>container/list\<close>. A list element
  has an identity (the pointer) and a value; \<open>lru_ll\<close> is the list from front to back, \<open>lru_items\<close> the
  map from a hash to the element that holds it. The policy refines a plain list of keys in recency order
  (\<open>recency\<close>) and satisfies the contract \<open>eviction_policy\<close>.
\<close>

section \<open>container/list\<close>

type_synonym elem = nat

definition list_MoveToFront :: "elem \<Rightarrow> (elem, 'a) gomap \<Rightarrow> (elem, 'a) gomap" where
  "list_MoveToFront e l = (case gm_get l e of None \<Rightarrow> l | Some v \<Rightarrow> (e, v) # gm_del e l)"

definition list_PushFront :: "elem \<Rightarrow> 'a \<Rightarrow> (elem, 'a) gomap \<Rightarrow> (elem, 'a) gomap" where
  "list_PushFront e v l = (e, v) # l"

definition list_Remove :: "elem \<Rightarrow> (elem, 'a) gomap \<Rightarrow> (elem, 'a) gomap" where
  "list_Remove e l = gm_del e l"

definition list_Back :: "(elem, 'a) gomap \<Rightarrow> (elem \<times> 'a) option" where
  "list_Back l = (if l = [] then None else Some (last l))"

section \<open>The policy\<close>

record LRUPolicy =
  lru_ll :: "(elem, BlockHash) gomap"
  lru_items :: "(BlockHash, elem) gomap"
  lru_next :: elem

definition NewLRU :: LRUPolicy where
  "NewLRU = \<lparr>lru_ll = [], lru_items = [], lru_next = 0\<rparr>"

definition lru_RecordAccess :: "BlockHash \<Rightarrow> LRUPolicy \<Rightarrow> LRUPolicy" where
  "lru_RecordAccess h p =
     (case gm_get (lru_items p) h of
        Some e \<Rightarrow> p\<lparr>lru_ll := list_MoveToFront e (lru_ll p)\<rparr>
      | None \<Rightarrow> p)"

definition lru_RecordWrite :: "WriteMeta \<Rightarrow> LRUPolicy \<Rightarrow> LRUPolicy" where
  "lru_RecordWrite meta p =
     (let h = wm_Key meta
      in case gm_get (lru_items p) h of
           Some e \<Rightarrow> p\<lparr>lru_ll := list_MoveToFront e (lru_ll p)\<rparr>
         | None \<Rightarrow>
             let e = lru_next p
             in p\<lparr>lru_ll := list_PushFront e h (lru_ll p), lru_items := gm_put h e (lru_items p),
                  lru_next := e + 1\<rparr>)"

definition lru_RecordEvict :: "BlockHash \<Rightarrow> LRUPolicy \<Rightarrow> LRUPolicy" where
  "lru_RecordEvict h p =
     (case gm_get (lru_items p) h of
        Some e \<Rightarrow> p\<lparr>lru_ll := list_Remove e (lru_ll p), lru_items := gm_del h (lru_items p)\<rparr>
      | None \<Rightarrow> p)"

definition lru_Victim :: "LRUPolicy \<Rightarrow> LRUPolicy \<times> BlockHash option" where
  "lru_Victim p = (p, case list_Back (lru_ll p) of None \<Rightarrow> None | Some (e, key) \<Rightarrow> Some key)"

definition LRU :: "LRUPolicy EvictionPolicy" where
  "LRU = \<lparr>RecordAccess = lru_RecordAccess, RecordWrite = lru_RecordWrite,
     RecordEvict = lru_RecordEvict, Victim = lru_Victim, OverQuota = None\<rparr>"

section \<open>Invariant and abstraction\<close>

text \<open>The keys from the most to the least recently used.\<close>

definition recency :: "LRUPolicy \<Rightarrow> BlockHash list" where
  "recency p = map snd (lru_ll p)"

definition lru_inv :: "LRUPolicy \<Rightarrow> bool" where
  "lru_inv p \<longleftrightarrow> gm_wf (lru_ll p) \<and> gm_wf (lru_items p) \<and>
     (\<forall>e h. (e, h) \<in> set (lru_ll p) \<longleftrightarrow> (h, e) \<in> set (lru_items p)) \<and>
     (\<forall>e \<in> gm_keys (lru_ll p). e < lru_next p)"

lemma lru_inv_NewLRU: "lru_inv NewLRU"
  by (simp add: lru_inv_def NewLRU_def)

lemma lru_items_get: "lru_inv p \<Longrightarrow> gm_get (lru_items p) h = Some e \<longleftrightarrow> (e, h) \<in> set (lru_ll p)"
  by (simp add: lru_inv_def)

lemma lru_items_keys: "lru_inv p \<Longrightarrow> gm_keys (lru_items p) = set (recency p)"
  unfolding lru_inv_def recency_def by force

lemma lru_items_None: "lru_inv p \<Longrightarrow> gm_get (lru_items p) h = None \<longleftrightarrow> h \<notin> set (recency p)"
  by (simp add: map_of_eq_None_iff lru_items_keys)

lemma lru_elem_key:
  assumes "lru_inv p" and "(e, h) \<in> set (lru_ll p)" and "(e', h') \<in> set (lru_ll p)"
  shows "e' = e \<longleftrightarrow> h' = h"
proof
  assume "e' = e"
  then show "h' = h" using assms gm_unique [of "lru_ll p" e h h'] unfolding lru_inv_def by simp
next
  assume "h' = h"
  then show "e' = e" using assms gm_unique [of "lru_items p" h e e'] unfolding lru_inv_def by simp
qed

lemma lru_recency_distinct: "lru_inv p \<Longrightarrow> distinct (recency p)"
proof -
  assume inv: "lru_inv p"
  then have "distinct (lru_ll p)" by (simp add: lru_inv_def distinct_map)
  moreover have "inj_on snd (set (lru_ll p))"
    by (rule inj_onI) (use lru_elem_key [OF inv] in \<open>metis prod.collapse\<close>)
  ultimately show ?thesis by (simp add: recency_def distinct_map)
qed

text \<open>Removing the element of a key from the list removes the key from the recency order.\<close>

lemma recency_del:
  assumes "lru_inv p" and "(e, h) \<in> set (lru_ll p)"
  shows "map snd (gm_del e (lru_ll p)) = removeAll h (recency p)"
proof -
  have "map snd (gm_del e l) = removeAll h (map snd l)" if "set l \<subseteq> set (lru_ll p)" for l
    using that
  proof (induction l)
    case (Cons x l)
    then have "fst x = e \<longleftrightarrow> snd x = h"
      using lru_elem_key [OF assms, of "fst x" "snd x"] by simp
    with Cons show ?case by auto
  qed simp
  then show ?thesis by (simp add: recency_def)
qed

section \<open>Every operation refines its recency-list counterpart\<close>

lemma lru_move:
  assumes inv: "lru_inv p" and e: "(e, h) \<in> set (lru_ll p)"
  shows "lru_inv (p\<lparr>lru_ll := list_MoveToFront e (lru_ll p)\<rparr>)"
    and "recency (p\<lparr>lru_ll := list_MoveToFront e (lru_ll p)\<rparr>) = h # removeAll h (recency p)"
proof -
  have wf: "gm_wf (lru_ll p)" using inv by (simp add: lru_inv_def)
  then have get: "gm_get (lru_ll p) e = Some h" using e by simp
  have in_iff: "(e', h') \<in> set ((e, h) # gm_del e (lru_ll p)) \<longleftrightarrow> (e', h') \<in> set (lru_ll p)" for e' h'
    using e wf gm_unique [OF wf e, of h'] by (auto simp: gm_in_del)
  have "gm_keys ((e, h) # gm_del e (lru_ll p)) = gm_keys (lru_ll p)"
    using e by force
  then show "lru_inv (p\<lparr>lru_ll := list_MoveToFront e (lru_ll p)\<rparr>)"
    using inv in_iff unfolding lru_inv_def by (simp add: list_MoveToFront_def get)
  show "recency (p\<lparr>lru_ll := list_MoveToFront e (lru_ll p)\<rparr>) = h # removeAll h (recency p)"
    using recency_del [OF inv e] by (simp add: recency_def list_MoveToFront_def get)
qed

lemma lru_RecordAccess_refines:
  assumes "lru_inv p"
  shows "lru_inv (lru_RecordAccess h p)"
    and "recency (lru_RecordAccess h p) =
      (if h \<in> set (recency p) then h # removeAll h (recency p) else recency p)"
  using assms lru_move [OF assms] lru_items_None [OF assms, of h] lru_items_get [OF assms, of h]
  by (auto simp: lru_RecordAccess_def split: option.splits)

lemma lru_RecordWrite_refines:
  assumes inv: "lru_inv p"
  shows "lru_inv (lru_RecordWrite m p)"
    and "recency (lru_RecordWrite m p) = wm_Key m # removeAll (wm_Key m) (recency p)"
proof -
  let ?h = "wm_Key m"
  have "lru_inv (lru_RecordWrite m p) \<and> recency (lru_RecordWrite m p) = ?h # removeAll ?h (recency p)"
  proof (cases "gm_get (lru_items p) ?h")
    case (Some e)
    then have "(e, ?h) \<in> set (lru_ll p)" using lru_items_get [OF inv] by simp
    with Some show ?thesis using lru_move [OF inv, of e ?h] by (simp add: lru_RecordWrite_def)
  next
    case None
    then have new: "?h \<notin> set (recency p)" using lru_items_None [OF inv] by simp
    then have "?h \<notin> gm_keys (lru_items p)" by (simp add: lru_items_keys [OF inv])
    moreover have "lru_next p \<notin> gm_keys (lru_ll p)" using inv by (auto simp: lru_inv_def)
    ultimately have "lru_inv (lru_RecordWrite m p)"
      using inv None unfolding lru_inv_def
      by (auto simp: lru_RecordWrite_def Let_def list_PushFront_def gm_in_put rev_image_eqI less_Suc_eq)
    with new None show ?thesis
      by (simp add: lru_RecordWrite_def Let_def list_PushFront_def recency_def)
  qed
  then show "lru_inv (lru_RecordWrite m p)"
    and "recency (lru_RecordWrite m p) = ?h # removeAll ?h (recency p)" by auto
qed

lemma lru_RecordEvict_refines:
  assumes inv: "lru_inv p"
  shows "lru_inv (lru_RecordEvict h p)" and "recency (lru_RecordEvict h p) = removeAll h (recency p)"
proof -
  have "lru_inv (lru_RecordEvict h p) \<and> recency (lru_RecordEvict h p) = removeAll h (recency p)"
  proof (cases "gm_get (lru_items p) h")
    case (Some e)
    then have e: "(e, h) \<in> set (lru_ll p)" using lru_items_get [OF inv] by simp
    have wf: "gm_wf (lru_ll p)" "gm_wf (lru_items p)" using inv by (simp_all add: lru_inv_def)
    have "lru_inv (lru_RecordEvict h p)"
      using inv lru_elem_key [OF inv e] wf Some unfolding lru_inv_def
      by (auto simp: lru_RecordEvict_def list_Remove_def gm_in_del)
    then show ?thesis
      using recency_del [OF inv e] Some by (simp add: lru_RecordEvict_def list_Remove_def recency_def)
  next
    case None
    then show ?thesis
      using inv lru_items_None [OF inv, of h] by (simp add: lru_RecordEvict_def)
  qed
  then show "lru_inv (lru_RecordEvict h p)" and "recency (lru_RecordEvict h p) = removeAll h (recency p)"
    by auto
qed

lemma lru_Victim_refines:
  "lru_Victim p = (p, if recency p = [] then None else Some (last (recency p)))"
  by (auto simp: lru_Victim_def list_Back_def recency_def last_map split: prod.splits)

interpretation lru: eviction_policy LRU "\<lambda>p. set (recency p)" lru_inv "\<lambda>_. True"
  by unfold_locales
    (auto simp: LRU_def lru_RecordAccess_refines lru_RecordWrite_refines lru_RecordEvict_refines
      lru_Victim_refines policyOverQuota_def split: if_splits)

section \<open>Histories: the victim is the least recently used key\<close>

fun uses :: "BlockHash \<Rightarrow> policy_call \<Rightarrow> bool" where
  "uses h (Access h') \<longleftrightarrow> h' = h"
| "uses h (Write m) \<longleftrightarrow> wm_Key m = h"
| "uses h (Evict h') \<longleftrightarrow> False"
| "uses h Pick \<longleftrightarrow> False"

text \<open>The policy after a history of calls from its construction.\<close>

definition lru_run :: "policy_call list \<Rightarrow> LRUPolicy" where
  "lru_run calls = policy_run LRU calls NewLRU"

text \<open>The number of the last call that read or wrote a key; 0 when there is none.\<close>

definition last_use :: "policy_call list \<Rightarrow> BlockHash \<Rightarrow> nat" where
  "last_use calls h = fold (\<lambda>(i, c) t. if uses h c then Suc i else t) (List.enumerate 0 calls) 0"

lemma last_use_snoc: "last_use (calls @ [c]) h = (if uses h c then Suc (length calls) else last_use calls h)"
  by (simp add: last_use_def enumerate_append_eq)

lemma last_use_le: "last_use calls h \<le> length calls"
  by (induction calls rule: rev_induct) (auto simp: last_use_snoc, simp add: last_use_def)

lemma lru_run_snoc: "lru_run (calls @ [c]) = policy_step LRU c (lru_run calls)"
  by (simp add: lru_run_def)

lemma lru_run_inv: "lru_inv (lru_run calls)"
  unfolding lru_run_def
  by (rule lru.run_invar [OF lru_inv_NewLRU]) (simp add: list_all_iff)

lemma sorted_wrt_removeAll: "sorted_wrt R xs \<Longrightarrow> sorted_wrt R (removeAll x xs)"
  by (induction xs) auto

text \<open>After every history the recency list is ordered by strictly decreasing last use.\<close>

lemma lru_recency_sorted:
  "sorted_wrt (\<lambda>a b. last_use calls b < last_use calls a) (recency (lru_run calls))"
proof (induction calls rule: rev_induct)
  case Nil
  then show ?case by (simp add: lru_run_def NewLRU_def recency_def)
next
  case (snoc c calls)
  let ?r = "recency (lru_run calls)"
  have keep: "sorted_wrt (\<lambda>a b. last_use (calls @ [c]) b < last_use (calls @ [c]) a) xs"
    if "sorted_wrt (\<lambda>a b. last_use calls b < last_use calls a) xs" "\<forall>x \<in> set xs. \<not> uses x c" for xs
    by (rule sorted_wrt_mono_rel [OF _ that(1)]) (use that(2) in \<open>simp add: last_use_snoc\<close>)
  have front: "sorted_wrt (\<lambda>a b. last_use (calls @ [c]) b < last_use (calls @ [c]) a) (h # removeAll h ?r)"
    if "\<And>x. uses x c \<longleftrightarrow> x = h" for h
    using keep [OF sorted_wrt_removeAll [OF snoc.IH], of h] that last_use_le
    by (auto simp: last_use_snoc less_Suc_eq_le)
  show ?case
  proof (cases c)
    case (Access h)
    then show ?thesis
      using front [of h] keep [OF snoc.IH]
      by (auto simp: lru_run_snoc LRU_def lru_RecordAccess_refines lru_run_inv)
  next
    case (Write m)
    then show ?thesis
      using front [of "wm_Key m"] by (auto simp: lru_run_snoc LRU_def lru_RecordWrite_refines lru_run_inv)
  next
    case (Evict h)
    then show ?thesis
      using keep [OF sorted_wrt_removeAll [OF snoc.IH]]
      by (simp add: lru_run_snoc LRU_def lru_RecordEvict_refines lru_run_inv)
  next
    case Pick
    then show ?thesis using keep [OF snoc.IH] by (simp add: lru_run_snoc LRU_def lru_Victim_def)
  qed
qed

lemma sorted_wrt_last:
  "sorted_wrt R xs \<Longrightarrow> x \<in> set xs \<Longrightarrow> x \<noteq> last xs \<Longrightarrow> R x (last xs)"
  by (induction xs) (auto split: if_splits)

text \<open>
  Property C37: after any history of reads, writes and evictions the LRU victim is a tracked key, and
  every other tracked key was read or written after the victim's last use.
\<close>

theorem lru_victim_least_recently_used:
  assumes "snd (lru_Victim (lru_run calls)) = Some h"
    and "h' \<in> gm_keys (lru_items (lru_run calls))" and "h' \<noteq> h"
  shows "h \<in> gm_keys (lru_items (lru_run calls)) \<and> last_use calls h < last_use calls h'"
proof -
  let ?r = "recency (lru_run calls)"
  have "?r \<noteq> [] \<and> h = last ?r" using assms(1) by (simp add: lru_Victim_refines split: if_splits)
  then show ?thesis
    using sorted_wrt_last [OF lru_recency_sorted, of h' calls] assms(2,3)
    by (simp add: lru_items_keys [OF lru_run_inv])
qed

definition wm_of :: "BlockHash \<Rightarrow> WriteMeta" where
  "wm_of h = \<lparr>wm_Key = h, wm_TenantID = [], wm_Size = 1, wm_Cost = 0\<rparr>"

theorem lru_victim_least_recently_used_witness:
  "last_use [Write (wm_of [1]), Write (wm_of [2]), Access [1]] [2]
     < last_use [Write (wm_of [1]), Write (wm_of [2]), Access [1]] [1]"
proof -
  let ?calls = "[Write (wm_of [1]), Write (wm_of [2]), Access [1]]"
  have "lru_run ?calls = \<lparr>lru_ll = [(0, [1]), (1, [2])], lru_items = [([1], 0), ([2], 1)], lru_next = 2\<rparr>"
    by (simp add: lru_run_def policy_run_def LRU_def NewLRU_def lru_RecordWrite_def lru_RecordAccess_def wm_of_def
        list_PushFront_def list_MoveToFront_def Let_def)
  then show ?thesis
    using lru_victim_least_recently_used [of ?calls "[2]" "[1]"]
    by (simp add: lru_Victim_def list_Back_def)
qed

end
