(* ===== verification/Go_Heap.thy ===== *)
theory Go_Heap
  imports Main "HOL-Library.Multiset"
begin

text \<open>
  Go's \<^verbatim>\<open>container/heap\<close> as \<^verbatim>\<open>internal/cache/gdsf.go\<close> uses it: the sift loops and \<^verbatim>\<open>Push\<close>, \<^verbatim>\<open>Fix\<close>,
  \<^verbatim>\<open>Remove\<close> over a \<^verbatim>\<open>heap.Interface\<close>, here a record of the client's methods over its own state. The
  locale \<open>heap_client\<close> states what such a client promises; inside it the operations are shown to
  restore the heap order and to keep the multiset of priorities.
\<close>

section \<open>The interface and the operations\<close>

record ('s, 'x) heap_interface =
  heap_Len :: "'s \<Rightarrow> nat"
  heap_Less :: "nat \<Rightarrow> nat \<Rightarrow> 's \<Rightarrow> bool"
  heap_Swap :: "nat \<Rightarrow> nat \<Rightarrow> 's \<Rightarrow> 's"
  heap_Push_method :: "'x \<Rightarrow> 's \<Rightarrow> 's"
  heap_Pop_method :: "'s \<Rightarrow> 's"

function heap_up :: "('s, 'x) heap_interface \<Rightarrow> nat \<Rightarrow> 's \<Rightarrow> 's" where
  "heap_up H j s =
     (let i = (j - 1) div 2
      in if i = j \<or> \<not> heap_Less H j i s then s else heap_up H i (heap_Swap H i j s))"
  by pat_completeness auto
termination
  by (relation "measure (\<lambda>(H, j, s). j)") auto

function heap_down :: "('s, 'x) heap_interface \<Rightarrow> nat \<Rightarrow> nat \<Rightarrow> 's \<Rightarrow> nat \<times> 's" where
  "heap_down H i n s =
     (let j1 = 2 * i + 1
      in if n \<le> j1 then (i, s)
         else let j = (if j1 + 1 < n \<and> heap_Less H (j1 + 1) j1 s then j1 + 1 else j1)
              in if \<not> heap_Less H j i s then (i, s) else heap_down H j n (heap_Swap H i j s))"
  by pat_completeness auto
termination
  by (relation "measure (\<lambda>(H, i, n, s). n - i)") (auto simp: Let_def split: if_splits)

declare heap_up.simps [simp del] heap_down.simps [simp del]

definition heap_Push :: "('s, 'x) heap_interface \<Rightarrow> 'x \<Rightarrow> 's \<Rightarrow> 's" where
  "heap_Push H x s = (let s' = heap_Push_method H x s in heap_up H (heap_Len H s' - 1) s')"

definition heap_Fix :: "('s, 'x) heap_interface \<Rightarrow> nat \<Rightarrow> 's \<Rightarrow> 's" where
  "heap_Fix H i s = (let (i', s') = heap_down H i (heap_Len H s) s in if i < i' then s' else heap_up H i s')"

definition heap_Remove :: "('s, 'x) heap_interface \<Rightarrow> nat \<Rightarrow> 's \<Rightarrow> 's" where
  "heap_Remove H i s =
     (let n = heap_Len H s - 1;
          s' = (if n = i then s
                else let (i', s') = heap_down H i n (heap_Swap H i n s)
                     in if i < i' then s' else heap_up H i s')
      in heap_Pop_method H s')"

section \<open>Heap order on lists\<close>

definition par :: "nat \<Rightarrow> nat" where
  "par c = (c - 1) div 2"

definition heap_ord :: "'k::linorder list \<Rightarrow> nat \<Rightarrow> bool" where
  "heap_ord xs n \<longleftrightarrow> (\<forall>c<n. 0 < c \<longrightarrow> xs ! par c \<le> xs ! c)"

text \<open>
  The order may fail around one node \<open>i\<close>: \<open>heap_exc\<close> on both sides, \<open>heap_up_exc\<close> only towards its
  parent, \<open>heap_down_exc\<close> only towards its children. In each case the children of \<open>i\<close> are not below
  its parent.
\<close>

definition grand_ok :: "'k::linorder list \<Rightarrow> nat \<Rightarrow> nat \<Rightarrow> bool" where
  "grand_ok xs n i \<longleftrightarrow> (\<forall>c<n. 0 < c \<longrightarrow> 0 < i \<longrightarrow> par c = i \<longrightarrow> xs ! par i \<le> xs ! c)"

definition heap_exc :: "'k::linorder list \<Rightarrow> nat \<Rightarrow> nat \<Rightarrow> bool" where
  "heap_exc xs n i \<longleftrightarrow> (\<forall>c<n. 0 < c \<longrightarrow> c \<noteq> i \<longrightarrow> par c \<noteq> i \<longrightarrow> xs ! par c \<le> xs ! c) \<and> grand_ok xs n i"

definition heap_up_exc :: "'k::linorder list \<Rightarrow> nat \<Rightarrow> nat \<Rightarrow> bool" where
  "heap_up_exc xs n i \<longleftrightarrow> (\<forall>c<n. 0 < c \<longrightarrow> c \<noteq> i \<longrightarrow> xs ! par c \<le> xs ! c) \<and> grand_ok xs n i"

definition heap_down_exc :: "'k::linorder list \<Rightarrow> nat \<Rightarrow> nat \<Rightarrow> bool" where
  "heap_down_exc xs n i \<longleftrightarrow> (\<forall>c<n. 0 < c \<longrightarrow> par c \<noteq> i \<longrightarrow> xs ! par c \<le> xs ! c) \<and> grand_ok xs n i"

definition swap :: "nat \<Rightarrow> nat \<Rightarrow> 'a list \<Rightarrow> 'a list" where
  "swap i j xs = xs[i := xs ! j, j := xs ! i]"

lemma length_swap [simp]: "length (swap i j xs) = length xs"
  by (simp add: swap_def)

lemma nth_swap: "i < length xs \<Longrightarrow> j < length xs \<Longrightarrow>
    swap i j xs ! k = (if k = j then xs ! i else if k = i then xs ! j else xs ! k)"
  by (auto simp: swap_def nth_list_update)

lemma mset_swap' [simp]: "i < length xs \<Longrightarrow> j < length xs \<Longrightarrow> mset (swap i j xs) = mset xs"
  by (simp add: swap_def mset_swap)

lemma take_swap: "i < n \<Longrightarrow> j < n \<Longrightarrow> n \<le> length xs \<Longrightarrow> take n (swap i j xs) = swap i j (take n xs)"
  by (simp add: swap_def take_update_swap)

lemma drop_swap: "i < n \<Longrightarrow> j < n \<Longrightarrow> drop n (swap i j xs) = drop n xs"
  by (simp add: swap_def drop_update_cancel)

lemma par_less: "0 < c \<Longrightarrow> par c < c"
  by (simp add: par_def)

lemma par_child: "0 < c \<Longrightarrow> par c = i \<longleftrightarrow> c = 2 * i + 1 \<or> c = 2 * i + 2"
  unfolding par_def by linarith

lemma heap_down_exc_exc: "heap_down_exc xs n i \<Longrightarrow> heap_exc xs n i"
  by (simp add: heap_down_exc_def heap_exc_def)

lemma heap_ord_exc_update:
  assumes "heap_ord xs n" and "i < n" and "n \<le> length xs"
  shows "heap_exc (xs[i := v]) n i"
proof -
  have "grand_ok (xs[i := v]) n i"
    unfolding grand_ok_def
  proof (intro allI impI)
    fix c assume c: "c < n" "0 < c" "0 < i" "par c = i"
    then have "par i < i" "i < c" using par_less by auto
    moreover have "xs ! par i \<le> xs ! i" "xs ! i \<le> xs ! c"
      using assms c unfolding heap_ord_def by auto
    ultimately show "xs[i := v] ! par i \<le> xs[i := v] ! c"
      using assms(3) c(1) by simp
  qed
  then show ?thesis
    using assms unfolding heap_exc_def heap_ord_def by (auto simp: nth_list_update)
qed

lemma up_exc_stop:
  "heap_up_exc xs n j \<Longrightarrow> j = 0 \<or> xs ! par j \<le> xs ! j \<Longrightarrow> heap_ord xs n"
  unfolding heap_up_exc_def heap_ord_def by auto

lemma up_exc_step:
  assumes exc: "heap_up_exc xs n j" and j: "0 < j" "j < n" and n: "n \<le> length xs"
    and lt: "xs ! j < xs ! par j"
  shows "heap_up_exc (swap (par j) j xs) n (par j)"
proof -
  let ?i = "par j"
  have i: "?i < j" using par_less j by simp
  have nth: "swap ?i j xs ! k = (if k = j then xs ! ?i else if k = ?i then xs ! j else xs ! k)" for k
    using i j n by (intro nth_swap) auto
  have ord: "\<And>c. c < n \<Longrightarrow> 0 < c \<Longrightarrow> c \<noteq> j \<Longrightarrow> xs ! par c \<le> xs ! c"
    and grand: "\<And>c. c < n \<Longrightarrow> 0 < c \<Longrightarrow> par c = j \<Longrightarrow> xs ! ?i \<le> xs ! c"
    using exc j unfolding heap_up_exc_def grand_ok_def by auto
  have "swap ?i j xs ! par c \<le> swap ?i j xs ! c" if c: "c < n" "0 < c" "c \<noteq> ?i" for c
  proof -
    have "par c \<noteq> c" using par_less [OF c(2)] by simp
    then show ?thesis
      using ord [OF c(1,2)] grand [OF c(1,2)] lt c i unfolding nth by (auto split: if_splits)
  qed
  moreover have "grand_ok (swap ?i j xs) n ?i"
    unfolding grand_ok_def
  proof (intro allI impI)
    fix c assume c: "c < n" "0 < c" "0 < ?i" "par c = ?i"
    have pi: "par ?i < ?i" using par_less c(3) by simp
    have "xs ! par ?i \<le> xs ! ?i" using ord [of ?i] i j c(3) by auto
    moreover have "xs ! ?i \<le> xs ! c" if "c \<noteq> j" using ord [OF c(1,2) that] c(4) by simp
    ultimately show "swap ?i j xs ! par ?i \<le> swap ?i j xs ! c"
      using pi i c(4) par_less [OF c(2)] unfolding nth by (auto split: if_splits)
  qed
  ultimately show ?thesis by (simp add: heap_up_exc_def)
qed

text \<open>\<open>min_child\<close>: the child of \<open>i\<close> below \<open>n\<close> that the sift-down loop compares with.\<close>

definition min_child :: "'k::linorder list \<Rightarrow> nat \<Rightarrow> nat \<Rightarrow> nat \<Rightarrow> bool" where
  "min_child xs n i j \<longleftrightarrow> j < n \<and> 0 < j \<and> par j = i \<and> (\<forall>c<n. 0 < c \<longrightarrow> par c = i \<longrightarrow> xs ! j \<le> xs ! c)"

lemma exc_stop_up:
  assumes "heap_exc xs n i" and "\<And>c. c < n \<Longrightarrow> 0 < c \<Longrightarrow> par c = i \<Longrightarrow> xs ! i \<le> xs ! c"
  shows "heap_up_exc xs n i"
  using assms unfolding heap_exc_def heap_up_exc_def by blast

lemma down_exc_stop:
  assumes "heap_down_exc xs n i" and "\<And>c. c < n \<Longrightarrow> 0 < c \<Longrightarrow> par c = i \<Longrightarrow> xs ! i \<le> xs ! c"
  shows "heap_ord xs n"
  using assms unfolding heap_down_exc_def heap_ord_def by blast

lemma exc_step_down:
  assumes exc: "heap_exc xs n i" and n: "n \<le> length xs" and j: "min_child xs n i j"
    and lt: "xs ! j < xs ! i"
  shows "heap_down_exc (swap i j xs) n j"
proof -
  have j': "j < n" "0 < j" "par j = i" and min: "\<And>c. c < n \<Longrightarrow> 0 < c \<Longrightarrow> par c = i \<Longrightarrow> xs ! j \<le> xs ! c"
    using j unfolding min_child_def by auto
  have ij: "i < j" using par_less [OF j'(2)] j'(3) by simp
  have nth: "swap i j xs ! k = (if k = j then xs ! i else if k = i then xs ! j else xs ! k)" for k
    using ij j' n by (intro nth_swap) auto
  have ord: "\<And>c. c < n \<Longrightarrow> 0 < c \<Longrightarrow> c \<noteq> i \<Longrightarrow> par c \<noteq> i \<Longrightarrow> xs ! par c \<le> xs ! c"
    and grand: "\<And>c. c < n \<Longrightarrow> 0 < c \<Longrightarrow> 0 < i \<Longrightarrow> par c = i \<Longrightarrow> xs ! par i \<le> xs ! c"
    using exc unfolding heap_exc_def grand_ok_def by auto
  have "swap i j xs ! par c \<le> swap i j xs ! c" if c: "c < n" "0 < c" "par c \<noteq> j" for c
  proof -
    have pc: "par c < c" using par_less [OF c(2)] .
    consider "c = j" | "c = i" "0 < i" | "c \<noteq> j" "c \<noteq> i" "par c = i" | "c \<noteq> j" "c \<noteq> i" "par c \<noteq> i"
      using c(2) by blast
    then show ?thesis
    proof cases
      case 1
      then show ?thesis using j'(3) ij lt by (simp add: nth)
    next
      case 2
      then show ?thesis using grand [OF j'(1,2) _ j'(3)] ij pc by (simp add: nth)
    next
      case 3
      then show ?thesis using min [OF c(1,2)] ij by (simp add: nth)
    next
      case 4
      then show ?thesis using ord [OF c(1,2)] c(3) by (simp add: nth)
    qed
  qed
  moreover have "grand_ok (swap i j xs) n j"
    unfolding grand_ok_def
  proof (intro allI impI)
    fix c assume c: "c < n" "0 < c" "0 < j" "par c = j"
    have "j < c" using par_less [OF c(2)] c(4) by simp
    then show "swap i j xs ! par j \<le> swap i j xs ! c"
      using ord [OF c(1,2)] c(4) ij j' unfolding nth by (auto split: if_splits)
  qed
  ultimately show ?thesis by (simp add: heap_down_exc_def)
qed

lemma heap_ord_root:
  assumes "heap_ord xs n" and "c < n"
  shows "xs ! 0 \<le> xs ! c"
  using assms(2)
proof (induction c rule: less_induct)
  case (less c)
  show ?case
  proof (cases "c = 0")
    case False
    then have "par c < c" using par_less by simp
    with less have "xs ! 0 \<le> xs ! par c" by simp
    also have "\<dots> \<le> xs ! c" using assms(1) less.prems False unfolding heap_ord_def by simp
    finally show ?thesis .
  qed simp
qed

lemma heap_ord_take: "n \<le> m \<Longrightarrow> heap_ord (take m xs) n \<longleftrightarrow> heap_ord xs n"
  unfolding heap_ord_def by (auto simp: par_def)

lemma heap_ord_mono: "heap_ord xs n \<Longrightarrow> m \<le> n \<Longrightarrow> heap_ord xs m"
  unfolding heap_ord_def by auto

lemma heap_ord_append_exc:
  assumes "heap_ord xs (length xs)"
  shows "heap_up_exc (xs @ [v]) (Suc (length xs)) (length xs)"
proof -
  have "(xs @ [v]) ! par c \<le> (xs @ [v]) ! c" if "c < length xs" "0 < c" for c
    using that assms par_less [of c] by (simp add: nth_append heap_ord_def)
  moreover have "par c \<noteq> length xs" if "c < Suc (length xs)" "0 < c" for c
    using that par_less [of c] by simp
  ultimately show ?thesis
    unfolding heap_up_exc_def grand_ok_def by (auto simp: less_Suc_eq)
qed

text \<open>The loops unfolded once, with the child the sift-down loop picks named.\<close>

definition down_child :: "('s, 'x) heap_interface \<Rightarrow> nat \<Rightarrow> nat \<Rightarrow> 's \<Rightarrow> nat" where
  "down_child H i n s =
     (if 2 * i + 2 < n \<and> heap_Less H (2 * i + 2) (2 * i + 1) s then 2 * i + 2 else 2 * i + 1)"

lemma heap_up_unfold:
  "heap_up H j s =
     (if par j = j \<or> \<not> heap_Less H j (par j) s then s else heap_up H (par j) (heap_Swap H (par j) j s))"
  by (subst heap_up.simps) (simp add: par_def Let_def)

lemma heap_down_unfold:
  "heap_down H i n s =
     (if n \<le> 2 * i + 1 \<or> \<not> heap_Less H (down_child H i n s) i s then (i, s)
      else heap_down H (down_child H i n s) n (heap_Swap H i (down_child H i n s) s))"
  by (subst heap_down.simps) (simp add: down_child_def Let_def)

text \<open>What every exchange of two positions below \<open>n\<close> keeps, the sift loops keep.\<close>

lemma heap_up_keeps:
  assumes "\<And>i j s. i < n \<Longrightarrow> j < n \<Longrightarrow> Q s \<Longrightarrow> Q (heap_Swap H i j s)" and "Q s" and "j < n"
  shows "Q (heap_up H j s)"
  using assms(2,3)
proof (induction j arbitrary: s rule: less_induct)
  case (less j)
  show ?case
  proof (cases "par j = j \<or> \<not> heap_Less H j (par j) s")
    case True
    then show ?thesis using less.prems by (subst heap_up_unfold) simp
  next
    case False
    then have "par j < j" using par_less [of j] by (auto simp: par_def)
    then have "Q (heap_up H (par j) (heap_Swap H (par j) j s))"
      using less assms(1) by (meson less_trans)
    then show ?thesis using False by (subst heap_up_unfold) simp
  qed
qed

lemma heap_down_keeps:
  assumes "\<And>i j s. i < n \<Longrightarrow> j < n \<Longrightarrow> Q s \<Longrightarrow> Q (heap_Swap H i j s)" and "Q s" and "i < n"
  shows "Q (snd (heap_down H i n s))"
  using assms(2,3)
proof (induction "n - i" arbitrary: i s rule: less_induct)
  case less
  let ?j = "down_child H i n s"
  show ?case
  proof (cases "n \<le> 2 * i + 1 \<or> \<not> heap_Less H ?j i s")
    case True
    then show ?thesis using less.prems by (subst heap_down_unfold) simp
  next
    case False
    then have j: "?j < n" "i < ?j" by (auto simp: down_child_def)
    have "Q (snd (heap_down H ?j n (heap_Swap H i ?j s)))"
      using less.prems j assms(1) [of i ?j s] by (intro less.hyps) auto
    then show ?thesis using False by (subst heap_down_unfold) simp
  qed
qed

section \<open>The client's contract, and what the operations then guarantee\<close>

text \<open>
  \<open>prio s\<close> is the list of priorities in heap position order, \<open>invar\<close> the client's own invariant on
  which its methods act as the interface says; \<^verbatim>\<open>Less\<close> compares priorities, \<^verbatim>\<open>Swap\<close> exchanges two
  positions.
\<close>

locale heap_client =
  fixes H :: "('s, 'x) heap_interface"
    and prio :: "'s \<Rightarrow> 'k::linorder list"
    and invar :: "'s \<Rightarrow> bool"
  assumes Len_law: "invar s \<Longrightarrow> heap_Len H s = length (prio s)"
    and Less_law: "invar s \<Longrightarrow> i < length (prio s) \<Longrightarrow> j < length (prio s) \<Longrightarrow>
      heap_Less H i j s \<longleftrightarrow> prio s ! i < prio s ! j"
    and Swap_law: "invar s \<Longrightarrow> i < length (prio s) \<Longrightarrow> j < length (prio s) \<Longrightarrow>
      invar (heap_Swap H i j s) \<and> prio (heap_Swap H i j s) = swap i j (prio s)"
begin

text \<open>\<open>Same n s s'\<close>: the client invariant holds after, the positions from \<open>n\<close> on are untouched and those
  below hold the same priorities.\<close>

definition same_below :: "nat \<Rightarrow> 's \<Rightarrow> 's \<Rightarrow> bool" where
  "same_below n s s' \<longleftrightarrow> invar s' \<and> length (prio s') = length (prio s) \<and>
     drop n (prio s') = drop n (prio s) \<and> mset (take n (prio s')) = mset (take n (prio s))"

lemma same_below_refl: "invar s \<Longrightarrow> same_below n s s"
  by (simp add: same_below_def)

lemma same_below_trans: "same_below n s t \<Longrightarrow> same_below n t u \<Longrightarrow> same_below n s u"
  by (simp add: same_below_def)

lemma same_below_Swap:
  assumes "invar s" and "i < n" and "j < n" and "n \<le> length (prio s)"
  shows "same_below n s (heap_Swap H i j s)"
  using Swap_law [of s i j] assms by (simp add: same_below_def take_swap drop_swap)

lemma same_below_mset: "same_below n s s' \<Longrightarrow> mset (prio s') = mset (prio s)"
  unfolding same_below_def by (metis append_take_drop_id mset_append)

lemma heap_up_correct:
  assumes "invar s" and "j < n" and "n \<le> length (prio s)" and "heap_up_exc (prio s) n j"
  shows "heap_ord (prio (heap_up H j s)) n \<and> same_below n s (heap_up H j s)"
  using assms
proof (induction j arbitrary: s rule: less_induct)
  case (less j)
  let ?i = "par j"
  have i: "?i \<le> j" by (simp add: par_def)
  show ?case
  proof (cases "?i = j \<or> \<not> heap_Less H j ?i s")
    case True
    then have "heap_up H j s = s" by (subst heap_up_unfold) simp
    moreover have "j = 0 \<or> prio s ! ?i \<le> prio s ! j"
      using True less.prems i par_less [of j] Less_law [of s j ?i] by (auto simp: not_less)
    ultimately show ?thesis
      using less.prems up_exc_stop same_below_refl by metis
  next
    case False
    let ?t = "heap_Swap H ?i j s"
    have j: "0 < j" "?i < j" using False i by (auto simp: par_def)
    have "prio s ! j < prio s ! ?i"
      using False less.prems j Less_law [of s j ?i] by simp
    then have "heap_up_exc (swap ?i j (prio s)) n ?i"
      using less.prems j by (intro up_exc_step) auto
    moreover have sb: "same_below n s ?t"
      using less.prems j by (intro same_below_Swap) auto
    moreover have "prio ?t = swap ?i j (prio s)"
      using Swap_law [of s ?i j] less.prems j by simp
    ultimately have "heap_ord (prio (heap_up H ?i ?t)) n \<and> same_below n ?t (heap_up H ?i ?t)"
      using less.prems j by (intro less.IH) (auto simp: same_below_def)
    moreover have "heap_up H j s = heap_up H ?i ?t"
      using False by (subst heap_up_unfold) simp
    ultimately show ?thesis using sb same_below_trans by metis
  qed
qed

lemma min_child_law:
  assumes "invar s" and "n \<le> length (prio s)" and "2 * i + 1 < n"
  shows "min_child (prio s) n i (down_child H i n s)"
proof -
  let ?j = "down_child H i n s"
  have pj: "0 < ?j" "par ?j = i" "?j < n" using assms(3) by (auto simp: down_child_def par_def)
  have "prio s ! ?j \<le> prio s ! c" if c: "c < n" "0 < c" "par c = i" for c
  proof -
    have "c = 2 * i + 1 \<or> c = 2 * i + 2" using par_child c by blast
    then show ?thesis
      using c(1) assms Less_law [of s "2 * i + 2" "2 * i + 1"] by (auto simp: down_child_def not_less)
  qed
  with pj show ?thesis by (simp add: min_child_def)
qed

text \<open>
  The sift-down loop: from an order broken around \<open>i\<close>, either nothing moved and only the side towards
  the parent may be broken, or the order holds below \<open>n\<close>.
\<close>

lemma heap_down_correct:
  assumes "invar s" and "i < n" and "n \<le> length (prio s)" and "heap_exc (prio s) n i"
    and "heap_down H i n s = (i', s')"
  shows "i \<le> i' \<and> same_below n s s' \<and>
    (i' = i \<longrightarrow> s' = s \<and> heap_up_exc (prio s) n i) \<and>
    (i < i' \<or> heap_down_exc (prio s) n i \<longrightarrow> heap_ord (prio s') n)"
  using assms
proof (induction "n - i" arbitrary: i s rule: less_induct)
  case less
  let ?j = "down_child H i n s"
  have stop: ?case
    if r: "heap_down H i n s = (i, s)" and ch: "\<And>c. c < n \<Longrightarrow> 0 < c \<Longrightarrow> par c = i \<Longrightarrow> prio s ! i \<le> prio s ! c"
    using less.prems r exc_stop_up [OF less.prems(4) ch] down_exc_stop [OF _ ch] same_below_refl by auto
  show ?case
  proof (cases "n \<le> 2 * i + 1")
    case True
    then show ?thesis
      by (intro stop) (auto simp: heap_down_unfold [of H i n s] par_child)
  next
    case False
    then have mc: "min_child (prio s) n i ?j" using less.prems by (intro min_child_law) auto
    then have j: "?j < n" "i < ?j" using par_less [of ?j] unfolding min_child_def by auto
    have L: "heap_Less H ?j i s \<longleftrightarrow> prio s ! ?j < prio s ! i"
      using less.prems j by (intro Less_law) auto
    show ?thesis
    proof (cases "heap_Less H ?j i s")
      case True
      let ?t = "heap_Swap H i ?j s"
      have t: "prio ?t = swap i ?j (prio s)" "invar ?t"
        using Swap_law [of s i ?j] less.prems j by auto
      have de: "heap_down_exc (prio ?t) n ?j"
        unfolding t(1) using True L less.prems mc by (intro exc_step_down) auto
      have sb: "same_below n s ?t"
        using less.prems j by (intro same_below_Swap) auto
      have "heap_down H ?j n ?t = (i', s')"
        using False True less.prems(5) by (subst (asm) heap_down_unfold) simp
      from less.hyps [OF _ t(2) j(1) _ heap_down_exc_exc [OF de] this] de j less.prems
      have "?j \<le> i' \<and> same_below n ?t s' \<and> heap_ord (prio s') n"
        by (simp add: t(1))
      moreover from this have "i < i'" using j(2) by simp
      ultimately show ?thesis using same_below_trans [OF sb] by simp
    next
      case F: False
      then have "heap_down H i n s = (i, s)"
        by (subst heap_down_unfold) simp
      then show ?thesis
        using F L mc by (intro stop) (auto simp: min_child_def not_less intro: order_trans)
    qed
  qed
qed

lemma heap_Fix_correct:
  assumes "invar s" and "i < length (prio s)" and "heap_exc (prio s) (length (prio s)) i"
  shows "invar (heap_Fix H i s)" and "heap_ord (prio (heap_Fix H i s)) (length (prio s))"
    and "mset (prio (heap_Fix H i s)) = mset (prio s)"
proof -
  obtain i' s' where d: "heap_down H i (length (prio s)) s = (i', s')" by fastforce
  have "heap_ord (prio (heap_Fix H i s)) (length (prio s)) \<and> same_below (length (prio s)) s (heap_Fix H i s)"
    using heap_down_correct [OF assms(1,2) _ assms(3) d] heap_up_correct [OF assms(1,2)]
    by (auto simp: heap_Fix_def Len_law [OF assms(1)] d)
  then show "invar (heap_Fix H i s)" and "heap_ord (prio (heap_Fix H i s)) (length (prio s))"
    and "mset (prio (heap_Fix H i s)) = mset (prio s)"
    using same_below_mset by (auto simp: same_below_def)
qed

lemma heap_Push_correct:
  assumes "heap_ord (prio s) (length (prio s))"
    and "invar (heap_Push_method H x s)" and "prio (heap_Push_method H x s) = prio s @ [v]"
  shows "invar (heap_Push H x s)" and "heap_ord (prio (heap_Push H x s)) (length (prio (heap_Push H x s)))"
    and "mset (prio (heap_Push H x s)) = mset (prio s) + {#v#}"
proof -
  let ?t = "heap_Push_method H x s" and ?n = "Suc (length (prio s))"
  have "heap_ord (prio (heap_up H (length (prio s)) ?t)) ?n \<and> same_below ?n ?t (heap_up H (length (prio s)) ?t)"
    using assms heap_ord_append_exc [OF assms(1)] by (intro heap_up_correct) simp_all
  moreover have "heap_Push H x s = heap_up H (length (prio s)) ?t"
    using assms by (simp add: heap_Push_def Len_law)
  ultimately have "heap_ord (prio (heap_Push H x s)) ?n" "same_below ?n ?t (heap_Push H x s)"
    by simp_all
  then show "invar (heap_Push H x s)" "heap_ord (prio (heap_Push H x s)) (length (prio (heap_Push H x s)))"
    "mset (prio (heap_Push H x s)) = mset (prio s) + {#v#}"
    using same_below_mset [of ?n ?t "heap_Push H x s"] assms(3) by (auto simp: same_below_def)
qed

text \<open>\<^verbatim>\<open>Remove\<close> up to its final \<^verbatim>\<open>Pop\<close>: the removed priority sits last, the rest is in heap order.\<close>

definition remove_sifted :: "nat \<Rightarrow> 's \<Rightarrow> 's" where
  "remove_sifted i s =
     (let n = heap_Len H s - 1
      in if n = i then s
         else let (i', s') = heap_down H i n (heap_Swap H i n s) in if i < i' then s' else heap_up H i s')"

lemma heap_Remove_sifted: "heap_Remove H i s = heap_Pop_method H (remove_sifted i s)"
  by (simp add: heap_Remove_def remove_sifted_def Let_def)

lemma remove_sifted_keeps:
  assumes "\<And>i j s. i < n \<Longrightarrow> j < n \<Longrightarrow> Q s \<Longrightarrow> Q (heap_Swap H i j s)" and "i < n"
    and "n = heap_Len H s - 1" and "Q (heap_Swap H i n s)"
  shows "Q (remove_sifted i s)"
proof -
  obtain i' s' where d: "heap_down H i n (heap_Swap H i n s) = (i', s')" by fastforce
  then have "Q s'" using heap_down_keeps [where Q = Q, OF assms(1,4,2)] by simp
  then have "Q (heap_up H i s')" using heap_up_keeps [where Q = Q, OF assms(1) _ assms(2)] by simp
  with \<open>Q s'\<close> show ?thesis
    using d assms(2,3) by (simp add: remove_sifted_def Let_def)
qed

lemma remove_sifted_correct:
  assumes "invar s" and "i < length (prio s)" and ord: "heap_ord (prio s) (length (prio s))"
  defines "n \<equiv> length (prio s) - 1"
  shows "invar (remove_sifted i s) \<and> length (prio (remove_sifted i s)) = length (prio s) \<and>
    prio (remove_sifted i s) ! n = prio s ! i \<and> heap_ord (prio (remove_sifted i s)) n \<and>
    mset (prio (remove_sifted i s)) = mset (prio s)"
proof (cases "n = i")
  case True
  then have "remove_sifted i s = s" by (simp add: remove_sifted_def Len_law [OF assms(1)] n_def)
  then show ?thesis using assms True heap_ord_mono [OF ord, of n] by (simp add: n_def)
next
  case False
  let ?t = "heap_Swap H i n s"
  have n: "i < n" "n < length (prio s)" using assms(2) False by (auto simp: n_def)
  have t: "invar ?t" "prio ?t = swap i n (prio s)" using Swap_law [OF assms(1,2) n(2)] by auto
  have "heap_exc ((prio s)[i := prio s ! n]) n i"
    using heap_ord_exc_update [OF heap_ord_mono [OF ord, of n] n(1)] n(2) by simp
  moreover have "\<And>k. k < n \<Longrightarrow> swap i n (prio s) ! k = (prio s)[i := prio s ! n] ! k"
    by (simp add: swap_def)
  ultimately have exc: "heap_exc (prio ?t) n i"
    unfolding t(2) heap_exc_def grand_ok_def by (simp add: par_def)
  obtain i' s' where d: "heap_down H i n ?t = (i', s')" by fastforce
  have r: "remove_sifted i s = (if i < i' then s' else heap_up H i s')"
    using d False by (simp add: remove_sifted_def Len_law [OF assms(1)] n_def)
  have "heap_ord (prio (remove_sifted i s)) n \<and> same_below n ?t (remove_sifted i s)"
    using heap_down_correct [OF t(1) n(1) _ exc d] heap_up_correct [OF t(1) n(1)] n(2)
    by (auto simp: r t(2))
  moreover from this have "drop n (prio (remove_sifted i s)) = drop n (swap i n (prio s))"
    "length (prio (remove_sifted i s)) = length (prio s)"
    by (simp_all add: same_below_def t(2))
  then have "prio (remove_sifted i s) ! n = swap i n (prio s) ! n"
    using n(2) by (metis Cons_nth_drop_Suc length_swap list.inject)
  ultimately show ?thesis
    using same_below_mset [of n ?t "remove_sifted i s"] t(2) n by (simp add: same_below_def nth_swap)
qed

end

end
