(* ===== verification/Policy_GDSF.thy ===== *)
theory Policy_GDSF
  imports Cache_Types Go_Heap "HOL-Library.Product_Lexorder"
begin

text \<open>
  \<^verbatim>\<open>internal/cache/gdsf.go\<close>: the cost-aware GreedyDual-Size-Frequency policy with static or elastic
  tenant quotas. Items live in an explicit store (\<open>g_mem\<close>, a reference for each \<^verbatim>\<open>*gdsfItem\<close>), since the
  items map and the tenant heaps share them and the heap writes their \<^verbatim>\<open>index\<close> field. The theory interprets
  \<open>heap_client\<close> on the tenant heaps and \<open>eviction_policy\<close> on the whole policy, and characterises the
  victim of both selection rules.
\<close>

section \<open>State\<close>

type_synonym ref = nat

record gdsfItem =
  it_key :: BlockHash
  it_tenant :: string
  it_size :: int64
  it_cost :: f64
  it_freq :: uint64
  it_priority :: f64
  it_index :: int

type_synonym item_mem = "ref \<Rightarrow> gdsfItem"

type_synonym gdsfHeap = "ref list \<times> item_mem"

record tenantState =
  ts_bytes :: int64
  ts_quota :: int64
  ts_h :: "ref list"

record GDSFPolicy =
  g_mem :: item_mem
  g_next :: ref
  g_items :: "(BlockHash, ref) gomap"
  g_tenants :: "(string, tenantState) gomap"
  g_quotas :: "(string, int64) gomap"
  g_inflation :: f64
  g_elastic :: bool
  g_fairnessWeight :: f64

definition maxOverage :: f64 where
  "maxOverage = f64_of_int 1000000000"

definition newGDSF :: "(string, int64) gomap \<Rightarrow> bool \<Rightarrow> f64 \<Rightarrow> GDSFPolicy" where
  "newGDSF quotas elastic fairnessWeight =
     (let q = fold (\<lambda>(k, v) q. gm_put k v q) quotas []
      in \<lparr>g_mem = (\<lambda>_. \<lparr>it_key = [], it_tenant = [], it_size = 0, it_cost = 0, it_freq = 0,
                         it_priority = 0, it_index = 0\<rparr>),
          g_next = 0, g_items = [], g_tenants = [], g_quotas = q, g_inflation = 0,
          g_elastic = elastic, g_fairnessWeight = fairnessWeight\<rparr>)"

definition NewGDSF :: "(string, int64) gomap \<Rightarrow> GDSFPolicy" where
  "NewGDSF quotas = newGDSF quotas False 0"

definition NewGDSFElastic :: "(string, int64) gomap \<Rightarrow> f64 \<Rightarrow> GDSFPolicy" where
  "NewGDSFElastic quotas fairnessWeight =
     newGDSF quotas True
       (if fairnessWeight < 0 then 0 else if 1 < fairnessWeight then 1 else fairnessWeight)"

section \<open>The heap of a tenant\<close>

definition gdsfHeap_Swap :: "nat \<Rightarrow> nat \<Rightarrow> gdsfHeap \<Rightarrow> gdsfHeap" where
  "gdsfHeap_Swap i j = (\<lambda>(h, m).
     let h' = h[i := h ! j, j := h ! i];
         m1 = m(h' ! i := (m (h' ! i))\<lparr>it_index := int i\<rparr>);
         m2 = m1(h' ! j := (m1 (h' ! j))\<lparr>it_index := int j\<rparr>)
     in (h', m2))"

definition gdsfHeap_Push :: "ref \<Rightarrow> gdsfHeap \<Rightarrow> gdsfHeap" where
  "gdsfHeap_Push it = (\<lambda>(h, m). (h @ [it], m(it := (m it)\<lparr>it_index := int (length h)\<rparr>)))"

definition gdsfHeap_Pop :: "gdsfHeap \<Rightarrow> gdsfHeap" where
  "gdsfHeap_Pop = (\<lambda>(h, m). (butlast h, m(last h := (m (last h))\<lparr>it_index := -1\<rparr>)))"

definition gdsfHeap :: "(gdsfHeap, ref) heap_interface" where
  "gdsfHeap = \<lparr>heap_Len = (\<lambda>(h, m). length h),
     heap_Less = (\<lambda>i j (h, m). it_priority (m (h ! i)) < it_priority (m (h ! j))),
     heap_Swap = gdsfHeap_Swap, heap_Push_method = gdsfHeap_Push, heap_Pop_method = gdsfHeap_Pop\<rparr>"

section \<open>Operations\<close>

text \<open>\<^verbatim>\<open>int64\<close> values are compared with their sign.\<close>

definition priorityOf :: "GDSFPolicy \<Rightarrow> uint64 \<Rightarrow> f64 \<Rightarrow> int64 \<Rightarrow> f64" where
  "priorityOf p freq cost sz =
     (let cost' = (if cost \<le> 0 then 1 else cost);
          size' = (if sle64 sz 0 then 1 else sz)
      in g_inflation p + f64_of_int (uint freq) * cost' / f64_of_int (sint size'))"

definition tenantFor :: "string \<Rightarrow> GDSFPolicy \<Rightarrow> GDSFPolicy \<times> tenantState" where
  "tenantFor t p =
     (case gm_get (g_tenants p) t of
        Some ts \<Rightarrow> (p, ts)
      | None \<Rightarrow>
          let ts = \<lparr>ts_bytes = 0, ts_quota = (case gm_get (g_quotas p) t of None \<Rightarrow> 0 | Some q \<Rightarrow> q), ts_h = []\<rparr>
          in (p\<lparr>g_tenants := gm_put t ts (g_tenants p)\<rparr>, ts))"

text \<open>
  \<^verbatim>\<open>p.tenants[it.tenant]\<close> of a tracked item. The invariant below shows that the entry exists, so the value
  for a missing one, where the code would dereference nil, is never used.
\<close>

definition tenantOf :: "GDSFPolicy \<Rightarrow> string \<Rightarrow> tenantState" where
  "tenantOf p t =
     (case gm_get (g_tenants p) t of Some ts \<Rightarrow> ts | None \<Rightarrow> \<lparr>ts_bytes = 0, ts_quota = 0, ts_h = []\<rparr>)"

text \<open>Write back the tenant \<open>t\<close> after a heap operation returned \<open>hm\<close>.\<close>

definition put_heap :: "string \<Rightarrow> tenantState \<Rightarrow> gdsfHeap \<Rightarrow> GDSFPolicy \<Rightarrow> GDSFPolicy" where
  "put_heap t ts hm p =
     p\<lparr>g_tenants := gm_put t (ts\<lparr>ts_h := fst hm\<rparr>) (g_tenants p), g_mem := snd hm\<rparr>"

definition gdsf_removeItem :: "ref \<Rightarrow> GDSFPolicy \<Rightarrow> GDSFPolicy" where
  "gdsf_removeItem r p =
     (let it = g_mem p r;
          ts = tenantOf p (it_tenant it);
          hm = (if 0 \<le> it_index it \<and> it_index it < int (length (ts_h ts))
                then heap_Remove gdsfHeap (nat (it_index it)) (ts_h ts, g_mem p)
                else (ts_h ts, g_mem p));
          p1 = put_heap (it_tenant it) (ts\<lparr>ts_bytes := ts_bytes ts - it_size it\<rparr>) hm p
      in p1\<lparr>g_items := gm_del (it_key it) (g_items p1)\<rparr>)"

text \<open>The two ends of \<^verbatim>\<open>RecordWrite\<close>: overwrite in place, and insert a fresh item.\<close>

definition gdsf_overwrite :: "WriteMeta \<Rightarrow> ref \<Rightarrow> GDSFPolicy \<Rightarrow> GDSFPolicy" where
  "gdsf_overwrite meta r p =
     (let it = g_mem p r;
          ts = tenantOf p (it_tenant it);
          ts' = ts\<lparr>ts_bytes := ts_bytes ts + (wm_Size meta - it_size it)\<rparr>;
          it' = it\<lparr>it_size := wm_Size meta, it_cost := wm_Cost meta,
                   it_priority := priorityOf p (it_freq it) (wm_Cost meta) (wm_Size meta)\<rparr>
      in put_heap (it_tenant it) ts'
           (heap_Fix gdsfHeap (nat (it_index it)) (ts_h ts', (g_mem p)(r := it'))) p)"

definition gdsf_insert :: "WriteMeta \<Rightarrow> GDSFPolicy \<Rightarrow> GDSFPolicy" where
  "gdsf_insert meta p =
     (let (p1, ts) = tenantFor (wm_TenantID meta) p;
          r = g_next p1;
          it = \<lparr>it_key = wm_Key meta, it_tenant = wm_TenantID meta, it_size = wm_Size meta,
                it_cost = wm_Cost meta, it_freq = 1,
                it_priority = priorityOf p1 1 (wm_Cost meta) (wm_Size meta), it_index = 0\<rparr>;
          hm = heap_Push gdsfHeap r (ts_h ts, (g_mem p1)(r := it));
          p2 = put_heap (wm_TenantID meta) (ts\<lparr>ts_bytes := ts_bytes ts + wm_Size meta\<rparr>) hm p1
      in p2\<lparr>g_next := r + 1, g_items := gm_put (wm_Key meta) r (g_items p2)\<rparr>)"

definition gdsf_RecordWrite :: "WriteMeta \<Rightarrow> GDSFPolicy \<Rightarrow> GDSFPolicy" where
  "gdsf_RecordWrite meta p =
     (case gm_get (g_items p) (wm_Key meta) of
        Some r \<Rightarrow>
          if it_tenant (g_mem p r) \<noteq> wm_TenantID meta
          then gdsf_insert meta (gdsf_removeItem r p)
          else gdsf_overwrite meta r p
      | None \<Rightarrow> gdsf_insert meta p)"

definition gdsf_RecordAccess :: "BlockHash \<Rightarrow> GDSFPolicy \<Rightarrow> GDSFPolicy" where
  "gdsf_RecordAccess h p =
     (case gm_get (g_items p) h of
        None \<Rightarrow> p
      | Some r \<Rightarrow>
          let it = g_mem p r;
              freq = it_freq it + 1;
              it' = it\<lparr>it_freq := freq, it_priority := priorityOf p freq (it_cost it) (it_size it)\<rparr>;
              ts = tenantOf p (it_tenant it)
          in put_heap (it_tenant it) ts
               (heap_Fix gdsfHeap (nat (it_index it)) (ts_h ts, (g_mem p)(r := it'))) p)"

definition gdsf_RecordEvict :: "BlockHash \<Rightarrow> GDSFPolicy \<Rightarrow> GDSFPolicy" where
  "gdsf_RecordEvict h p =
     (case gm_get (g_items p) h of Some r \<Rightarrow> gdsf_removeItem r p | None \<Rightarrow> p)"

definition tenantOver :: "tenantState \<Rightarrow> bool" where
  "tenantOver ts \<longleftrightarrow> slt64 0 (ts_quota ts) \<and> slt64 (ts_quota ts) (ts_bytes ts)"

definition gdsf_OverQuota :: "GDSFPolicy \<Rightarrow> bool" where
  "gdsf_OverQuota p = (if g_elastic p then False else list_ex (\<lambda>(_, ts). tenantOver ts) (g_tenants p))"

definition overage :: "tenantState \<Rightarrow> f64" where
  "overage ts =
     (if sle64 (ts_quota ts) 0 then if slt64 0 (ts_bytes ts) then maxOverage else 0
      else let o' = f64_of_int (sint (ts_bytes ts)) / f64_of_int (sint (ts_quota ts)) - 1
           in if o' < 0 then 0 else o')"

text \<open>The common tail of both rules: raise the floor to the victim's priority and return its key.\<close>

definition chosen :: "ref option \<Rightarrow> GDSFPolicy \<Rightarrow> GDSFPolicy \<times> BlockHash option" where
  "chosen best p =
     (case best of
        None \<Rightarrow> (p, None)
      | Some r \<Rightarrow>
          let pr = it_priority (g_mem p r)
          in (if g_inflation p < pr then p\<lparr>g_inflation := pr\<rparr> else p, Some (it_key (g_mem p r))))"

definition elastic_score :: "GDSFPolicy \<Rightarrow> tenantState \<Rightarrow> ref \<Rightarrow> f64" where
  "elastic_score p ts r = it_priority (g_mem p r) / (1 + g_fairnessWeight p * overage ts)"

definition elastic_step :: "GDSFPolicy \<Rightarrow> string \<times> tenantState \<Rightarrow> (ref \<times> f64) option \<Rightarrow> (ref \<times> f64) option" where
  "elastic_step p kts best =
     (let ts = snd kts
      in if ts_h ts = [] then best
         else let root = ts_h ts ! 0; score = elastic_score p ts root
              in case best of
                   None \<Rightarrow> Some (root, score)
                 | Some (b, bestScore) \<Rightarrow> if score < bestScore then Some (root, score) else best)"

definition victimElastic :: "GDSFPolicy \<Rightarrow> GDSFPolicy \<times> BlockHash option" where
  "victimElastic p = chosen (map_option fst (fold (elastic_step p) (g_tenants p) None)) p"

definition static_step :: "GDSFPolicy \<Rightarrow> string \<times> tenantState \<Rightarrow> ref option \<times> bool \<Rightarrow> ref option \<times> bool" where
  "static_step p kts = (\<lambda>(best, overQuota).
     let ts = snd kts
     in if ts_h ts = [] then (best, overQuota)
        else let root = ts_h ts ! 0
             in if tenantOver ts \<and> \<not> overQuota then (Some root, True)
                else if tenantOver ts = overQuota then
                  (case best of
                     None \<Rightarrow> (Some root, overQuota)
                   | Some b \<Rightarrow>
                       if it_priority (g_mem p root) < it_priority (g_mem p b) then (Some root, overQuota)
                       else (best, overQuota))
                else (best, overQuota))"

definition victimStatic :: "GDSFPolicy \<Rightarrow> GDSFPolicy \<times> BlockHash option" where
  "victimStatic p = chosen (fst (fold (static_step p) (g_tenants p) (None, False))) p"

definition gdsf_Victim :: "GDSFPolicy \<Rightarrow> GDSFPolicy \<times> BlockHash option" where
  "gdsf_Victim p = (if g_elastic p then victimElastic p else victimStatic p)"

definition GDSF :: "GDSFPolicy EvictionPolicy" where
  "GDSF = \<lparr>RecordAccess = gdsf_RecordAccess, RecordWrite = gdsf_RecordWrite,
     RecordEvict = gdsf_RecordEvict, Victim = gdsf_Victim, OverQuota = Some gdsf_OverQuota\<rparr>"

section \<open>The heap contract\<close>

text \<open>
  The linear order of priorities other than NaN, as a pair of an infinity indicator and a rational.
\<close>

fun fkey :: "f64 \<Rightarrow> int \<times> rat" where
  "fkey NInf = (-1, 0)"
| "fkey (Fin x) = (0, x)"
| "fkey PInf = (1, 0)"
| "fkey NaN = (2, 0)"

lemma fkey_less: "a \<noteq> NaN \<Longrightarrow> b \<noteq> NaN \<Longrightarrow> fkey a < fkey b \<longleftrightarrow> a < b"
  by (cases a; cases b) (auto simp: f64_less_iff less_prod_def)

lemma fkey_le: "a \<noteq> NaN \<Longrightarrow> b \<noteq> NaN \<Longrightarrow> fkey a \<le> fkey b \<longleftrightarrow> a \<le> b"
  by (cases a; cases b) (auto simp: f64_le_iff less_eq_prod_def)

definition heap_prio :: "gdsfHeap \<Rightarrow> (int \<times> rat) list" where
  "heap_prio = (\<lambda>(h, m). map (\<lambda>r. fkey (it_priority (m r))) h)"

text \<open>
  \<open>heap_inv R m0\<close>: the heap holds the references \<open>R\<close> once each, every item knows its position, and the
  items are those of \<open>m0\<close> up to the \<^verbatim>\<open>index\<close> fields of the items in the heap.
\<close>

definition same_but_index :: "gdsfItem \<Rightarrow> gdsfItem \<Rightarrow> bool" where
  "same_but_index it it' \<longleftrightarrow> it'\<lparr>it_index := 0\<rparr> = it\<lparr>it_index := 0\<rparr>"

definition heap_inv :: "ref set \<Rightarrow> item_mem \<Rightarrow> gdsfHeap \<Rightarrow> bool" where
  "heap_inv R m0 = (\<lambda>(h, m). set h = R \<and> distinct h \<and>
     (\<forall>i<length h. it_index (m (h ! i)) = int i) \<and> (\<forall>r\<in>R. it_priority (m r) \<noteq> NaN) \<and>
     (\<forall>r. same_but_index (m0 r) (m r)) \<and> (\<forall>r. r \<notin> R \<longrightarrow> m r = m0 r))"

lemma same_but_index_fields:
  assumes "same_but_index it it'"
  shows "it_key it' = it_key it" "it_tenant it' = it_tenant it" "it_size it' = it_size it"
    "it_cost it' = it_cost it" "it_freq it' = it_freq it" "it_priority it' = it_priority it"
  using assms by (cases it; cases it'; simp add: same_but_index_def)+

lemma same_but_index_refl [simp]: "same_but_index it it"
  by (simp add: same_but_index_def)

lemma same_but_index_update [simp]: "same_but_index it (it'\<lparr>it_index := k\<rparr>) \<longleftrightarrow> same_but_index it it'"
  by (simp add: same_but_index_def)

lemma gdsfHeap_Swap_law:
  assumes "heap_inv R m0 (h, m)" and ij: "i < length h" "j < length h"
  shows "heap_inv R m0 (gdsfHeap_Swap i j (h, m))"
    and "heap_prio (gdsfHeap_Swap i j (h, m)) = swap i j (heap_prio (h, m))"
proof -
  define h' where h': "h' = swap i j h"
  define m1 where "m1 = m(h ! j := (m (h ! j))\<lparr>it_index := int i\<rparr>)"
  define m' where "m' = m1(h ! i := (m1 (h ! i))\<lparr>it_index := int j\<rparr>)"
  note m' = m'_def m1_def
  have sw: "h[i := h ! j, j := h ! i] = h'" by (simp add: h' swap_def)
  have "h' ! i = h ! j" "h' ! j = h ! i" using ij by (simp_all add: h' nth_swap)
  then have hm: "gdsfHeap_Swap i j (h, m) = (h', m')"
    by (simp add: gdsfHeap_Swap_def Let_def sw m' del: fun_upd_apply)
  have d: "distinct h" "set h = R" and idx: "\<And>k. k < length h \<Longrightarrow> it_index (m (h ! k)) = int k"
    using assms by (auto simp: heap_inv_def)
  have in_R: "h ! i \<in> R" "h ! j \<in> R" using d ij by auto
  have idx': "it_index (m' (h' ! k)) = int k" if "k < length h'" for k
    using that idx [of k] d(1) ij unfolding h' m' by (auto simp: nth_swap nth_eq_iff_index_eq)
  have same: "same_but_index (m r) (m' r)" for r
    unfolding m' by simp
  then have pr: "it_priority (m' r) = it_priority (m r)" for r
    by (rule same_but_index_fields(6))
  have "same_but_index (m0 r) (m' r)" for r
    using assms(1) unfolding m' heap_inv_def by auto
  moreover have "distinct h'" "set h' = R"
    using d ij unfolding h' by (metis mset_swap' mset_eq_imp_distinct_iff, metis mset_swap' mset_eq_setD)
  ultimately show "heap_inv R m0 (gdsfHeap_Swap i j (h, m))"
    using assms(1) idx' pr in_R unfolding hm by (auto simp: heap_inv_def m')
  show "heap_prio (gdsfHeap_Swap i j (h, m)) = swap i j (heap_prio (h, m))"
    using ij unfolding hm by (simp add: heap_prio_def h' pr swap_def map_update)
qed

interpretation gh: heap_client gdsfHeap heap_prio "heap_inv R m0" for R m0
proof
  fix s :: gdsfHeap and i j
  assume "heap_inv R m0 s"
  then show "heap_Len gdsfHeap s = length (heap_prio s)"
    by (auto simp: gdsfHeap_def heap_prio_def split: prod.splits)
next
  fix s :: gdsfHeap and i j
  assume inv: "heap_inv R m0 s" and ij: "i < length (heap_prio s)" "j < length (heap_prio s)"
  obtain h m where s: "s = (h, m)" by fastforce
  have "h ! i \<in> R" "h ! j \<in> R" using inv ij by (auto simp: s heap_inv_def heap_prio_def)
  then show "heap_Less gdsfHeap i j s \<longleftrightarrow> heap_prio s ! i < heap_prio s ! j"
    using inv ij by (auto simp: s gdsfHeap_def heap_prio_def heap_inv_def fkey_less)
  show "heap_inv R m0 (heap_Swap gdsfHeap i j s) \<and> heap_prio (heap_Swap gdsfHeap i j s) = swap i j (heap_prio s)"
    using gdsfHeap_Swap_law [of R m0 h m i j] inv ij by (simp add: s gdsfHeap_def heap_prio_def)
qed

text \<open>A heap in order whose items know their positions, and the effect of the three operations on it.\<close>

definition heap_good :: "ref list \<Rightarrow> item_mem \<Rightarrow> bool" where
  "heap_good h m \<longleftrightarrow> heap_inv (set h) m (h, m) \<and> heap_ord (heap_prio (h, m)) (length h)"

definition mem_same :: "ref set \<Rightarrow> item_mem \<Rightarrow> item_mem \<Rightarrow> bool" where
  "mem_same R m m' \<longleftrightarrow> (\<forall>r. same_but_index (m r) (m' r)) \<and> (\<forall>r. r \<notin> R \<longrightarrow> m' r = m r)"

lemma heap_invD:
  assumes "heap_inv R m0 (h, m)"
  shows "set h = R" "heap_inv (set h) m (h, m)" "mem_same R m0 m"
  using assms by (auto simp: heap_inv_def mem_same_def)

lemma length_heap_prio [simp]: "length (heap_prio (h, m)) = length h"
  by (simp add: heap_prio_def)

lemma heap_inv_length: "heap_inv R m0 (h, m) \<Longrightarrow> length h = card R"
  by (auto simp: heap_inv_def distinct_card)

lemma gdsfHeap_Len [simp]: "heap_Len gdsfHeap (h, m) = length h"
  by (simp add: gdsfHeap_def)

lemma heap_good_Fix:
  assumes good: "heap_good h m" and i: "i < length h" and it: "it_index it = int i" "it_priority it \<noteq> NaN"
    and r: "heap_Fix gdsfHeap i (h, m(h ! i := it)) = (h', m')"
  shows "heap_good h' m'" and "set h' = set h" and "mem_same (set h) (m(h ! i := it)) m'"
proof -
  let ?m = "m(h ! i := it)" and ?R = "set h"
  have inv0: "heap_inv ?R m (h, m)" using good by (simp add: heap_good_def)
  have nth: "h ! k = h ! i \<longleftrightarrow> k = i" if "k < length h" for k
    using inv0 that i by (simp add: heap_inv_def nth_eq_iff_index_eq)
  have inv: "heap_inv ?R ?m (h, ?m)"
    using inv0 it i nth by (auto simp: heap_inv_def)
  have "heap_prio (h, ?m) = (heap_prio (h, m))[i := fkey (it_priority it)]"
    using i nth by (auto simp: heap_prio_def list_eq_iff_nth_eq nth_list_update)
  then have "heap_exc (heap_prio (h, ?m)) (length h) i"
    using good heap_ord_exc_update [of "heap_prio (h, m)" "length h" i] i by (simp add: heap_good_def)
  then have f: "heap_inv ?R ?m (h', m')" "heap_ord (heap_prio (h', m')) (length h)"
    using gh.heap_Fix_correct(1,2) [OF inv, of i] i r by simp_all
  then show "set h' = set h" "mem_same (set h) ?m m'" by (simp_all add: heap_invD)
  have "length h' = length h" using heap_inv_length [OF f(1)] heap_inv_length [OF inv] by simp
  with f(2) heap_invD(2) [OF f(1)] show "heap_good h' m'" by (simp add: heap_good_def)
qed

lemma heap_good_Push:
  assumes good: "heap_good h m" and x: "x \<notin> set h" and it: "it_priority it \<noteq> NaN"
    and r: "heap_Push gdsfHeap x (h, m(x := it)) = (h', m')"
  shows "heap_good h' m'" and "set h' = insert x (set h)" and "mem_same (insert x (set h)) (m(x := it)) m'"
proof -
  let ?m = "m(x := it)" and ?R = "insert x (set h)"
  let ?p = "gdsfHeap_Push x (h, ?m)"
  have inv0: "heap_inv (set h) m (h, m)" using good by (simp add: heap_good_def)
  have inv: "heap_inv ?R ?m ?p"
    using inv0 x it by (auto simp: heap_inv_def gdsfHeap_Push_def nth_append less_Suc_eq)
  have same: "map (\<lambda>r. fkey (it_priority (?m r))) h = heap_prio (h, m)"
    using x by (auto simp: heap_prio_def)
  have "heap_prio ?p = heap_prio (h, ?m) @ [fkey (it_priority it)]" "heap_prio (h, ?m) = heap_prio (h, m)"
    using x by (auto simp: heap_prio_def gdsfHeap_Push_def)
  moreover have pm: "heap_Push_method gdsfHeap x (h, ?m) = ?p" by (simp add: gdsfHeap_def)
  ultimately have f: "heap_inv ?R ?m (h', m')" "heap_ord (heap_prio (h', m')) (length h')"
    using gh.heap_Push_correct(1,2) [where s = "(h, ?m)" and x = x and R = ?R and ?m0.0 = ?m] inv good r by (simp_all add: heap_good_def)
  show "set h' = ?R" "mem_same ?R ?m m'" "heap_good h' m'"
    using f(2) heap_invD [OF f(1)] by (simp_all add: heap_good_def)
qed

lemma heap_good_Remove:
  assumes good: "heap_good h m" and i: "i < length h"
    and r: "heap_Remove gdsfHeap i (h, m) = (h', m')"
  shows "heap_good h' m'" and "set h' = set h - {h ! i}" and "mem_same (set h) m m'"
proof -
  let ?R = "set h" and ?n = "length h - 1"
  have inv: "heap_inv ?R m (h, m)" and ord: "heap_ord (heap_prio (h, m)) (length h)"
    using good by (simp_all add: heap_good_def)
  obtain h1 m1 where s: "gh.remove_sifted i (h, m) = (h1, m1)" by fastforce
  have f: "heap_inv ?R m (h1, m1)" "length h1 = length h" "heap_ord (heap_prio (h1, m1)) ?n"
    using gh.remove_sifted_correct [OF inv, of i] i ord s by simp_all
  have "h1 ! ?n = h ! i \<and> length h1 = length h"
  proof (cases "i = ?n")
    case True
    then show ?thesis using s by (simp add: gh.remove_sifted_def)
  next
    case False
    let ?Q = "\<lambda>(h2, m2). h2 ! ?n = h ! i \<and> length h2 = length h"
    have "?Q (gh.remove_sifted i (h, m))"
      by (rule gh.remove_sifted_keeps [of ?n ?Q])
        (use False i in \<open>auto simp: gdsfHeap_def gdsfHeap_Swap_def Let_def\<close>)
    then show ?thesis using s by simp
  qed
  moreover have ne: "h1 \<noteq> []" using f(2) i by auto
  ultimately have last: "last h1 = h ! i" by (simp add: last_conv_nth)
  with ne have h1: "h1 = butlast h1 @ [h ! i]" by (metis append_butlast_last_id)
  have r': "h' = butlast h1" "m' = m1(h ! i := (m1 (h ! i))\<lparr>it_index := -1\<rparr>)"
    using r s gh.heap_Remove_sifted [of i "(h, m)"] last by (auto simp: gdsfHeap_def gdsfHeap_Pop_def)
  have d1: "distinct h1" "set h1 = ?R" using f(1) by (auto simp: heap_inv_def)
  then have hi: "h ! i \<notin> set h'" "set h' = ?R - {h ! i}" "distinct h'"
    using h1 unfolding r'(1) [symmetric] by (metis disjoint_insert(2) distinct_append list.simps(15), auto)
  show "set h' = ?R - {h ! i}" by (fact hi(2))
  show "mem_same ?R m m'"
    using f(1) i unfolding r' mem_same_def by (auto simp: heap_inv_def)
  have nth: "h1 ! k = h' ! k" if "k < length h'" for k
    using that unfolding r'(1) by (simp add: nth_butlast)
  have len: "length h' = ?n" using f(2) by (simp add: r')
  have "it_index (m' (h' ! k)) = int k" if k: "k < length h'" for k
  proof -
    have "h' ! k \<noteq> h ! i" using hi(1) nth_mem [OF k] by auto
    moreover have "it_index (m1 (h1 ! k)) = int k" using f(1,2) k len by (simp add: heap_inv_def)
    ultimately show ?thesis using nth [OF k] by (simp add: r'(2))
  qed
  then have "heap_inv (set h') m' (h', m')"
    using f(1) hi by (auto simp: heap_inv_def r'(2))
  moreover have "heap_prio (h', m') = take ?n (heap_prio (h1, m1))"
    using hi(1) len f(2) by (auto simp: heap_prio_def r'(2) list_eq_iff_nth_eq nth)
  ultimately show "heap_good h' m'"
    using f(3) len by (simp add: heap_good_def heap_ord_take)
qed

lemma heap_good_cong:
  assumes "\<And>r. r \<in> set h \<Longrightarrow> m' r = m r"
  shows "heap_good h m' \<longleftrightarrow> heap_good h m"
proof -
  have "heap_prio (h, m') = heap_prio (h, m)" using assms by (simp add: heap_prio_def)
  then show ?thesis using assms by (auto simp: heap_good_def heap_inv_def)
qed

lemma heap_good_Nil [simp]: "heap_good [] m"
  by (simp add: heap_good_def heap_inv_def heap_ord_def)

text \<open>The root of a heap in order has the least priority.\<close>

lemma heap_good_root:
  assumes "heap_good h m" and "r \<in> set h"
  shows "it_priority (m (h ! 0)) \<le> it_priority (m r)"
proof -
  obtain i where i: "i < length h" "r = h ! i" using assms(2) by (auto simp: in_set_conv_nth)
  then have "heap_prio (h, m) ! 0 \<le> heap_prio (h, m) ! i"
    using assms(1) by (intro heap_ord_root) (simp_all add: heap_good_def)
  moreover have "h ! 0 \<in> set h" using i by (intro nth_mem) auto
  moreover have "h \<noteq> []" using i by auto
  ultimately show ?thesis
    using assms i by (auto simp: heap_prio_def nth_map heap_good_def heap_inv_def fkey_le)
qed

section \<open>Invariant of the policy\<close>

text \<open>
  A cost the policy is meant for is not NaN and not infinite (a cost that is not positive counts as 1).
\<close>

definition cost_ok :: "f64 \<Rightarrow> bool" where
  "cost_ok c \<longleftrightarrow> c \<noteq> NaN \<and> c \<noteq> PInf"

definition prio_ok :: "f64 \<Rightarrow> bool" where
  "prio_ok a \<longleftrightarrow> 0 \<le> a \<and> is_f64 a"

text \<open>The resident items of a tenant.\<close>

definition resident :: "GDSFPolicy \<Rightarrow> string \<Rightarrow> ref set" where
  "resident p t = {r. \<exists>k. (k, r) \<in> set (g_items p) \<and> it_tenant (g_mem p r) = t}"

definition quotaOf :: "GDSFPolicy \<Rightarrow> string \<Rightarrow> int64" where
  "quotaOf p t = (case gm_get (g_quotas p) t of None \<Rightarrow> 0 | Some q \<Rightarrow> q)"

definition item_ok :: "GDSFPolicy \<Rightarrow> BlockHash \<Rightarrow> ref \<Rightarrow> bool" where
  "item_ok p k r \<longleftrightarrow> r < g_next p \<and> it_key (g_mem p r) = k \<and> it_tenant (g_mem p r) \<in> gm_keys (g_tenants p) \<and>
     cost_ok (it_cost (g_mem p r)) \<and> prio_ok (it_priority (g_mem p r))"

definition tenant_ok :: "GDSFPolicy \<Rightarrow> string \<Rightarrow> tenantState \<Rightarrow> bool" where
  "tenant_ok p t ts \<longleftrightarrow> heap_good (ts_h ts) (g_mem p) \<and> set (ts_h ts) = resident p t \<and>
     ts_bytes ts = (\<Sum>r\<in>resident p t. it_size (g_mem p r)) \<and> ts_quota ts = quotaOf p t"

definition gdsf_inv :: "GDSFPolicy \<Rightarrow> bool" where
  "gdsf_inv p \<longleftrightarrow> gm_wf (g_items p) \<and> gm_wf (g_tenants p) \<and> prio_ok (g_inflation p) \<and>
     (\<forall>(k, r) \<in> set (g_items p). item_ok p k r) \<and> (\<forall>(t, ts) \<in> set (g_tenants p). tenant_ok p t ts)"

lemma gdsf_invD:
  assumes "gdsf_inv p"
  shows "gm_wf (g_items p)" "gm_wf (g_tenants p)" "prio_ok (g_inflation p)"
    "(k, r) \<in> set (g_items p) \<Longrightarrow> item_ok p k r" "(t, ts) \<in> set (g_tenants p) \<Longrightarrow> tenant_ok p t ts"
  using assms by (auto simp: gdsf_inv_def)

lemma gdsf_inv_newGDSF: "gdsf_inv (newGDSF quotas e w)"
  by (simp add: gdsf_inv_def newGDSF_def Let_def prio_ok_def) (simp add: zero_f64_def f64_le_iff)

text \<open>A priority is non-negative, and at least the floor it was computed from.\<close>

lemma cost_ok_cases:
  assumes "cost_ok c"
  obtains y where "(if c \<le> 0 then 1 else c) = Fin y" "0 < y"
proof (cases "c \<le> 0")
  case True
  then show thesis using that [of 1] by (simp add: one_f64_def)
next
  case False
  then show thesis using that assms by (cases c) (auto simp: cost_ok_def f64_le_iff zero_f64_def)
qed

lemma f64_of_size:
  obtains y where "f64_of_int (sint (if sle64 sz 0 then 1 else sz)) = Fin y" "0 < y"
proof -
  have "0 < sint (if sle64 sz 0 then 1 else sz)" by (auto simp: sle64_def)
  moreover have "sint (if sle64 sz 0 then 1 else sz) < 2 ^ 64"
    using sint_lt [of "if sle64 sz 0 then 1 else sz"] by simp
  ultimately show thesis
    using that f64_of_int_nonneg [of "sint (if sle64 sz 0 then 1 else sz)"] by force
qed

lemma priorityOf_ok:
  assumes "prio_ok (g_inflation p)" and "cost_ok c"
  shows "prio_ok (priorityOf p f c sz)" and "g_inflation p \<le> priorityOf p f c sz"
proof -
  obtain y where y: "(if c \<le> 0 then 1 else c) = Fin y" "0 < y" using cost_ok_cases [OF assms(2)] .
  obtain z where z: "f64_of_int (sint (if sle64 sz 0 then 1 else sz)) = Fin z" "0 < z"
    using f64_of_size .
  obtain w where w: "f64_of_int (uint f) = Fin w" "0 \<le> w"
    using f64_of_int_nonneg [of "uint f"] uint_bounded [of f] by force
  let ?v = "Fin w * Fin y / Fin z"
  have "0 \<le> ?v" "is_f64 ?v"
    using y(2) z(2) w(2) f64_mul_nonneg [of w y] by (auto intro: f64_div_nonneg)
  moreover have "priorityOf p f c sz = g_inflation p + ?v"
    by (simp only: priorityOf_def Let_def y(1) z(1) w(1))
  ultimately show "prio_ok (priorityOf p f c sz)" "g_inflation p \<le> priorityOf p f c sz"
    using assms(1) by (auto simp: prio_ok_def intro: f64_add_nonneg f64_add_nonneg_ge)
qed

section \<open>Every operation keeps the invariant\<close>

text \<open>A change confined to one tenant.\<close>

lemma gdsf_inv_update:
  assumes inv: "gdsf_inv p"
    and tenants: "g_tenants p' = gm_put t ts' (g_tenants p)"
    and quotas: "g_quotas p' = g_quotas p"
    and infl: "g_inflation p' = g_inflation p"
    and items: "gm_wf (g_items p')" "\<And>k r. (k, r) \<in> set (g_items p') \<Longrightarrow> item_ok p' k r"
    and this_tenant: "tenant_ok p' t ts'"
    and others: "\<And>t'. t' \<noteq> t \<Longrightarrow> resident p' t' = resident p t'"
      "\<And>t' r. t' \<noteq> t \<Longrightarrow> r \<in> resident p t' \<Longrightarrow> g_mem p' r = g_mem p r"
  shows "gdsf_inv p'"
proof -
  have "tenant_ok p' t' ts" if "(t', ts) \<in> set (g_tenants p)" "t' \<noteq> t" for t' ts
  proof -
    have ok: "tenant_ok p t' ts" using gdsf_invD(5) [OF inv that(1)] .
    then have "heap_good (ts_h ts) (g_mem p')"
      using others(2) [OF that(2)] heap_good_cong [of "ts_h ts" "g_mem p'" "g_mem p"] by (simp add: tenant_ok_def)
    then show ?thesis
      using ok others(1) [OF that(2)] others(2) [OF that(2)] by (simp add: tenant_ok_def quotaOf_def quotas)
  qed
  then show ?thesis
    using gdsf_invD(1-3) [OF inv] items this_tenant
    by (auto simp: gdsf_inv_def tenants infl gm_in_put split: prod.splits)
qed

lemma resident_finite: "finite (resident p t)"
proof -
  have "resident p t \<subseteq> snd ` set (g_items p)" by (force simp: resident_def)
  then show ?thesis by (rule finite_subset) simp
qed

lemma resident_item: "(k, r) \<in> set (g_items p) \<Longrightarrow> r \<in> resident p (it_tenant (g_mem p r))"
  by (auto simp: resident_def)

lemma resident_unique: "r \<in> resident p t \<Longrightarrow> it_tenant (g_mem p r) = t"
  by (auto simp: resident_def)

lemma resident_disjoint: "r \<in> resident p t' \<Longrightarrow> t' \<noteq> t \<Longrightarrow> r \<notin> resident p t"
  using resident_unique by blast

lemma item_key_unique:
  "gdsf_inv p \<Longrightarrow> (k, r) \<in> set (g_items p) \<Longrightarrow> (k', r) \<in> set (g_items p) \<Longrightarrow> k' = k"
  using gdsf_invD(4) by (metis item_ok_def)

lemma tenantOf_item:
  assumes inv: "gdsf_inv p" and it: "(k, r) \<in> set (g_items p)"
  obtains ts where "tenantOf p (it_tenant (g_mem p r)) = ts"
    "(it_tenant (g_mem p r), ts) \<in> set (g_tenants p)" "tenant_ok p (it_tenant (g_mem p r)) ts"
    "r \<in> set (ts_h ts)"
proof -
  have "it_tenant (g_mem p r) \<in> gm_keys (g_tenants p)"
    using gdsf_invD(4) [OF inv it] by (simp add: item_ok_def)
  then obtain ts where ts: "(it_tenant (g_mem p r), ts) \<in> set (g_tenants p)" by force
  then have "gm_get (g_tenants p) (it_tenant (g_mem p r)) = Some ts"
    using gdsf_invD(2) [OF inv] by simp
  moreover have "tenant_ok p (it_tenant (g_mem p r)) ts" using gdsf_invD(5) [OF inv ts] .
  ultimately show thesis
    using that ts resident_item [OF it] by (simp add: tenantOf_def tenant_ok_def)
qed

lemma heap_position:
  assumes "heap_good h m" and "r \<in> set h"
  obtains i where "i < length h" "h ! i = r" "it_index (m r) = int i"
  using assms by (auto simp: in_set_conv_nth heap_good_def heap_inv_def)

lemma mem_same_fields:
  assumes "mem_same R m m'"
  shows "it_key (m' r) = it_key (m r)" "it_tenant (m' r) = it_tenant (m r)" "it_size (m' r) = it_size (m r)"
    "it_cost (m' r) = it_cost (m r)" "it_freq (m' r) = it_freq (m r)" "it_priority (m' r) = it_priority (m r)"
    "r \<notin> R \<Longrightarrow> m' r = m r"
  using assms same_but_index_fields [of "m r" "m' r"] by (auto simp: mem_same_def)

lemma put_heap_simps [simp]:
  "g_mem (put_heap t ts hm p) = snd hm" "g_items (put_heap t ts hm p) = g_items p"
  "g_tenants (put_heap t ts hm p) = gm_put t (ts\<lparr>ts_h := fst hm\<rparr>) (g_tenants p)"
  "g_quotas (put_heap t ts hm p) = g_quotas p" "g_inflation (put_heap t ts hm p) = g_inflation p"
  "g_elastic (put_heap t ts hm p) = g_elastic p" "g_fairnessWeight (put_heap t ts hm p) = g_fairnessWeight p"
  "g_next (put_heap t ts hm p) = g_next p"
  by (simp_all add: put_heap_def)

lemma sum_update:
  fixes f :: "'a \<Rightarrow> 'b::ab_group_add"
  assumes "finite A" and "x \<in> A"
  shows "(\<Sum>r\<in>A. if r = x then v else f r) = (\<Sum>r\<in>A. f r) + (v - f x)"
  using assms by (simp add: sum.remove [of A x] sum.remove [of A x f])

text \<open>The in-place update of an item shared by an overwrite and an access.\<close>

lemma gdsf_touch:
  assumes inv: "gdsf_inv p" and it: "(k, r) \<in> set (g_items p)"
    and same: "it_key it' = k" "it_tenant it' = it_tenant (g_mem p r)" "it_index it' = it_index (g_mem p r)"
    and ok: "cost_ok (it_cost it')" "prio_ok (it_priority it')"
  defines "t \<equiv> it_tenant (g_mem p r)"
  defines "ts \<equiv> (tenantOf p t)\<lparr>ts_bytes := ts_bytes (tenantOf p t) + (it_size it' - it_size (g_mem p r))\<rparr>"
  defines "p' \<equiv> put_heap t ts (heap_Fix gdsfHeap (nat (it_index (g_mem p r))) (ts_h ts, (g_mem p)(r := it'))) p"
  shows "gdsf_inv p'" and "same_but_index (((g_mem p)(r := it')) x) (g_mem p' x)"
proof -
  obtain ts0 where ts0: "tenantOf p t = ts0" "(t, ts0) \<in> set (g_tenants p)" "tenant_ok p t ts0" "r \<in> set (ts_h ts0)"
    using tenantOf_item [OF inv it] unfolding t_def by metis
  have good: "heap_good (ts_h ts0) (g_mem p)" "set (ts_h ts0) = resident p t"
    using ts0(3) by (simp_all add: tenant_ok_def)
  obtain i where i: "i < length (ts_h ts0)" "ts_h ts0 ! i = r" "it_index (g_mem p r) = int i"
    using heap_position [OF good(1) ts0(4)] .
  obtain h' m' where f: "heap_Fix gdsfHeap i (ts_h ts0, (g_mem p)(r := it')) = (h', m')" by fastforce
  have "it_priority it' \<noteq> NaN" using ok(2) by (auto simp: prio_ok_def)
  with heap_good_Fix [OF good(1) i(1), of it' h' m'] f i same(3)
  have res: "heap_good h' m'" "set h' = resident p t" "mem_same (resident p t) ((g_mem p)(r := it')) m'"
    by (simp_all add: good(2))
  note sm = mem_same_fields [OF res(3)]
  let ?p = "put_heap t ts (h', m') p"
  have resident: "resident (put_heap t ts1 (h', m') p) = resident p" for ts1
    using same(2) by (auto simp: resident_def sm fun_eq_iff)
  have "(\<Sum>x\<in>resident p t. it_size (m' x)) = (\<Sum>x\<in>resident p t. if x = r then it_size it' else it_size (g_mem p x))"
    by (rule sum.cong) (simp_all add: sm)
  also have "\<dots> = ts_bytes ts0 + (it_size it' - it_size (g_mem p r))"
    using sum_update [OF resident_finite, of r p t] ts0(3,4) good(2) by (simp add: tenant_ok_def)
  finally have "tenant_ok ?p t (ts\<lparr>ts_h := h'\<rparr>)"
    using ts0(3) res(1,2) by (simp add: tenant_ok_def resident ts_def ts0(1) quotaOf_def)
  moreover have "item_ok ?p k' x" if "(k', x) \<in> set (g_items p)" for k' x
    using gdsf_invD(4) [OF inv that] ok same item_key_unique [OF inv that] it
      gdsf_invD(4) [OF inv it]
    by (auto simp: item_ok_def sm)
  moreover have "x \<notin> resident p t \<and> x \<noteq> r" if "t' \<noteq> t" "x \<in> resident p t'" for t' x
    using that resident_unique [of x p] resident_item [OF it] unfolding t_def by auto
  ultimately have "gdsf_inv ?p"
    using gdsf_invD(1) [OF inv]
    by (intro gdsf_inv_update [OF inv, of _ t "ts\<lparr>ts_h := h'\<rparr>"]) (simp_all add: resident sm)
  moreover have p': "p' = ?p" using f i(3) by (simp add: p'_def ts_def ts0(1))
  ultimately show "gdsf_inv p'" by simp
  show "same_but_index (((g_mem p)(r := it')) x) (g_mem p' x)"
    using res(3) unfolding mem_same_def p' by simp
qed

lemma tenantFor_inv:
  assumes inv: "gdsf_inv p" and r: "tenantFor t p = (p1, ts)"
  shows "gdsf_inv p1" "(t, ts) \<in> set (g_tenants p1)" "g_items p1 = g_items p" "g_mem p1 = g_mem p"
    "g_next p1 = g_next p" "g_quotas p1 = g_quotas p" "g_inflation p1 = g_inflation p"
    "g_elastic p1 = g_elastic p" "g_fairnessWeight p1 = g_fairnessWeight p"
proof -
  have "gdsf_inv p1 \<and> (t, ts) \<in> set (g_tenants p1)"
  proof (cases "gm_get (g_tenants p) t")
    case (Some ts')
    then show ?thesis using r inv by (auto simp: tenantFor_def dest: map_of_SomeD)
  next
    case None
    then have t: "t \<notin> gm_keys (g_tenants p)" by (simp add: map_of_eq_None_iff)
    have p1: "p1 = p\<lparr>g_tenants := gm_put t ts (g_tenants p)\<rparr>" "ts_h ts = []" "ts_bytes ts = 0"
      "ts_quota ts = quotaOf p t"
      using r None by (auto simp: tenantFor_def Let_def quotaOf_def)
    have "resident p1 t = {}"
      using t gdsf_invD(4) [OF inv] by (auto simp: resident_def item_ok_def p1(1))
    then have "tenant_ok p1 t ts" by (simp add: tenant_ok_def quotaOf_def p1)
    moreover have "item_ok p1 k r" if "(k, r) \<in> set (g_items p)" for k r
      using gdsf_invD(4) [OF inv that] by (simp add: item_ok_def p1)
    ultimately have "gdsf_inv p1"
      using gdsf_invD(1) [OF inv] p1(1)
      by (intro gdsf_inv_update [OF inv, of p1 t ts]) (simp_all add: resident_def)
    then show ?thesis using gdsf_invD(2) [OF inv] by (simp add: p1 gm_in_put)
  qed
  then show "gdsf_inv p1" "(t, ts) \<in> set (g_tenants p1)" by auto
qed (use r in \<open>auto simp: tenantFor_def Let_def split: option.splits\<close>)

definition fresh_item :: "WriteMeta \<Rightarrow> GDSFPolicy \<Rightarrow> gdsfItem" where
  "fresh_item m p = \<lparr>it_key = wm_Key m, it_tenant = wm_TenantID m, it_size = wm_Size m, it_cost = wm_Cost m,
     it_freq = 1, it_priority = priorityOf p 1 (wm_Cost m) (wm_Size m), it_index = 0\<rparr>"

lemma gdsf_insert_inv:
  assumes inv: "gdsf_inv p" and ok: "cost_ok (wm_Cost m)" and new: "wm_Key m \<notin> gm_keys (g_items p)"
  shows "gdsf_inv (gdsf_insert m p)" and "g_items (gdsf_insert m p) = gm_put (wm_Key m) (g_next p) (g_items p)"
    and "same_but_index (((g_mem p)(g_next p := fresh_item m p)) x) (g_mem (gdsf_insert m p) x)"
    and "g_inflation (gdsf_insert m p) = g_inflation p"
proof -
  let ?t = "wm_TenantID m"
  obtain p1 ts where tf: "tenantFor ?t p = (p1, ts)" by fastforce
  note p1 = tenantFor_inv [OF inv tf]
  define r where "r = g_next p1"
  define it where "it = \<lparr>it_key = wm_Key m, it_tenant = ?t, it_size = wm_Size m, it_cost = wm_Cost m,
    it_freq = 1, it_priority = priorityOf p1 1 (wm_Cost m) (wm_Size m), it_index = 0\<rparr>"
  obtain h' m' where f: "heap_Push gdsfHeap r (ts_h ts, (g_mem p1)(r := it)) = (h', m')" by fastforce
  have ts: "tenant_ok p1 ?t ts" using gdsf_invD(5) [OF p1(1,2)] .
  then have good: "heap_good (ts_h ts) (g_mem p1)" "set (ts_h ts) = resident p1 ?t" by (simp_all add: tenant_ok_def)
  have old: "x < r" if "(k, x) \<in> set (g_items p1)" for k x
    using gdsf_invD(4) [OF p1(1) that] by (simp add: item_ok_def r_def)
  then have fresh: "r \<notin> resident p1 t'" for t' by (auto simp: resident_def)
  have prio: "prio_ok (it_priority it)"
    using priorityOf_ok [OF gdsf_invD(3) [OF p1(1)] ok] by (simp add: it_def)
  then have "it_priority it \<noteq> NaN" by (auto simp: prio_ok_def)
  with heap_good_Push [OF good(1) _ _ f] fresh good(2)
  have res: "heap_good h' m'" "set h' = insert r (resident p1 ?t)"
    "mem_same (insert r (resident p1 ?t)) ((g_mem p1)(r := it)) m'" by simp_all
  note sm = mem_same_fields [OF res(3)]
  define ts' where "ts' = ts\<lparr>ts_bytes := ts_bytes ts + wm_Size m\<rparr>"
  define p' where "p' = (put_heap ?t ts' (h', m') p1)\<lparr>g_next := r + 1, g_items := gm_put (wm_Key m) r (g_items p1)\<rparr>"
  have eq: "gdsf_insert m p = p'"
    using f by (simp add: gdsf_insert_def tf Let_def r_def [symmetric] it_def [symmetric] p'_def ts'_def)
  have new1: "wm_Key m \<notin> gm_keys (g_items p1)" using new p1(3) by simp
  have wf: "gm_wf (g_items p1)" using gdsf_invD(1) [OF p1(1)] .
  have in_items: "(k, x) \<in> set (g_items p') \<longleftrightarrow> k = wm_Key m \<and> x = r \<or> (k, x) \<in> set (g_items p1)" for k x
    using new1 by (force simp: p'_def gm_in_put [OF wf])
  have p'_sel: "g_mem p' = m'" "g_quotas p' = g_quotas p1" "g_next p' = r + 1"
    "g_tenants p' = gm_put ?t (ts'\<lparr>ts_h := h'\<rparr>) (g_tenants p1)" by (simp_all add: p'_def)
  have tenant': "it_tenant (m' x) = (if x = r then ?t else it_tenant (g_mem p1 x))" for x
    by (simp add: sm it_def)
  have res': "resident p' t' = (if t' = ?t then insert r (resident p1 ?t) else resident p1 t')" for t'
    using old by (auto simp: resident_def in_items p'_sel tenant')
  have "(\<Sum>x\<in>resident p1 ?t. it_size (m' x)) = (\<Sum>x\<in>resident p1 ?t. it_size (g_mem p1 x))"
    using fresh [of ?t] by (intro sum.cong) (auto simp: sm)
  then have size': "(\<Sum>x\<in>insert r (resident p1 ?t). it_size (m' x)) =
      (\<Sum>x\<in>resident p1 ?t. it_size (g_mem p1 x)) + wm_Size m"
    using fresh [of ?t] resident_finite [of p1 ?t] by (simp add: sm(3) it_def add.commute)
  have "tenant_ok p' ?t (ts'\<lparr>ts_h := h'\<rparr>)"
    using ts res(1,2) size' by (simp add: tenant_ok_def res' ts'_def quotaOf_def p'_sel)
  moreover have "item_ok p' k x" if "(k, x) \<in> set (g_items p')" for k x
    using that gdsf_invD(4) [OF p1(1), of k x] old [of k x] ok prio
    by (auto simp: in_items item_ok_def p'_sel sm it_def)
  moreover have "g_mem p' x = g_mem p1 x" if "t' \<noteq> ?t" "x \<in> resident p1 t'" for t' x
    using that fresh [of t'] resident_disjoint [OF that(2,1)] sm(7) [of x] by (auto simp: p'_sel)
  ultimately show "gdsf_inv (gdsf_insert m p)" unfolding eq
    by (intro gdsf_inv_update [OF p1(1), of p' ?t "ts'\<lparr>ts_h := h'\<rparr>"]) (use wf in \<open>simp_all add: res'\<close>, simp_all add: p'_def)
  show "g_items (gdsf_insert m p) = gm_put (wm_Key m) (g_next p) (g_items p)"
    "g_inflation (gdsf_insert m p) = g_inflation p"
    unfolding eq by (simp_all add: p'_def p1(3,5,7) r_def)
  have "fresh_item m p = it" by (simp add: fresh_item_def it_def priorityOf_def p1(7))
  then show "same_but_index (((g_mem p)(g_next p := fresh_item m p)) x) (g_mem (gdsf_insert m p) x)"
    using res(3) unfolding eq p'_sel mem_same_def p1(4,5) r_def by simp
qed

lemma gdsf_removeItem_inv:
  assumes inv: "gdsf_inv p" and it: "(k, r) \<in> set (g_items p)"
  shows "gdsf_inv (gdsf_removeItem r p)" and "g_items (gdsf_removeItem r p) = gm_del k (g_items p)"
    and "same_but_index (g_mem p x) (g_mem (gdsf_removeItem r p) x)"
    and "g_inflation (gdsf_removeItem r p) = g_inflation p" and "g_next (gdsf_removeItem r p) = g_next p"
proof -
  let ?t = "it_tenant (g_mem p r)"
  obtain ts where ts: "tenantOf p ?t = ts" "(?t, ts) \<in> set (g_tenants p)" "tenant_ok p ?t ts" "r \<in> set (ts_h ts)"
    using tenantOf_item [OF inv it] .
  have good: "heap_good (ts_h ts) (g_mem p)" "set (ts_h ts) = resident p ?t"
    using ts(3) by (simp_all add: tenant_ok_def)
  obtain i where i: "i < length (ts_h ts)" "ts_h ts ! i = r" "it_index (g_mem p r) = int i"
    using heap_position [OF good(1) ts(4)] .
  obtain h' m' where f: "heap_Remove gdsfHeap i (ts_h ts, g_mem p) = (h', m')" by fastforce
  from heap_good_Remove [OF good(1) i(1) f]
  have res: "heap_good h' m'" "set h' = resident p ?t - {r}" "mem_same (resident p ?t) (g_mem p) m'"
    by (simp_all add: good(2) i(2))
  note sm = mem_same_fields [OF res(3)]
  define ts' where "ts' = ts\<lparr>ts_bytes := ts_bytes ts - it_size (g_mem p r)\<rparr>"
  define p' where "p' = (put_heap ?t ts' (h', m') p)\<lparr>g_items := gm_del k (g_items p)\<rparr>"
  have key: "it_key (g_mem p r) = k" using gdsf_invD(4) [OF inv it] by (simp add: item_ok_def)
  have eq: "gdsf_removeItem r p = p'"
    using f i(1,3) by (simp add: gdsf_removeItem_def ts(1) Let_def p'_def ts'_def key)
  have wf: "gm_wf (g_items p)" using gdsf_invD(1) [OF inv] .
  have in_items: "(k', x) \<in> set (g_items p') \<longleftrightarrow> x \<noteq> r \<and> (k', x) \<in> set (g_items p)" for k' x
    using it item_key_unique [OF inv it, of k'] gm_unique [OF wf it, of x] by (auto simp: p'_def gm_in_del [OF wf])
  have p'_sel: "g_mem p' = m'" "g_quotas p' = g_quotas p" "g_next p' = g_next p"
    "g_tenants p' = gm_put ?t (ts'\<lparr>ts_h := h'\<rparr>) (g_tenants p)" by (simp_all add: p'_def)
  have res': "resident p' t' = (if t' = ?t then resident p ?t - {r} else resident p t')" for t'
    by (auto simp: resident_def in_items sm p'_sel)
  have "tenant_ok p' ?t (ts'\<lparr>ts_h := h'\<rparr>)"
    using ts(3,4) res(1,2) resident_finite [of p ?t]
    by (simp add: tenant_ok_def res' ts'_def quotaOf_def p'_sel sm sum_diff1)
  moreover have "item_ok p' k' x" if "(k', x) \<in> set (g_items p')" for k' x
    using that gdsf_invD(4) [OF inv, of k' x] by (auto simp: in_items item_ok_def p'_sel sm)
  moreover have "g_mem p' x = g_mem p x" if "t' \<noteq> ?t" "x \<in> resident p t'" for t' x
    using resident_disjoint [OF that(2,1)] sm(7) by (simp add: p'_sel)
  ultimately show "gdsf_inv (gdsf_removeItem r p)" unfolding eq
    by (intro gdsf_inv_update [OF inv, of p' ?t "ts'\<lparr>ts_h := h'\<rparr>"]) (use wf in \<open>simp_all add: res'\<close>, simp_all add: p'_def)
  show "g_items (gdsf_removeItem r p) = gm_del k (g_items p)" "g_inflation (gdsf_removeItem r p) = g_inflation p"
    "g_next (gdsf_removeItem r p) = g_next p"
    unfolding eq by (simp_all add: p'_def)
  show "same_but_index (g_mem p x) (g_mem (gdsf_removeItem r p) x)"
    using res(3) unfolding eq p'_sel mem_same_def by simp
qed

lemma gdsf_RecordAccess_inv:
  assumes inv: "gdsf_inv p"
  shows "gdsf_inv (gdsf_RecordAccess h p)" and "g_items (gdsf_RecordAccess h p) = g_items p"
proof -
  show "gdsf_inv (gdsf_RecordAccess h p)"
  proof (cases "gm_get (g_items p) h")
    case None
    then show ?thesis using inv by (simp add: gdsf_RecordAccess_def)
  next
    case (Some r)
    then have it: "(h, r) \<in> set (g_items p)" by (rule map_of_SomeD)
    have ok: "it_key (g_mem p r) = h" "cost_ok (it_cost (g_mem p r))"
      using gdsf_invD(4) [OF inv it] by (simp_all add: item_ok_def)
    let ?it = "(g_mem p r)\<lparr>it_freq := it_freq (g_mem p r) + 1,
      it_priority := priorityOf p (it_freq (g_mem p r) + 1) (it_cost (g_mem p r)) (it_size (g_mem p r))\<rparr>"
    show ?thesis
      using gdsf_touch(1) [OF inv it, of ?it] ok Some priorityOf_ok(1) [OF gdsf_invD(3) [OF inv] ok(2)]
      by (simp add: gdsf_RecordAccess_def Let_def)
  qed
  show "g_items (gdsf_RecordAccess h p) = g_items p"
    by (auto simp: gdsf_RecordAccess_def Let_def split: option.splits)
qed

lemma gdsf_RecordWrite_inv:
  assumes inv: "gdsf_inv p" and ok: "cost_ok (wm_Cost m)"
  shows "gdsf_inv (gdsf_RecordWrite m p)"
    and "gm_keys (g_items (gdsf_RecordWrite m p)) = insert (wm_Key m) (gm_keys (g_items p))"
proof -
  let ?k = "wm_Key m"
  have "gdsf_inv (gdsf_RecordWrite m p) \<and> gm_keys (g_items (gdsf_RecordWrite m p)) = insert ?k (gm_keys (g_items p))"
  proof (cases "gm_get (g_items p) ?k")
    case None
    then have "?k \<notin> gm_keys (g_items p)" by (simp add: map_of_eq_None_iff)
    then show ?thesis using gdsf_insert_inv [OF inv ok] None by (simp add: gdsf_RecordWrite_def)
  next
    case (Some r)
    then have it: "(?k, r) \<in> set (g_items p)" by (rule map_of_SomeD)
    then have k: "?k \<in> gm_keys (g_items p)" by force
    show ?thesis
    proof (cases "it_tenant (g_mem p r) = wm_TenantID m")
      case True
      have key: "it_key (g_mem p r) = ?k" using gdsf_invD(4) [OF inv it] by (simp add: item_ok_def)
      let ?it = "(g_mem p r)\<lparr>it_size := wm_Size m, it_cost := wm_Cost m,
        it_priority := priorityOf p (it_freq (g_mem p r)) (wm_Cost m) (wm_Size m)\<rparr>"
      have "gdsf_inv (gdsf_overwrite m r p)"
        using gdsf_touch(1) [OF inv it, of ?it] key ok priorityOf_ok(1) [OF gdsf_invD(3) [OF inv] ok]
        by (simp add: gdsf_overwrite_def Let_def)
      then show ?thesis
        using Some True k by (simp add: gdsf_RecordWrite_def insert_absorb gdsf_overwrite_def Let_def)
    next
      case False
      note rm = gdsf_removeItem_inv [OF inv it]
      have "?k \<notin> gm_keys (g_items (gdsf_removeItem r p))" by (simp add: rm(2))
      then show ?thesis
        using gdsf_insert_inv [OF rm(1) ok] Some False k by (simp add: gdsf_RecordWrite_def rm(2) insert_absorb)
    qed
  qed
  then show "gdsf_inv (gdsf_RecordWrite m p)"
    and "gm_keys (g_items (gdsf_RecordWrite m p)) = insert ?k (gm_keys (g_items p))" by auto
qed

lemma gdsf_RecordEvict_inv:
  assumes inv: "gdsf_inv p"
  shows "gdsf_inv (gdsf_RecordEvict h p)" and "gm_keys (g_items (gdsf_RecordEvict h p)) = gm_keys (g_items p) - {h}"
proof -
  have "gdsf_inv (gdsf_RecordEvict h p) \<and> gm_keys (g_items (gdsf_RecordEvict h p)) = gm_keys (g_items p) - {h}"
  proof (cases "gm_get (g_items p) h")
    case None
    then have "h \<notin> gm_keys (g_items p)" by (simp add: map_of_eq_None_iff)
    with None show ?thesis using inv by (simp add: gdsf_RecordEvict_def)
  next
    case (Some r)
    then show ?thesis
      using gdsf_removeItem_inv [OF inv map_of_SomeD [OF Some]] by (simp add: gdsf_RecordEvict_def)
  qed
  then show "gdsf_inv (gdsf_RecordEvict h p)"
    and "gm_keys (g_items (gdsf_RecordEvict h p)) = gm_keys (g_items p) - {h}" by auto
qed

section \<open>Victim selection\<close>

text \<open>The tenants that hold something, with the item the loops look at.\<close>

definition roots :: "(string, tenantState) gomap \<Rightarrow> (tenantState \<times> ref) list" where
  "roots l = map (\<lambda>(_, ts). (ts, ts_h ts ! 0)) (filter (\<lambda>(_, ts). ts_h ts \<noteq> []) l)"

lemma elastic_fold_None: "fold (elastic_step p) l best = None \<longleftrightarrow> best = None \<and> roots l = []"
  by (induction l arbitrary: best) (auto simp: elastic_step_def Let_def roots_def split: option.splits prod.splits)

lemma elastic_fold_in:
  "fold (elastic_step p) l best = Some (b, s) \<Longrightarrow>
    best = Some (b, s) \<or> (\<exists>ts. (ts, b) \<in> set (roots l) \<and> s = elastic_score p ts b)"
proof (induction l arbitrary: best)
  case (Cons x l)
  then have "elastic_step p x best = Some (b, s) \<or> (\<exists>ts. (ts, b) \<in> set (roots l) \<and> s = elastic_score p ts b)"
    by simp
  then show ?case
    by (cases x) (auto simp: elastic_step_def Let_def roots_def split: if_splits option.splits)
qed simp

lemma elastic_fold_min:
  assumes "\<And>ts r. (ts, r) \<in> set (roots l) \<Longrightarrow> elastic_score p ts r \<noteq> NaN"
    and "\<And>b' s'. best = Some (b', s') \<Longrightarrow> s' \<noteq> NaN"
    and "fold (elastic_step p) l best = Some (b, s)"
  shows "(\<forall>(ts, r) \<in> set (roots l). s \<le> elastic_score p ts r) \<and> (\<forall>b' s'. best = Some (b', s') \<longrightarrow> s \<le> s')"
  using assms
proof (induction l arbitrary: best)
  case Nil
  then show ?case by (simp add: roots_def f64_le_refl)
next
  case (Cons x l)
  obtain t ts where x: "x = (t, ts)" by fastforce
  let ?best = "elastic_step p x best" and ?root = "ts_h ts ! 0"
  have roots: "roots (x # l) = (if ts_h ts = [] then roots l else (ts, ?root) # roots l)"
    by (simp add: roots_def x)
  have nn: "elastic_score p ts ?root \<noteq> NaN" if "ts_h ts \<noteq> []"
    using Cons.prems(1) that by (simp add: roots)
  have step: "?best = (if ts_h ts = [] then best else case best of
      None \<Rightarrow> Some (?root, elastic_score p ts ?root)
    | Some (b0, s0) \<Rightarrow> if elastic_score p ts ?root < s0 then Some (?root, elastic_score p ts ?root) else best)"
    by (simp add: elastic_step_def Let_def x)
  have "(\<forall>(ts, r) \<in> set (roots l). s \<le> elastic_score p ts r) \<and> (\<forall>b' s'. ?best = Some (b', s') \<longrightarrow> s \<le> s')"
    using Cons.prems nn by (intro Cons.IH) (auto simp: roots step split: if_splits option.splits)
  moreover have "s \<le> elastic_score p ts ?root \<and> (\<forall>b' s'. best = Some (b', s') \<longrightarrow> s \<le> s')"
    if "ts_h ts \<noteq> []"
    using calculation that nn Cons.prems(2) unfolding step
    by (auto split: option.splits if_splits simp: f64_not_less intro: f64_le_trans [OF _ f64_less_imp_le] f64_le_trans)
  ultimately show ?case by (auto simp: roots step split: if_splits)
qed

definition some_over :: "(string, tenantState) gomap \<Rightarrow> bool" where
  "some_over l \<longleftrightarrow> (\<exists>ts r. (ts, r) \<in> set (roots l) \<and> tenantOver ts)"

lemma static_fold:
  assumes "\<forall>(ts, r) \<in> set (roots l). it_priority (g_mem p r) \<noteq> NaN"
    and "\<And>b. best = Some b \<Longrightarrow> it_priority (g_mem p b) \<noteq> NaN"
    and "over \<Longrightarrow> best \<noteq> None"
    and "fold (static_step p) l (best, over) = (best', over')"
  shows "(over' \<longleftrightarrow> over \<or> some_over l) \<and>
    (best' = None \<longleftrightarrow> best = None \<and> roots l = []) \<and>
    (\<forall>b. best' = Some b \<longrightarrow>
       (best = Some b \<and> over = over' \<or> (\<exists>ts. (ts, b) \<in> set (roots l) \<and> tenantOver ts = over')) \<and>
       (\<forall>ts r. (ts, r) \<in> set (roots l) \<longrightarrow> tenantOver ts = over' \<longrightarrow> it_priority (g_mem p b) \<le> it_priority (g_mem p r)) \<and>
       (\<forall>b0. best = Some b0 \<and> over = over' \<longrightarrow> it_priority (g_mem p b) \<le> it_priority (g_mem p b0)))"
  using assms
proof (induction l arbitrary: best over)
  case Nil
  then show ?case by (auto simp: roots_def some_over_def f64_le_refl)
next
  case (Cons x l)
  obtain t ts where x: "x = (t, ts)" by fastforce
  let ?root = "ts_h ts ! 0"
  have roots: "roots (x # l) = (if ts_h ts = [] then roots l else (ts, ?root) # roots l)"
    by (simp add: roots_def x)
  obtain best1 over1 where s1: "static_step p x (best, over) = (best1, over1)" by fastforce
  have step: "(best1, over1) = (if ts_h ts = [] then (best, over)
      else if tenantOver ts \<and> \<not> over then (Some ?root, True)
      else if tenantOver ts = over then
        (case best of None \<Rightarrow> (Some ?root, over)
         | Some b \<Rightarrow> if it_priority (g_mem p ?root) < it_priority (g_mem p b) then (Some ?root, over) else (best, over))
      else (best, over))"
    unfolding s1 [symmetric] by (simp add: static_step_def Let_def x)
  have nn: "it_priority (g_mem p ?root) \<noteq> NaN" if "ts_h ts \<noteq> []"
    using Cons.prems(1) that by (simp add: roots)
  have f: "fold (static_step p) l (best1, over1) = (best', over')" using Cons.prems(4) s1 by simp
  have nn1: "\<And>b. best1 = Some b \<Longrightarrow> it_priority (g_mem p b) \<noteq> NaN" and b1: "over1 \<Longrightarrow> best1 \<noteq> None"
    using step nn Cons.prems(2,3) by (auto split: if_splits option.splits)
  note IH = Cons.IH [OF _ nn1 b1 f]
  have sub: "set (roots l) \<subseteq> set (roots (x # l))" by (auto simp: roots)
  have IH': "(over' \<longleftrightarrow> over1 \<or> some_over l) \<and>
    (best' = None \<longleftrightarrow> best1 = None \<and> roots l = []) \<and>
    (\<forall>b. best' = Some b \<longrightarrow>
       (best1 = Some b \<and> over1 = over' \<or> (\<exists>ts. (ts, b) \<in> set (roots l) \<and> tenantOver ts = over')) \<and>
       (\<forall>ts r. (ts, r) \<in> set (roots l) \<longrightarrow> tenantOver ts = over' \<longrightarrow> it_priority (g_mem p b) \<le> it_priority (g_mem p r)) \<and>
       (\<forall>b0. best1 = Some b0 \<and> over1 = over' \<longrightarrow> it_priority (g_mem p b) \<le> it_priority (g_mem p b0)))"
    by (rule IH) (use Cons.prems(1) sub in blast)
  have le1: "it_priority (g_mem p ?root) < it_priority (g_mem p b) \<Longrightarrow>
      c \<le> it_priority (g_mem p ?root) \<Longrightarrow> c \<le> it_priority (g_mem p b)" for b c
    by (meson f64_le_trans f64_less_imp_le)
  have le2: "\<not> it_priority (g_mem p ?root) < it_priority (g_mem p b) \<Longrightarrow> best = Some b \<Longrightarrow> ts_h ts \<noteq> [] \<Longrightarrow>
      c \<le> it_priority (g_mem p b) \<Longrightarrow> c \<le> it_priority (g_mem p ?root)" for b c
    using nn Cons.prems(2) f64_not_less f64_le_trans by metis
  show ?case
  proof (cases "ts_h ts = []")
    case True
    then have eqs: "best1 = best" "over1 = over" "roots (x # l) = roots l" "some_over (x # l) = some_over l"
      using step by (auto simp: roots some_over_def)
    show ?thesis using IH' unfolding eqs .
  next
    case ne: False
    then have R: "roots (x # l) = (ts, ?root) # roots l" by (simp add: roots)
    then have so: "some_over (x # l) \<longleftrightarrow> tenantOver ts \<or> some_over l" by (auto simp: some_over_def)
    consider "tenantOver ts" "\<not> over" | "tenantOver ts = over" "best = None"
      | b where "tenantOver ts = over" "best = Some b" | "\<not> tenantOver ts" "over" by fastforce
    then show ?thesis
    proof cases
      case 1
      then have "best1 = Some ?root" "over1" using step ne by auto
      then show ?thesis using IH' 1 by (auto simp: R so)
    next
      case 2
      then have "best1 = Some ?root" "over1 = over" "\<not> over" using step ne Cons.prems(3) by auto
      then show ?thesis using IH' 2 by (auto simp: R so)
    next
      case 3
      have o1: "over1 = over" using step ne 3 by (auto split: if_splits)
      show ?thesis
      proof (cases "it_priority (g_mem p ?root) < it_priority (g_mem p b)")
        case True
        then have "best1 = Some ?root" using step ne 3 by simp
        then show ?thesis using IH' 3 o1 le1 [OF True] by (auto simp: R so)
      next
        case False
        then have "best1 = best" using step ne 3 by simp
        then show ?thesis using IH' 3 o1 le2 [OF False] ne by (auto simp: R so)
      qed
    next
      case 4
      then have "best1 = best" "over1 = over" using step ne by auto
      then show ?thesis using IH' 4 Cons.prems(3) by (auto simp: R so)
    qed
  qed
qed

text \<open>Under the invariant the loops see, for every resident item, the root of its tenant.\<close>

lemma roots_resident:
  assumes inv: "gdsf_inv p" and "(ts, b) \<in> set (roots (g_tenants p))"
  obtains k where "(k, b) \<in> set (g_items p)" "item_ok p k b" "ts = tenantOf p (it_tenant (g_mem p b))"
proof -
  obtain t where t: "(t, ts) \<in> set (g_tenants p)" "ts_h ts \<noteq> []" "b = ts_h ts ! 0"
    using assms(2) by (auto simp: roots_def)
  have "b \<in> set (ts_h ts)" using t(2,3) by (simp add: nth_mem)
  then have "b \<in> resident p t" using gdsf_invD(5) [OF inv t(1)] by (simp add: tenant_ok_def)
  then obtain k where "(k, b) \<in> set (g_items p)" "it_tenant (g_mem p b) = t" by (auto simp: resident_def)
  moreover have "gm_get (g_tenants p) t = Some ts" using t(1) gdsf_invD(2) [OF inv] by simp
  ultimately show thesis using that gdsf_invD(4) [OF inv] by (simp add: tenantOf_def)
qed

lemma item_root:
  assumes inv: "gdsf_inv p" and it: "(k, r) \<in> set (g_items p)"
  obtains b where "(tenantOf p (it_tenant (g_mem p r)), b) \<in> set (roots (g_tenants p))"
    "it_priority (g_mem p b) \<le> it_priority (g_mem p r)"
proof -
  obtain ts where ts: "tenantOf p (it_tenant (g_mem p r)) = ts" "(it_tenant (g_mem p r), ts) \<in> set (g_tenants p)"
    "tenant_ok p (it_tenant (g_mem p r)) ts" "r \<in> set (ts_h ts)"
    using tenantOf_item [OF inv it] .
  have "(it_tenant (g_mem p r), ts) \<in> set (filter (\<lambda>(_, ts). ts_h ts \<noteq> []) (g_tenants p))"
    using ts(2,4) by auto
  then have "(ts, ts_h ts ! 0) \<in> set (roots (g_tenants p))"
    unfolding roots_def set_map by (rule rev_image_eqI) simp
  moreover have "it_priority (g_mem p (ts_h ts ! 0)) \<le> it_priority (g_mem p r)"
    using heap_good_root ts(3,4) by (simp add: tenant_ok_def)
  ultimately show thesis using that ts(1) by simp
qed

lemma roots_prio: "gdsf_inv p \<Longrightarrow> (ts, b) \<in> set (roots (g_tenants p)) \<Longrightarrow> prio_ok (it_priority (g_mem p b))"
  by (erule roots_resident) (auto simp: item_ok_def)

lemma roots_Nil: "gdsf_inv p \<Longrightarrow> roots (g_tenants p) = [] \<longleftrightarrow> g_items p = []"
proof
  assume inv: "gdsf_inv p"
  show "g_items p = []" if "roots (g_tenants p) = []"
  proof (rule ccontr)
    assume "g_items p \<noteq> []"
    then obtain k r where "(k, r) \<in> set (g_items p)" by (cases "g_items p") auto
    then obtain b where "(tenantOf p (it_tenant (g_mem p r)), b) \<in> set (roots (g_tenants p))"
      using item_root [OF inv] by metis
    then show False using that by simp
  qed
  show "roots (g_tenants p) = []" if "g_items p = []"
  proof (rule ccontr)
    assume "roots (g_tenants p) \<noteq> []"
    then obtain ts b where "(ts, b) \<in> set (roots (g_tenants p))" by (cases "roots (g_tenants p)") auto
    then obtain k where "(k, b) \<in> set (g_items p)" using roots_resident [OF inv] by metis
    then show False using that by simp
  qed
qed

text \<open>\<open>over_quota\<close>: the resident bytes of a tenant exceed its configured quota.\<close>

definition over_quota :: "GDSFPolicy \<Rightarrow> string \<Rightarrow> bool" where
  "over_quota p t \<longleftrightarrow> slt64 0 (quotaOf p t) \<and> slt64 (quotaOf p t) (\<Sum>r\<in>resident p t. it_size (g_mem p r))"

lemma tenantOver_item:
  assumes "gdsf_inv p" and "(k, r) \<in> set (g_items p)"
  shows "tenantOver (tenantOf p (it_tenant (g_mem p r))) \<longleftrightarrow> over_quota p (it_tenant (g_mem p r))"
proof -
  obtain ts where "tenantOf p (it_tenant (g_mem p r)) = ts" "tenant_ok p (it_tenant (g_mem p r)) ts"
    using tenantOf_item [OF assms] by metis
  then show ?thesis by (simp add: tenant_ok_def tenantOver_def over_quota_def)
qed

lemma chosen_Some: "chosen (Some r) p =
    (p\<lparr>g_inflation := if g_inflation p < it_priority (g_mem p r) then it_priority (g_mem p r) else g_inflation p\<rparr>,
     Some (it_key (g_mem p r)))"
  by (simp add: chosen_def Let_def)

lemma victimStatic_spec:
  assumes inv: "gdsf_inv p"
  shows "(victimStatic p = (p, None) \<and> g_items p = []) \<or>
    (\<exists>k r. (k, r) \<in> set (g_items p) \<and> victimStatic p = chosen (Some r) p \<and>
      (\<forall>(k', r') \<in> set (g_items p). over_quota p (it_tenant (g_mem p r')) \<longrightarrow> over_quota p (it_tenant (g_mem p r))) \<and>
      (\<forall>(k', r') \<in> set (g_items p). over_quota p (it_tenant (g_mem p r')) = over_quota p (it_tenant (g_mem p r)) \<longrightarrow>
        it_priority (g_mem p r) \<le> it_priority (g_mem p r')))"
proof -
  obtain best over where f: "fold (static_step p) (g_tenants p) (None, False) = (best, over)" by fastforce
  let ?R = "set (roots (g_tenants p))"
  have nn: "\<forall>(ts, r) \<in> ?R. it_priority (g_mem p r) \<noteq> NaN"
    using roots_prio [OF inv] by (force simp: prio_ok_def)
  have spec: "over \<longleftrightarrow> some_over (g_tenants p)" "best = None \<longleftrightarrow> roots (g_tenants p) = []"
    "\<And>b. best = Some b \<Longrightarrow> (\<exists>ts. (ts, b) \<in> ?R \<and> tenantOver ts = over) \<and>
       (\<forall>ts r. (ts, r) \<in> ?R \<longrightarrow> tenantOver ts = over \<longrightarrow> it_priority (g_mem p b) \<le> it_priority (g_mem p r))"
    using static_fold [OF nn _ _ f] by auto
  show ?thesis
  proof (cases best)
    case None
    then show ?thesis using spec(2) roots_Nil [OF inv] f by (simp add: victimStatic_def chosen_def)
  next
    case (Some b)
    then obtain ts where b: "(ts, b) \<in> ?R" "tenantOver ts = over" using spec(3) by blast
    then obtain k where k: "(k, b) \<in> set (g_items p)" "ts = tenantOf p (it_tenant (g_mem p b))"
      using roots_resident [OF inv b(1)] by metis
    have ob: "over_quota p (it_tenant (g_mem p b)) = over" using tenantOver_item [OF inv k(1)] b k by simp
    have "(over_quota p (it_tenant (g_mem p r)) \<longrightarrow> over) \<and>
        (over_quota p (it_tenant (g_mem p r)) = over \<longrightarrow> it_priority (g_mem p b) \<le> it_priority (g_mem p r))"
      if it: "(k', r) \<in> set (g_items p)" for k' r
    proof -
      obtain b' where b': "(tenantOf p (it_tenant (g_mem p r)), b') \<in> ?R"
        "it_priority (g_mem p b') \<le> it_priority (g_mem p r)" using item_root [OF inv it] .
      have "it_priority (g_mem p b) \<le> it_priority (g_mem p b')"
        if "tenantOver (tenantOf p (it_tenant (g_mem p r))) = over"
        using conjunct2 [OF spec(3) [OF Some]] that b'(1) by blast
      moreover have "over" if "tenantOver (tenantOf p (it_tenant (g_mem p r)))"
        using spec(1) that b'(1) unfolding some_over_def by blast
      ultimately show ?thesis
        using f64_le_trans [OF _ b'(2)] tenantOver_item [OF inv it] by simp
    qed
    moreover have "victimStatic p = chosen (Some b) p" using Some f by (simp add: victimStatic_def)
    ultimately show ?thesis using k(1) ob by blast
  qed
qed

lemma overage_bounded: "\<exists>o'. overage ts = Fin o' \<and> 0 \<le> o' \<and> o' \<le> 2 ^ 66"
proof (cases "sle64 (ts_quota ts) 0")
  case True
  then show ?thesis
    by (auto simp: overage_def maxOverage_def f64_of_int_def zero_f64_def)
next
  case False
  then have q: "0 < sint (ts_quota ts)" by (simp add: sle64_def)
  have "sint (ts_quota ts) < 2 ^ 64" using sint_lt [of "ts_quota ts"] by simp
  then obtain y where y: "f64_of_int (sint (ts_quota ts)) = Fin y" "1 \<le> y"
    using f64_of_int_nonneg [of "sint (ts_quota ts)"] q by auto
  have "\<bar>sint (ts_bytes ts)\<bar> \<le> 2 ^ 64" using sint_lt [of "ts_bytes ts"] sint_ge [of "ts_bytes ts"] by simp
  then have "\<bar>of_int (sint (ts_bytes ts)) :: rat\<bar> \<le> of_int (2 ^ 64)" by (simp only: of_int_abs [symmetric] of_int_le_iff)
  then obtain b where b: "f64_of_int (sint (ts_bytes ts)) = Fin b" "\<bar>b\<bar> \<le> 2 ^ 64"
    using rnd_abs_le_pow2 [of "of_int (sint (ts_bytes ts))" 64] by (auto simp: f64_of_int_def)
  have "\<bar>b / y\<bar> \<le> \<bar>b\<bar>" using y(2) by (simp add: abs_divide divide_le_eq mult_le_cancel_left1)
  then obtain d where d: "rnd (b / y) = Fin d" "\<bar>d\<bar> \<le> 2 ^ 64"
    using b(2) rnd_abs_le_pow2 [of "b / y" 64] by force
  then obtain z where z: "rnd (d - 1) = Fin z" "\<bar>z\<bar> \<le> 2 ^ 66"
    using rnd_abs_le_pow2 [of "d - 1" 66] by force
  have "Fin b / Fin y - 1 = Fin z"
    using y(2) d z by (simp add: divide_f64_def minus_f64_def one_f64_def)
  then show ?thesis
    using False z y b by (auto simp: overage_def Let_def f64_less_iff zero_f64_def)
qed

lemma discount_pos:
  assumes "0 \<le> w" and "w \<le> 1"
  shows "\<exists>y. 1 + w * overage ts = Fin y \<and> 0 < y"
proof -
  obtain v where w: "w = Fin v" "0 \<le> v" "v \<le> 1"
    using assms by (cases w) (auto simp: f64_le_iff one_f64_def zero_f64_def)
  obtain o' where o': "overage ts = Fin o'" "0 \<le> o'" "o' \<le> 2 ^ 66" using overage_bounded by blast
  have "\<bar>v * o'\<bar> \<le> 2 ^ 66" using w o' mult_mono [of v 1 o' "2 ^ 66"] by simp
  then obtain x where x: "rnd (v * o') = Fin x" "\<bar>x\<bar> \<le> 2 ^ 66"
    using rnd_abs_le_pow2 [of "v * o'" 66] by force
  have "0 \<le> x" using rnd_nonneg [of "v * o'"] x w o' by simp
  then obtain y where y: "rnd (1 + x) = Fin y" using rnd_abs_le_pow2 [of "1 + x" 67] x(2) by force
  have "1 \<le> y" using rnd_mono [of 1 "1 + x"] y \<open>0 \<le> x\<close> by (simp add: f64_le_iff)
  moreover have "1 + w * overage ts = Fin y"
    by (simp add: w o' times_f64_def x plus_f64_def one_f64_def y)
  ultimately show ?thesis by auto
qed

text \<open>The fairness-adjusted priority \<^verbatim>\<open>H_eff\<close> of an item.\<close>

definition eff_priority :: "GDSFPolicy \<Rightarrow> ref \<Rightarrow> f64" where
  "eff_priority p r = elastic_score p (tenantOf p (it_tenant (g_mem p r))) r"

lemma elastic_score_mono:
  assumes "0 \<le> g_fairnessWeight p" and "g_fairnessWeight p \<le> 1"
    and "it_priority (g_mem p b) \<le> it_priority (g_mem p r)"
  shows "elastic_score p ts b \<le> elastic_score p ts r"
  using discount_pos [OF assms(1,2), of ts] f64_div_mono [OF assms(3)] by (auto simp: elastic_score_def)

lemma victimElastic_some:
  assumes inv: "gdsf_inv p"
  shows "(victimElastic p = (p, None) \<and> g_items p = []) \<or>
    (\<exists>k r. (k, r) \<in> set (g_items p) \<and> victimElastic p = chosen (Some r) p \<and>
       (\<exists>s. fold (elastic_step p) (g_tenants p) None = Some (r, s)) \<and>
       (tenantOf p (it_tenant (g_mem p r)), r) \<in> set (roots (g_tenants p)))"
proof (cases "fold (elastic_step p) (g_tenants p) None")
  case None
  then show ?thesis
    using elastic_fold_None [of p "g_tenants p" None] roots_Nil [OF inv] by (simp add: victimElastic_def chosen_def)
next
  case (Some bs)
  then obtain b s where bs: "fold (elastic_step p) (g_tenants p) None = Some (b, s)" by (cases bs) simp
  then obtain ts where ts: "(ts, b) \<in> set (roots (g_tenants p))" using elastic_fold_in [OF bs] by auto
  then obtain k where "(k, b) \<in> set (g_items p)" "ts = tenantOf p (it_tenant (g_mem p b))"
    using roots_resident [OF inv] by metis
  then show ?thesis using bs ts by (auto simp: victimElastic_def)
qed

section \<open>The policy satisfies the eviction contract\<close>

lemma gdsf_inv_inflation: "gdsf_inv p \<Longrightarrow> prio_ok x \<Longrightarrow> gdsf_inv (p\<lparr>g_inflation := x\<rparr>)"
  by (auto simp: gdsf_inv_def item_ok_def tenant_ok_def resident_def quotaOf_def split: prod.splits)

lemma gdsf_inv_chosen:
  assumes "gdsf_inv p" and "(k, r) \<in> set (g_items p)"
  shows "gdsf_inv (fst (chosen (Some r) p))"
  using gdsf_inv_inflation [OF assms(1)] gdsf_invD(3) [OF assms(1)] gdsf_invD(4) [OF assms]
  by (simp add: chosen_Some item_ok_def)

lemma gdsf_Victim_cases:
  assumes inv: "gdsf_inv p"
  obtains "gdsf_Victim p = (p, None)" "g_items p = []"
  | k r where "(k, r) \<in> set (g_items p)" "gdsf_Victim p = chosen (Some r) p"
  using victimStatic_spec [OF inv] victimElastic_some [OF inv] that unfolding gdsf_Victim_def by metis

lemma chosen_key:
  "gdsf_inv p \<Longrightarrow> (k, r) \<in> set (g_items p) \<Longrightarrow> snd (chosen (Some r) p) = Some k"
  using gdsf_invD(4) by (simp add: chosen_Some item_ok_def)

lemma gdsf_OverQuota_iff:
  assumes "gdsf_inv p"
  shows "gdsf_OverQuota p \<longleftrightarrow> \<not> g_elastic p \<and> (\<exists>t \<in> gm_keys (g_tenants p). over_quota p t)"
proof -
  have "tenantOver ts \<longleftrightarrow> over_quota p t" if "(t, ts) \<in> set (g_tenants p)" for t ts
    using gdsf_invD(5) [OF assms that] by (simp add: tenantOver_def over_quota_def tenant_ok_def)
  then show ?thesis by (auto simp: gdsf_OverQuota_def list_ex_iff) (auto intro!: bexI)
qed

interpretation gdsf: eviction_policy GDSF "\<lambda>p. gm_keys (g_items p)" gdsf_inv "\<lambda>m. cost_ok (wm_Cost m)"
proof
  fix p p' :: GDSFPolicy and h v and m
  assume inv: "gdsf_inv p"
  show "gdsf_inv (RecordAccess GDSF h p) \<and> gm_keys (g_items (RecordAccess GDSF h p)) = gm_keys (g_items p)"
    using gdsf_RecordAccess_inv [OF inv] by (simp add: GDSF_def)
  show "gdsf_inv (RecordEvict GDSF h p) \<and> gm_keys (g_items (RecordEvict GDSF h p)) = gm_keys (g_items p) - {h}"
    using gdsf_RecordEvict_inv [OF inv] by (simp add: GDSF_def)
  show "gdsf_inv (RecordWrite GDSF m p) \<and> gm_keys (g_items (RecordWrite GDSF m p)) = insert (wm_Key m) (gm_keys (g_items p))"
    if "cost_ok (wm_Cost m)"
    using gdsf_RecordWrite_inv [OF inv that] by (simp add: GDSF_def)
  show "gdsf_inv p' \<and> gm_keys (g_items p') = gm_keys (g_items p)" if v: "Victim GDSF p = (p', v)"
    by (rule gdsf_Victim_cases [OF inv]; use v inv gdsf_inv_chosen [OF inv] in \<open>fastforce simp: GDSF_def chosen_Some\<close>)
  show "h \<in> gm_keys (g_items p)" if v: "Victim GDSF p = (p', Some h)"
    by (rule gdsf_Victim_cases [OF inv]; use v chosen_key [OF inv] in \<open>force simp: GDSF_def\<close>)
  show "gm_keys (g_items p) = {}" if v: "Victim GDSF p = (p', None)"
    by (rule gdsf_Victim_cases [OF inv]; use v in \<open>simp add: GDSF_def chosen_Some\<close>)
  show "\<not> policyOverQuota GDSF p" if "gm_keys (g_items p) = {}"
  proof -
    have "resident p t = {}" for t using that by (auto simp: resident_def)
    then show ?thesis
      using gdsf_OverQuota_iff [OF inv] by (simp add: policyOverQuota_def GDSF_def over_quota_def slt64_def)
  qed
qed

end
