(* ===== verification/GDSF_Correct.thy ===== *)
theory GDSF_Correct
  imports Policy_GDSF
begin

text \<open>
  What the GDSF policy promises. \<open>item_view\<close> reads the policy as a plain map from keys to items, and every
  operation is shown to act on that map as the algorithm says; the victim of either selection rule is
  characterised over it, and the aging floor is followed along histories of calls.
\<close>

section \<open>The policy as a map from keys to items\<close>

definition item_view :: "GDSFPolicy \<Rightarrow> BlockHash \<rightharpoonup> gdsfItem" where
  "item_view p k = map_option (\<lambda>r. (g_mem p r)\<lparr>it_index := 0\<rparr>) (gm_get (g_items p) k)"

lemma item_view_Some:
  "gdsf_inv p \<Longrightarrow> item_view p k = Some it \<longleftrightarrow> (\<exists>r. (k, r) \<in> set (g_items p) \<and> it = (g_mem p r)\<lparr>it_index := 0\<rparr>)"
  using gdsf_invD(1) [of p] by (auto simp: item_view_def)

lemma item_view_None: "item_view p k = None \<longleftrightarrow> k \<notin> gm_keys (g_items p)"
  by (simp add: item_view_def map_of_eq_None_iff)

lemma dom_item_view: "dom (item_view p) = gm_keys (g_items p)"
  by (simp add: dom_def item_view_None)

lemma item_view_at:
  "gm_get (g_items p) k = None \<Longrightarrow> item_view p k = None"
  "gm_get (g_items p) k = Some r \<Longrightarrow> item_view p k = Some ((g_mem p r)\<lparr>it_index := 0\<rparr>)"
  by (simp_all add: item_view_def)

lemma gm_get_inj:
  "gdsf_inv p \<Longrightarrow> gm_get (g_items p) k = Some r \<Longrightarrow> gm_get (g_items p) k' = Some r \<longleftrightarrow> k' = k"
  using item_key_unique [of p k r k'] by (auto dest: map_of_SomeD)

lemma item_view_upd:
  assumes "gdsf_inv p" and "gm_get (g_items p) k = Some r"
    and "g_items p' = g_items p" and "\<And>x. same_but_index (((g_mem p)(r := it)) x) (g_mem p' x)"
  shows "item_view p' = (item_view p)(k \<mapsto> it\<lparr>it_index := 0\<rparr>)"
proof
  fix k'
  show "item_view p' k' = ((item_view p)(k \<mapsto> it\<lparr>it_index := 0\<rparr>)) k'"
    using assms gm_get_inj [OF assms(1,2), of k']
    by (cases "gm_get (g_items p) k'") (auto simp: item_view_def same_but_index_def)
qed

lemma item_view_sel:
  assumes "item_view p k = Some it" and "gm_get (g_items p) k = Some r"
  shows "it_tenant it = it_tenant (g_mem p r)" "it_size it = it_size (g_mem p r)" "it_cost it = it_cost (g_mem p r)"
    "it_freq it = it_freq (g_mem p r)" "it_priority it = it_priority (g_mem p r)" "it_key it = it_key (g_mem p r)"
    "it\<lparr>it_index := 0\<rparr> = it"
  using assms by (auto simp: item_view_def)

lemma gdsf_RecordAccess_view:
  assumes "gdsf_inv p"
  shows "item_view (gdsf_RecordAccess h p) =
    (case item_view p h of
       None \<Rightarrow> item_view p
     | Some it \<Rightarrow> (item_view p)(h \<mapsto> it\<lparr>it_freq := it_freq it + 1,
         it_priority := priorityOf p (it_freq it + 1) (it_cost it) (it_size it)\<rparr>))"
proof (cases "gm_get (g_items p) h")
  case None
  then show ?thesis by (simp add: gdsf_RecordAccess_def item_view_def)
next
  case (Some r)
  then have it: "(h, r) \<in> set (g_items p)" by (rule map_of_SomeD)
  let ?it = "(g_mem p r)\<lparr>it_freq := it_freq (g_mem p r) + 1,
      it_priority := priorityOf p (it_freq (g_mem p r) + 1) (it_cost (g_mem p r)) (it_size (g_mem p r))\<rparr>"
  have ok: "it_key (g_mem p r) = h" "cost_ok (it_cost (g_mem p r))"
    using gdsf_invD(4) [OF assms it] by (simp_all add: item_ok_def)
  have "item_view (gdsf_RecordAccess h p) = (item_view p)(h \<mapsto> ?it\<lparr>it_index := 0\<rparr>)"
    using gdsf_touch(2) [OF assms it, of ?it] ok Some priorityOf_ok(1) [OF gdsf_invD(3) [OF assms] ok(2)]
    by (intro item_view_upd [OF assms Some]) (simp_all add: gdsf_RecordAccess_def Let_def)
  then show ?thesis using item_view_at(2) [OF Some] by (cases "g_mem p r") simp
qed

lemma gdsf_insert_view:
  assumes inv: "gdsf_inv p" and ok: "cost_ok (wm_Cost m)" and new: "wm_Key m \<notin> gm_keys (g_items p)"
  shows "item_view (gdsf_insert m p) = (item_view p)(wm_Key m \<mapsto> fresh_item m p)"
proof
  fix k
  have "r < g_next p" if "gm_get (g_items p) k = Some r" for r
    using gdsf_invD(4) [OF inv map_of_SomeD [OF that]] by (simp add: item_ok_def)
  then show "item_view (gdsf_insert m p) k = ((item_view p)(wm_Key m \<mapsto> fresh_item m p)) k"
    using gdsf_insert_inv(2,3) [OF assms]
    by (cases "gm_get (g_items p) k") (auto simp: item_view_def same_but_index_def fresh_item_def)
qed

lemma gdsf_removeItem_view:
  assumes inv: "gdsf_inv p" and it: "(k, r) \<in> set (g_items p)"
  shows "item_view (gdsf_removeItem r p) = (item_view p)(k := None)"
  using gdsf_removeItem_inv(2,3) [OF assms]
  by (auto simp: item_view_def same_but_index_def fun_eq_iff intro!: option.map_cong)

lemma gdsf_RecordWrite_view:
  assumes inv: "gdsf_inv p" and ok: "cost_ok (wm_Cost m)"
  shows "item_view (gdsf_RecordWrite m p) = (item_view p)(wm_Key m \<mapsto>
    (case item_view p (wm_Key m) of
       Some it \<Rightarrow>
         if it_tenant it = wm_TenantID m
         then it\<lparr>it_size := wm_Size m, it_cost := wm_Cost m,
                 it_priority := priorityOf p (it_freq it) (wm_Cost m) (wm_Size m)\<rparr>
         else fresh_item m p
     | None \<Rightarrow> fresh_item m p))"
proof (cases "gm_get (g_items p) (wm_Key m)")
  case None
  then show ?thesis
    using gdsf_insert_view [OF inv ok] item_view_at(1) [OF None] item_view_None [of p "wm_Key m"]
    by (simp add: gdsf_RecordWrite_def)
next
  case (Some r)
  then have it: "(wm_Key m, r) \<in> set (g_items p)" by (rule map_of_SomeD)
  have key: "it_key (g_mem p r) = wm_Key m" using gdsf_invD(4) [OF inv it] by (simp add: item_ok_def)
  show ?thesis
  proof (cases "it_tenant (g_mem p r) = wm_TenantID m")
    case True
    let ?it = "(g_mem p r)\<lparr>it_size := wm_Size m, it_cost := wm_Cost m,
        it_priority := priorityOf p (it_freq (g_mem p r)) (wm_Cost m) (wm_Size m)\<rparr>"
    have "item_view (gdsf_overwrite m r p) = (item_view p)(wm_Key m \<mapsto> ?it\<lparr>it_index := 0\<rparr>)"
      using gdsf_touch(2) [OF inv it, of ?it] key ok priorityOf_ok(1) [OF gdsf_invD(3) [OF inv] ok]
      by (intro item_view_upd [OF inv Some]) (simp_all add: gdsf_overwrite_def Let_def)
    then show ?thesis
      using Some True item_view_at(2) [OF Some] by (cases "g_mem p r") (simp add: gdsf_RecordWrite_def)
  next
    case False
    note rm = gdsf_removeItem_inv [OF inv it]
    have "fresh_item m (gdsf_removeItem r p) = fresh_item m p"
      by (simp add: fresh_item_def priorityOf_def rm(4))
    then show ?thesis
      using gdsf_insert_view [OF rm(1) ok] gdsf_removeItem_view [OF inv it] Some False
      by (simp add: gdsf_RecordWrite_def rm(2) item_view_at(2) [OF Some])
  qed
qed

lemma gdsf_RecordEvict_view:
  assumes "gdsf_inv p"
  shows "item_view (gdsf_RecordEvict h p) = (item_view p)(h := None)"
proof (cases "gm_get (g_items p) h")
  case None
  then show ?thesis using item_view_at(1) [OF None] by (simp add: gdsf_RecordEvict_def fun_upd_idem)
next
  case (Some r)
  then show ?thesis
    using gdsf_removeItem_view [OF assms map_of_SomeD [OF Some]] by (simp add: gdsf_RecordEvict_def)
qed

lemma gdsf_Victim_view: "item_view (fst (gdsf_Victim p)) = item_view p"
  by (simp add: gdsf_Victim_def victimElastic_def victimStatic_def chosen_def Let_def item_view_def fun_eq_iff
      split: option.splits)

text \<open>
  The specification: the value \<^verbatim>\<open>H = L + freq * cost / size\<close> with a cost that is not positive read as 1 and
  a size below 1 read as 1, and what each call does to a map from keys to items at floor \<^verbatim>\<open>L\<close>.
\<close>

definition gdsf_H :: "f64 \<Rightarrow> uint64 \<Rightarrow> f64 \<Rightarrow> int64 \<Rightarrow> f64" where
  "gdsf_H L freq cost sz =
     L + f64_of_int (uint freq) * (if cost \<le> 0 then 1 else cost) / f64_of_int (max 1 (sint sz))"

fun spec_step :: "f64 \<Rightarrow> policy_call \<Rightarrow> (BlockHash \<rightharpoonup> gdsfItem) \<Rightarrow> BlockHash \<rightharpoonup> gdsfItem" where
  "spec_step L (Access h) v =
     (case v h of
        None \<Rightarrow> v
      | Some it \<Rightarrow> v(h \<mapsto> it\<lparr>it_freq := it_freq it + 1,
                             it_priority := gdsf_H L (it_freq it + 1) (it_cost it) (it_size it)\<rparr>))"
| "spec_step L (Write m) v =
     (let freq = (case v (wm_Key m) of
                    Some it \<Rightarrow> if it_tenant it = wm_TenantID m then it_freq it else 1
                  | None \<Rightarrow> 1)
      in v(wm_Key m \<mapsto> \<lparr>it_key = wm_Key m, it_tenant = wm_TenantID m, it_size = wm_Size m,
                         it_cost = wm_Cost m, it_freq = freq,
                         it_priority = gdsf_H L freq (wm_Cost m) (wm_Size m), it_index = 0\<rparr>))"
| "spec_step L (Evict h) v = v(h := None)"
| "spec_step L Pick v = v"

lemma priorityOf_H: "priorityOf p freq cost sz = gdsf_H (g_inflation p) freq cost sz"
proof -
  have "sint (if sle64 sz 0 then 1 else sz) = max 1 (sint sz)" by (auto simp: sle64_def)
  then show ?thesis by (simp add: priorityOf_def gdsf_H_def Let_def)
qed

lemma item_view_key: "gdsf_inv p \<Longrightarrow> item_view p k = Some it \<Longrightarrow> it_key it = k \<and> it_index it = 0"
  using gdsf_invD(4) [of p k] by (auto simp: item_view_Some item_ok_def)

lemma item_view_step:
  assumes inv: "gdsf_inv p" and ok: "call_ok (\<lambda>m. cost_ok (wm_Cost m)) c"
  shows "item_view (policy_step GDSF c p) = spec_step (g_inflation p) c (item_view p)"
proof (cases c)
  case (Access h)
  then show ?thesis
    using gdsf_RecordAccess_view [OF inv, of h] by (simp add: GDSF_def priorityOf_H split: option.splits)
next
  case (Write m)
  moreover have "it\<lparr>it_size := a, it_cost := b, it_priority := q\<rparr> =
      \<lparr>it_key = wm_Key m, it_tenant = it_tenant it, it_size = a, it_cost = b, it_freq = it_freq it,
       it_priority = q, it_index = 0\<rparr>" if "item_view p (wm_Key m) = Some it" for it a b q
    using item_view_key [OF inv that] by (cases it) simp
  ultimately show ?thesis
    using gdsf_RecordWrite_view [OF inv, of m] ok
    by (auto simp: GDSF_def priorityOf_H fresh_item_def Let_def split: option.splits)
next
  case (Evict h)
  then show ?thesis using gdsf_RecordEvict_view [OF inv] by (simp add: GDSF_def)
next
  case Pick
  then show ?thesis using gdsf_Victim_view by (simp add: GDSF_def)
qed

text \<open>
  Property C16: the heap-based policy refines the algorithm on a plain map. A hit adds one to the
  frequency and recomputes the value from the current floor. A write stores tenant, size and cost; it keeps the
  frequency of a block that the same tenant overwrites, while a block that moves to another tenant starts again
  at frequency 1, like a new one. An eviction forgets the key, and choosing a victim leaves every item alone.
\<close>

theorem gdsf_refines_spec:
  assumes "gdsf_inv p" and "call_ok (\<lambda>m. cost_ok (wm_Cost m)) c"
  shows "item_view (policy_step GDSF c p) = spec_step (g_inflation p) c (item_view p)"
  by (rule item_view_step [OF assms])

text \<open>The frequency does not survive a change of the tenant, though the comment on \<^verbatim>\<open>RecordWrite\<close> says it survives an overwrite.\<close>

lemma tenant_move_resets_frequency:
  assumes "gdsf_inv p" and "cost_ok (wm_Cost m)" and "item_view p (wm_Key m) = Some it" and "it_tenant it \<noteq> wm_TenantID m"
  shows "map_option it_freq (item_view (RecordWrite GDSF m p) (wm_Key m)) = Some 1"
  using item_view_step [OF assms(1), of "Write m"] assms(2-4) by (simp add: Let_def)

section \<open>The victims\<close>

text \<open>
  Property C14: under the static rule the victim belongs to an over-quota tenant whenever some tenant
  with resident blocks is over its quota, its priority is least among the blocks of its class (those of
  over-quota tenants, or all), and choosing it changes only the aging floor, which rises to its priority.
\<close>

theorem gdsf_static_victim:
  assumes inv: "gdsf_inv p" and "\<not> g_elastic p" and v: "gdsf_Victim p = (p', Some k)"
  shows "\<exists>it. item_view p k = Some it \<and>
    (\<forall>k' it'. item_view p k' = Some it' \<longrightarrow>
      (over_quota p (it_tenant it') \<longrightarrow> over_quota p (it_tenant it)) \<and>
      (over_quota p (it_tenant it') = over_quota p (it_tenant it) \<longrightarrow> it_priority it \<le> it_priority it')) \<and>
    p' = p\<lparr>g_inflation := if g_inflation p < it_priority it then it_priority it else g_inflation p\<rparr>"
proof -
  obtain k0 r where r: "(k0, r) \<in> set (g_items p)" "victimStatic p = chosen (Some r) p"
    "\<forall>(k', r') \<in> set (g_items p). over_quota p (it_tenant (g_mem p r')) \<longrightarrow> over_quota p (it_tenant (g_mem p r))"
    "\<forall>(k', r') \<in> set (g_items p). over_quota p (it_tenant (g_mem p r')) = over_quota p (it_tenant (g_mem p r)) \<longrightarrow>
        it_priority (g_mem p r) \<le> it_priority (g_mem p r')"
    using victimStatic_spec [OF inv] assms(2) v by (auto simp: gdsf_Victim_def)
  have "k0 = k" using chosen_key [OF inv r(1)] r(2) v assms(2) by (simp add: gdsf_Victim_def)
  then have "item_view p k = Some ((g_mem p r)\<lparr>it_index := 0\<rparr>)"
    using r(1) item_view_Some [OF inv] by blast
  moreover have "p' = p\<lparr>g_inflation := if g_inflation p < it_priority (g_mem p r) then it_priority (g_mem p r)
      else g_inflation p\<rparr>"
    using v r(2) assms(2) by (auto simp: gdsf_Victim_def chosen_Some)
  ultimately show ?thesis
    using r(3,4) by (intro exI [of _ "(g_mem p r)\<lparr>it_index := 0\<rparr>"]) (auto simp: item_view_Some [OF inv])
qed

text \<open>\<^verbatim>\<open>H_eff = H / (1 + w * overage)\<close>.\<close>

definition heff :: "GDSFPolicy \<Rightarrow> gdsfItem \<Rightarrow> f64" where
  "heff p it = it_priority it / (1 + g_fairnessWeight p * overage (tenantOf p (it_tenant it)))"

lemma heff_score: "heff p ((g_mem p r)\<lparr>it_index := 0\<rparr>) = elastic_score p (tenantOf p (it_tenant (g_mem p r))) r"
  by (simp add: heff_def elastic_score_def)

text \<open>
  Property C15: under the elastic rule with a weight between 0 and 1 the victim has the least
  fairness-adjusted priority of all resident blocks, although the loop compares only the roots of the
  tenant heaps, and the floor rises to its true priority.
\<close>

theorem gdsf_elastic_victim:
  assumes inv: "gdsf_inv p" and "g_elastic p" and w: "0 \<le> g_fairnessWeight p" "g_fairnessWeight p \<le> 1"
    and v: "gdsf_Victim p = (p', Some k)"
  shows "\<exists>it. item_view p k = Some it \<and> (\<forall>k' it'. item_view p k' = Some it' \<longrightarrow> heff p it \<le> heff p it') \<and>
    p' = p\<lparr>g_inflation := if g_inflation p < it_priority it then it_priority it else g_inflation p\<rparr>"
proof -
  obtain k0 r s where r: "(k0, r) \<in> set (g_items p)" "victimElastic p = chosen (Some r) p"
    "fold (elastic_step p) (g_tenants p) None = Some (r, s)"
    using victimElastic_some [OF inv] assms(2) v by (auto simp: gdsf_Victim_def)
  have "k0 = k" using chosen_key [OF inv r(1)] r(2) v assms(2) by (simp add: gdsf_Victim_def)
  then have view: "item_view p k = Some ((g_mem p r)\<lparr>it_index := 0\<rparr>)"
    using r(1) item_view_Some [OF inv] by blast
  have score: "0 \<le> elastic_score p ts b" if "(ts, b) \<in> set (roots (g_tenants p))" for ts b
    using roots_prio [OF inv that] discount_pos [OF w, of ts] f64_div_nonneg
    by (auto simp: elastic_score_def prio_ok_def)
  have s: "s = elastic_score p (tenantOf p (it_tenant (g_mem p r))) r"
    using elastic_fold_in [OF r(3)] roots_resident [OF inv] by auto
  have min: "s \<le> elastic_score p ts b" if "(ts, b) \<in> set (roots (g_tenants p))" for ts b
    using elastic_fold_min [OF _ _ r(3)] score that by (fastforce dest: f64_le_NaN)
  have all: "s \<le> elastic_score p (tenantOf p (it_tenant (g_mem p r'))) r'" if it: "(k', r') \<in> set (g_items p)" for k' r'
  proof -
    obtain b where "(tenantOf p (it_tenant (g_mem p r')), b) \<in> set (roots (g_tenants p))"
      "it_priority (g_mem p b) \<le> it_priority (g_mem p r')" using item_root [OF inv it] .
    then show ?thesis using min elastic_score_mono [OF w] f64_le_trans by blast
  qed
  moreover have "p' = p\<lparr>g_inflation := if g_inflation p < it_priority (g_mem p r) then it_priority (g_mem p r)
      else g_inflation p\<rparr>"
    using v r(2) assms(2) by (auto simp: gdsf_Victim_def chosen_Some)
  moreover have "heff p ((g_mem p r)\<lparr>it_index := 0\<rparr>) \<le> heff p it'" if "item_view p k' = Some it'" for k' it'
    using that all s item_view_Some [OF inv, of k'] by (auto simp: heff_score)
  ultimately show ?thesis
    using view by (intro exI [of _ "(g_mem p r)\<lparr>it_index := 0\<rparr>"]) simp
qed

section \<open>Histories: the aging floor\<close>

text \<open>
  Property C17: whatever sequence of reads, finite-cost writes, evictions and victim selections a policy
  built with any quotas, mode and weight sees, its heaps stay in order, every item knows its position in
  its tenant's heap, and each tenant's byte counter is the sum of the sizes of its resident blocks.
\<close>

theorem gdsf_history_invariant:
  assumes "list_all (call_ok (\<lambda>m. cost_ok (wm_Cost m))) calls"
  shows "gdsf_inv (policy_run GDSF calls (newGDSF quotas elastic w))"
  by (rule gdsf.run_invar [OF gdsf_inv_newGDSF assms])

lemma gdsf_step_inflation:
  assumes inv: "gdsf_inv p" and "call_ok (\<lambda>m. cost_ok (wm_Cost m)) c"
  shows "c \<noteq> Pick \<Longrightarrow> g_inflation (policy_step GDSF c p) = g_inflation p"
    and "g_inflation p \<le> g_inflation (policy_step GDSF c p)"
proof -
  have nn: "g_inflation p \<noteq> NaN" using gdsf_invD(3) [OF inv] by (auto simp: prio_ok_def)
  show eq: "g_inflation (policy_step GDSF c p) = g_inflation p" if "c \<noteq> Pick"
  proof (cases c)
    case (Access h)
    then show ?thesis by (simp add: GDSF_def gdsf_RecordAccess_def Let_def split: option.splits)
  next
    case (Write m)
    then have "cost_ok (wm_Cost m)" using assms(2) by simp
    then have ins: "g_inflation (gdsf_insert m q) = g_inflation q" if "gdsf_inv q" "wm_Key m \<notin> gm_keys (g_items q)" for q
      using gdsf_insert_inv(4) that by blast
    show ?thesis
    proof (cases "gm_get (g_items p) (wm_Key m)")
      case None
      then show ?thesis using Write ins [OF inv] by (simp add: GDSF_def gdsf_RecordWrite_def map_of_eq_None_iff [symmetric])
    next
      case (Some r)
      note rm = gdsf_removeItem_inv [OF inv map_of_SomeD [OF Some]]
      show ?thesis
        using Write Some ins [OF rm(1)]
        by (simp add: GDSF_def gdsf_RecordWrite_def gdsf_overwrite_def Let_def rm(2,4))
    qed
  next
    case (Evict h)
    then show ?thesis
      using gdsf_removeItem_inv(4) [OF inv] by (auto simp: GDSF_def gdsf_RecordEvict_def dest: map_of_SomeD split: option.splits)
  qed (use that in simp)
  show "g_inflation p \<le> g_inflation (policy_step GDSF c p)"
  proof (cases "c = Pick")
    case True
    show ?thesis
      by (rule gdsf_Victim_cases [OF inv])
        (use True nn in \<open>auto simp: GDSF_def chosen_Some f64_le_refl f64_less_imp_le\<close>)
  qed (simp add: eq nn f64_le_refl)
qed

text \<open>
  With no quota configured and the static rule, the floor never exceeds the priority of a resident
  block: the classic GreedyDual invariant.
\<close>

definition pure_gdsf :: "GDSFPolicy \<Rightarrow> bool" where
  "pure_gdsf p \<longleftrightarrow> \<not> g_elastic p \<and> g_quotas p = []"

definition floor_below :: "GDSFPolicy \<Rightarrow> bool" where
  "floor_below p \<longleftrightarrow> (\<forall>it \<in> ran (item_view p). g_inflation p \<le> it_priority it)"

lemma gdsf_config_const:
  "g_quotas (policy_step GDSF c p) = g_quotas p \<and> g_elastic (policy_step GDSF c p) = g_elastic p"
proof -
  have r: "g_quotas (gdsf_removeItem r q) = g_quotas q \<and> g_elastic (gdsf_removeItem r q) = g_elastic q" for r q
    by (simp add: gdsf_removeItem_def Let_def)
  have i: "g_quotas (gdsf_insert m q) = g_quotas q \<and> g_elastic (gdsf_insert m q) = g_elastic q" for m q
    by (simp add: gdsf_insert_def tenantFor_def Let_def split: option.splits prod.splits)
  have v: "g_quotas (fst (chosen b p)) = g_quotas p \<and> g_elastic (fst (chosen b p)) = g_elastic p" for b
    by (simp add: chosen_def Let_def split: option.splits)
  show ?thesis
    using r i v
    by (cases c) (simp_all add: GDSF_def gdsf_RecordAccess_def gdsf_RecordWrite_def gdsf_RecordEvict_def
      gdsf_overwrite_def Let_def gdsf_Victim_def victimElastic_def victimStatic_def split: option.splits)
qed

lemma gdsf_H_floor:
  assumes "prio_ok L" and "cost_ok cost"
  shows "L \<le> gdsf_H L freq cost sz"
  using priorityOf_ok(2) [of "(newGDSF [] False 0)\<lparr>g_inflation := L\<rparr>" cost freq sz] assms
  by (simp add: priorityOf_H)

lemma pure_not_over: "pure_gdsf p \<Longrightarrow> \<not> over_quota p t"
  by (simp add: pure_gdsf_def over_quota_def quotaOf_def slt64_def)

lemma static_min_pure:
  assumes inv: "gdsf_inv p" and pure: "pure_gdsf p" and r: "(k, r) \<in> set (g_items p)"
    and v: "gdsf_Victim p = chosen (Some r) p" and it: "it \<in> ran (item_view p)"
  shows "it_priority (g_mem p r) \<le> it_priority it"
proof -
  obtain k' r' where r': "(k', r') \<in> set (g_items p)" "it = (g_mem p r')\<lparr>it_index := 0\<rparr>"
    using it item_view_Some [OF inv] by (auto simp: ran_def)
  have "victimStatic p = chosen (Some r) p" using v pure by (simp add: gdsf_Victim_def pure_gdsf_def)
  then obtain k1 r1 where r1: "(k1, r1) \<in> set (g_items p)" "chosen (Some r) p = chosen (Some r1) p"
    "it_priority (g_mem p r1) \<le> it_priority (g_mem p r')"
    using victimStatic_spec [OF inv] r'(1) pure_not_over [OF pure] by (auto simp: chosen_Some)
  have "k1 = k" using r1(2) chosen_key [OF inv r] chosen_key [OF inv r1(1)] by simp
  then have "r1 = r" using gm_unique [OF gdsf_invD(1) [OF inv] r] r1(1) by simp
  then show ?thesis using r1(3) r'(2) by simp
qed

lemma floor_below_step:
  assumes inv: "gdsf_inv p" and ok: "call_ok (\<lambda>m. cost_ok (wm_Cost m)) c" and pure: "pure_gdsf p"
    and below: "floor_below p"
  shows "floor_below (policy_step GDSF c p)"
proof (cases "c = Pick")
  case True
  show ?thesis
  proof (rule gdsf_Victim_cases [OF inv])
    assume "gdsf_Victim p = (p, None)"
    then show ?thesis using True below by (simp add: GDSF_def)
  next
    fix k r assume r: "(k, r) \<in> set (g_items p)" "gdsf_Victim p = chosen (Some r) p"
    then have "it_priority (g_mem p r) \<le> it_priority it" "g_inflation p \<le> it_priority it"
      if "it \<in> ran (item_view p)" for it
      using static_min_pure [OF inv pure r that] below that by (auto simp: floor_below_def)
    then show ?thesis
      using True r(2) gdsf_Victim_view [of p] by (auto simp: floor_below_def GDSF_def chosen_Some)
  qed
next
  case False
  note L = gdsf_step_inflation(1) [OF inv ok False]
  have "g_inflation p \<le> gdsf_H (g_inflation p) f cost sz" if "cost_ok cost" for f cost sz
    using gdsf_H_floor [OF gdsf_invD(3) [OF inv] that] .
  moreover have "cost_ok (it_cost it)" if "item_view p k = Some it" for k it
    using that gdsf_invD(4) [OF inv, of k] by (auto simp: item_view_Some [OF inv] item_ok_def)
  ultimately have "\<forall>it \<in> ran (spec_step (g_inflation p) c (item_view p)). g_inflation p \<le> it_priority it"
    using below ok False
    by (cases c) (auto simp: floor_below_def ran_def Let_def split: option.splits if_splits)
  then show ?thesis by (simp add: floor_below_def item_view_step [OF inv ok] L)
qed

text \<open>
  In a policy without quotas the aging floor never passes the value of a resident block,
  after any history, so the victim's value becomes the new floor and the floor only rises.
\<close>

lemma gdsf_pure_floor_below:
  assumes "list_all (call_ok (\<lambda>m. cost_ok (wm_Cost m))) calls"
  shows "floor_below (policy_run GDSF calls (NewGDSF []))"
proof -
  have "gdsf_inv (policy_run GDSF calls (NewGDSF [])) \<and> pure_gdsf (policy_run GDSF calls (NewGDSF [])) \<and>
      floor_below (policy_run GDSF calls (NewGDSF []))"
    using assms
  proof (induction calls rule: rev_induct)
    case Nil
    have "pure_gdsf (NewGDSF []) \<and> floor_below (NewGDSF [])"
      by (simp add: NewGDSF_def newGDSF_def pure_gdsf_def floor_below_def item_view_def ran_def)
    then show ?case using gdsf_inv_newGDSF by (simp add: NewGDSF_def)
  next
    case (snoc c calls)
    then show ?case
      using floor_below_step gdsf.step_invar gdsf_config_const by (simp add: pure_gdsf_def)
  qed
  then show ?thesis by simp
qed

text \<open>
  The aging floor never decreases: no call on a policy in a reachable state lowers it.
\<close>

lemma gdsf_floor_monotone:
  assumes "list_all (call_ok (\<lambda>m. cost_ok (wm_Cost m))) (calls @ [c])"
  shows "g_inflation (policy_run GDSF calls (newGDSF quotas elastic w))
    \<le> g_inflation (policy_run GDSF (calls @ [c]) (newGDSF quotas elastic w))"
  using gdsf_step_inflation(2) [OF gdsf.run_invar [OF gdsf_inv_newGDSF, of calls]] assms by simp

section \<open>Weight 0 is the pure rule\<close>

text \<open>The same policy with every quota removed.\<close>

definition drop_quotas :: "GDSFPolicy \<Rightarrow> GDSFPolicy" where
  "drop_quotas p = p\<lparr>g_tenants := map (\<lambda>(t, ts). (t, ts\<lparr>ts_quota := 0\<rparr>)) (g_tenants p), g_quotas := []\<rparr>"

lemma elastic_score_0:
  assumes "g_fairnessWeight p = 0" and "prio_ok (it_priority (g_mem p r))"
  shows "elastic_score p ts r = it_priority (g_mem p r)"
proof -
  obtain o' where "overage ts = Fin o'" using overage_bounded by blast
  then have "1 + 0 * overage ts = 1"
    by (simp add: times_f64_def plus_f64_def zero_f64_def one_f64_def)
  moreover have "a / 1 = a" if "is_f64 a" "0 \<le> a" for a :: f64
    using that by (cases a) (simp_all add: divide_f64_def one_f64_def is_f64_def inf_signed_def)
  ultimately show ?thesis using assms by (simp add: elastic_score_def prio_ok_def)
qed

lemma zero_weight_fold:
  assumes "\<forall>(ts, r) \<in> set (roots l). elastic_score p ts r = it_priority (g_mem p r)"
    and "\<And>b s. best = Some (b, s) \<Longrightarrow> s = it_priority (g_mem p b)"
    and "g_mem q = g_mem p"
  shows "fold (static_step q) (map (\<lambda>(t, ts). (t, ts\<lparr>ts_quota := 0\<rparr>)) l) (map_option fst best, False) =
    (map_option fst (fold (elastic_step p) l best), False)"
  using assms(1,2)
proof (induction l arbitrary: best)
  case Nil
  then show ?case by simp
next
  case (Cons x l)
  obtain t ts where x: "x = (t, ts)" by fastforce
  have "static_step q (t, ts\<lparr>ts_quota := 0\<rparr>) (map_option fst best, False) = (map_option fst (elastic_step p x best), False)"
    using Cons.prems
    by (cases best) (auto simp: static_step_def elastic_step_def tenantOver_def slt64_def Let_def x roots_def assms(3))
  moreover have "\<And>b s. elastic_step p x best = Some (b, s) \<Longrightarrow> s = it_priority (g_mem p b)"
    using Cons.prems by (auto simp: elastic_step_def Let_def x roots_def split: if_splits option.splits)
  moreover have "\<forall>(ts, r) \<in> set (roots l). elastic_score p ts r = it_priority (g_mem p r)"
    using Cons.prems(1) by (auto simp: roots_def)
  ultimately show ?case using Cons.IH by (simp add: x)
qed

text \<open>
  With fairness weight 0 the elastic rule chooses the victim the static rule chooses once
  every quota is removed, and moves the floor to the same value.
\<close>

lemma gdsf_zero_weight_pure:
  assumes inv: "gdsf_inv p" and "g_fairnessWeight p = 0"
  shows "snd (victimElastic p) = snd (victimStatic (drop_quotas p)) \<and>
    g_inflation (fst (victimElastic p)) = g_inflation (fst (victimStatic (drop_quotas p)))"
proof -
  have "\<forall>(ts, r) \<in> set (roots (g_tenants p)). elastic_score p ts r = it_priority (g_mem p r)"
    using roots_prio [OF inv] elastic_score_0 [OF assms(2)] by auto
  then have "fst (fold (static_step (drop_quotas p)) (g_tenants (drop_quotas p)) (None, False)) =
      map_option fst (fold (elastic_step p) (g_tenants p) None)"
    using zero_weight_fold [of "g_tenants p" p None "drop_quotas p"] by (simp add: drop_quotas_def)
  then show ?thesis
    by (simp add: victimElastic_def victimStatic_def chosen_def Let_def drop_quotas_def split: option.splits)
qed

section \<open>Concrete runs\<close>

text \<open>
  Tenant \<^verbatim>\<open>a\<close> has a quota of one byte and holds a block of two bytes and value 10; tenant \<^verbatim>\<open>b\<close>, without a
  quota, holds a block of value 1.
\<close>

definition ex_write :: "byte \<Rightarrow> string \<Rightarrow> int64 \<Rightarrow> rat \<Rightarrow> policy_call" where
  "ex_write b t sz c = Write \<lparr>wm_Key = [b], wm_TenantID = t, wm_Size = sz, wm_Cost = Fin c\<rparr>"

definition ex_calls :: "policy_call list" where
  "ex_calls = [ex_write 1 ''a'' 2 20, ex_write 2 ''b'' 1 1]"

definition ex_state :: "bool \<Rightarrow> f64 \<Rightarrow> GDSFPolicy" where
  "ex_state e w = policy_run GDSF ex_calls (newGDSF [(''a'', 1)] e w)"

lemma ex_calls_ok: "list_all (call_ok (\<lambda>m. cost_ok (wm_Cost m))) ex_calls"
  by (simp add: ex_calls_def ex_write_def cost_ok_def)

lemma ex_state_inv: "gdsf_inv (ex_state e w)"
  unfolding ex_state_def by (rule gdsf.run_invar [OF gdsf_inv_newGDSF ex_calls_ok])

lemmas f64_eval = f64_of_int_def f64_le_iff f64_less_iff times_f64_def plus_f64_def minus_f64_def divide_f64_def
  one_f64_def zero_f64_def

lemma ex_state_eval: "ex_state e w =
  \<lparr>g_mem = (\<lambda>_. \<lparr>it_key = [], it_tenant = [], it_size = 0, it_cost = 0, it_freq = 0, it_priority = 0, it_index = 0\<rparr>)
     (0 := \<lparr>it_key = [1], it_tenant = ''a'', it_size = 2, it_cost = Fin 20, it_freq = 1, it_priority = Fin 10, it_index = 0\<rparr>,
      Suc 0 := \<lparr>it_key = [2], it_tenant = ''b'', it_size = 1, it_cost = Fin 1, it_freq = 1, it_priority = Fin 1, it_index = 0\<rparr>),
   g_next = 2, g_items = [([1], 0), ([2], Suc 0)],
   g_tenants = [(''a'', \<lparr>ts_bytes = 2, ts_quota = 1, ts_h = [0]\<rparr>), (''b'', \<lparr>ts_bytes = 1, ts_quota = 0, ts_h = [Suc 0]\<rparr>)],
   g_quotas = [(''a'', 1)], g_inflation = 0, g_elastic = e, g_fairnessWeight = w\<rparr>"
  by (simp add: ex_state_def ex_calls_def ex_write_def GDSF_def newGDSF_def policy_run_def gdsf_RecordWrite_def
      gdsf_insert_def tenantFor_def Let_def priorityOf_def put_heap_def heap_Push_def gdsfHeap_def gdsfHeap_Push_def
      sle64_def f64_eval heap_up.simps)

lemmas victim_eval = gdsf_Victim_def victimStatic_def victimElastic_def static_step_def elastic_step_def
  elastic_score_def chosen_def Let_def tenantOver_def slt64_def sle64_def

lemma ex_static_victim: "snd (gdsf_Victim (ex_state False 0)) = Some [1]"
  by (simp add: ex_state_eval victim_eval f64_eval)

lemma ex_elastic_score: "Fin 1 / (1 + 1 * maxOverage) < Fin 5"
proof -
  have "Fin 1 / (1 + 1 * maxOverage) = rnd (1 / 1000000001)"
    by (simp add: maxOverage_def f64_of_int_def times_f64_def plus_f64_def divide_f64_def one_f64_def)
  moreover have "rnd (1 / 1000000001) \<le> rnd 1" by (rule rnd_mono) simp
  moreover have "rnd 1 < Fin 5" by (simp add: f64_less_iff)
  ultimately show ?thesis by (cases "rnd (1 / 1000000001)") (auto simp: f64_le_iff f64_less_iff)
qed

lemma ex_elastic_victim: "snd (gdsf_Victim (ex_state True 1)) = Some [2]"
proof -
  have "Fin 10 / (1 + 1 * overage \<lparr>ts_bytes = 2, ts_quota = 1, ts_h = [0]\<rparr>) = Fin 5"
    by (simp add: overage_def Let_def sle64_def f64_eval)
  moreover have "overage \<lparr>ts_bytes = 1, ts_quota = 0, ts_h = [Suc 0]\<rparr> = maxOverage"
    by (simp add: overage_def sle64_def slt64_def)
  ultimately show ?thesis
    using ex_elastic_score by (simp add: ex_state_eval gdsf_Victim_def victimElastic_def elastic_step_def
      elastic_score_def chosen_def Let_def)
qed

lemma ex_state_view:
  "item_view (ex_state e w) [1] = Some \<lparr>it_key = [1], it_tenant = ''a'', it_size = 2,
     it_cost = Fin 20, it_freq = 1, it_priority = Fin 10, it_index = 0\<rparr>"
  "item_view (ex_state e w) [2] = Some \<lparr>it_key = [2], it_tenant = ''b'', it_size = 1,
     it_cost = Fin 1, it_freq = 1, it_priority = Fin 1, it_index = 0\<rparr>"
  "g_inflation (ex_state e w) = Fin 0"
  by (simp_all add: item_view_def ex_state_eval zero_f64_def)

theorem gdsf_refines_spec_witness:
  "map_option it_priority (item_view (policy_step GDSF (Access [1]) (ex_state False 0)) [1]) = Some (Fin 20)"
  using gdsf_refines_spec [OF ex_state_inv, of "Access [1]" False 0]
  by (simp add: ex_state_view gdsf_H_def f64_eval)

theorem gdsf_static_victim_witness:
  "gdsf_Victim (ex_state False 0) = ((ex_state False 0)\<lparr>g_inflation := Fin 10\<rparr>, Some [1])"
proof -
  have "\<not> g_elastic (ex_state False 0)" by (simp add: ex_state_eval)
  moreover have v: "gdsf_Victim (ex_state False 0) = (fst (gdsf_Victim (ex_state False 0)), Some [1])"
    using ex_static_victim by (simp add: prod_eq_iff)
  ultimately have "fst (gdsf_Victim (ex_state False 0)) = (ex_state False 0)\<lparr>g_inflation := Fin 10\<rparr>"
    using gdsf_static_victim [OF ex_state_inv, of False 0 "fst (gdsf_Victim (ex_state False 0))" "[1]"]
    by (simp add: ex_state_view f64_less_iff)
  then show ?thesis using v by simp
qed

theorem gdsf_elastic_victim_witness:
  "gdsf_Victim (ex_state True 1) = ((ex_state True 1)\<lparr>g_inflation := Fin 1\<rparr>, Some [2])"
proof -
  have "g_elastic (ex_state True 1)" "0 \<le> g_fairnessWeight (ex_state True 1)" "g_fairnessWeight (ex_state True 1) \<le> 1"
    by (simp_all add: ex_state_eval f64_eval)
  moreover have v: "gdsf_Victim (ex_state True 1) = (fst (gdsf_Victim (ex_state True 1)), Some [2])"
    using ex_elastic_victim by (simp add: prod_eq_iff)
  ultimately have "fst (gdsf_Victim (ex_state True 1)) = (ex_state True 1)\<lparr>g_inflation := Fin 1\<rparr>"
    using gdsf_elastic_victim [OF ex_state_inv, of True 1 "fst (gdsf_Victim (ex_state True 1))" "[2]"]
    by (simp add: ex_state_view f64_less_iff)
  then show ?thesis using v by simp
qed

theorem gdsf_history_invariant_witness: "gdsf_inv (policy_run GDSF ex_calls (newGDSF [(''a'', 1)] True 1))"
  by (rule gdsf_history_invariant [OF ex_calls_ok])

end
