(* ===== verification/Evictor.thy ===== *)
theory Evictor
  imports Store_Correct Policy_LRU GDSF_Correct
begin

text \<open>
  \<^verbatim>\<open>internal/cache/evictor.go\<close>: the background loop. One iteration of \<^verbatim>\<open>Run\<close> is \<open>ev_tick\<close> on the event its
  \<^verbatim>\<open>select\<close> picked; the drain loop may run forever in general and is a partial function, shown to return
  under the contract of a tracking policy. The second part gives the shard as a concurrent system: client
  calls interleave with the evictor between its two phases (choosing keys, evicting them), and the
  invariants hold in every reachable state.
\<close>

section \<open>The loop\<close>

record ('p, 'x) Evictor =
  ev_store :: "('p, 'x) Store"
  ev_ttl :: duration
  ev_sweepEvery :: duration
  ev_reports :: "(string \<times> nat) list"

definition NewEvictor :: "('p, 'x) Store \<Rightarrow> duration \<Rightarrow> duration \<Rightarrow> ('p, 'x) Evictor" where
  "NewEvictor store ttl sweepEvery =
     \<lparr>ev_store = store, ev_ttl = ttl, ev_sweepEvery = sweepEvery, ev_reports = []\<rparr>"

text \<open>The metrics hook is the list of the reports made to it.\<close>

definition ev_report :: "string \<Rightarrow> nat \<Rightarrow> ('p, 'x) Evictor \<Rightarrow> ('p, 'x) Evictor" where
  "ev_report reason n e = (if 0 < n then e\<lparr>ev_reports := ev_reports e @ [(reason, n)]\<rparr> else e)"

definition sweepInterval :: "('p, 'x) Evictor \<Rightarrow> duration" where
  "sweepInterval e = (if ev_ttl e \<le> 0 \<or> ev_sweepEvery e \<le> 0 then 3600 * 10 ^ 9 else ev_sweepEvery e)"

text \<open>
  The loop left alone: no client call between its iterations, where the code holds no lock. What interleaving keeps is
  shown below on the shard as a concurrent system; there a victim may also be gone by the time it is evicted, which
  the code counts all the same.
\<close>

partial_function (option) drain ::
  "'p EvictionPolicy \<Rightarrow> nat \<Rightarrow> ('p, 'x) Store \<Rightarrow> (nat \<times> ('p, 'x) Store) option" where
  "drain P n s =
     (if needsEviction P s then
        (case evictOne P s of
           ((freed, ok), s') \<Rightarrow> if ok then drain P (n + 1) s' else Some (n, s'))
      else Some (n, s))"

datatype ev_event = Done | EvictSignal | Tick time

text \<open>
  One iteration: \<^term>\<open>None\<close> when the loop returned because the context is done. Receiving from the signal
  channel empties it.
\<close>

definition ev_tick :: "'p EvictionPolicy \<Rightarrow> ev_event \<Rightarrow> ('p, 'x) Evictor \<Rightarrow> ('p, 'x) Evictor option option" where
  "ev_tick P ev e =
     (case ev of
        Done \<Rightarrow> Some None
      | EvictSignal \<Rightarrow>
          (case drain P 0 ((ev_store e)\<lparr>s_evictSig := False\<rparr>) of
             None \<Rightarrow> None
           | Some (n, s') \<Rightarrow> Some (Some (ev_report ''pressure'' n (e\<lparr>ev_store := s'\<rparr>))))
      | Tick now \<Rightarrow>
          (let (n, s') = sweepIdle P now (ev_ttl e) (ev_store e)
           in Some (Some (ev_report ''ttl'' n (e\<lparr>ev_store := s'\<rparr>)))))"

section \<open>The drain loop returns\<close>

lemma contents_finite:
  assumes "stripes_ok s"
  shows "finite (dom (contents s))"
proof -
  have "dom (contents s) \<subseteq> (\<Union>st \<in> set (s_stripes s). gm_keys st)"
  proof
    fix k assume "k \<in> dom (contents s)"
    then have "k \<in> gm_keys (stripeFor s k)" by (auto simp: contents_def dom_map_of_conv_image_fst [symmetric])
    moreover have "stripeFor s k \<in> set (s_stripes s)"
      using stripeIdx_less [OF stripes_okD(1) [OF assms], of k] stripes_okD(1) [OF assms] by (simp add: stripeFor_def)
    ultimately show "k \<in> (\<Union>st \<in> set (s_stripes s). gm_keys st)" by blast
  qed
  then show ?thesis by (rule finite_subset) simp
qed

lemma empty_resident:
  assumes "store_wf s" and "contents s = Map.empty"
  shows "s_totalBytes s = 0"
proof -
  have "stripe_bytes st = 0" if "st \<in> set (s_stripes s)" for st
    using stripe_entry_contents [OF store_wfD(1) [OF assms(1)] that] assms(2)
    by (cases st) (force simp: stripe_bytes_def)+
  then have "(\<Sum>st\<leftarrow>l. stripe_bytes st) = 0" if "set l \<subseteq> set (s_stripes s)" for l
    using that by (induction l) auto
  then show ?thesis using store_wfD(2) [OF assms(1)] by (simp add: resident_bytes_def)
qed

definition evict_step :: "'p EvictionPolicy \<Rightarrow> ('p, 'x) Store \<Rightarrow> ('p, 'x) Store \<Rightarrow> bool" where
  "evict_step P s s' \<longleftrightarrow> (\<exists>freed. evictOne P s = ((freed, True), s'))"

context eviction_policy
begin

lemma evictOne_cases:
  assumes inv: "shard_inv tracked invar s"
  obtains s' where "evictOne P s = ((0, False), s')" "contents s = Map.empty"
  | k e s' where "evictOne P s = ((e_SizeBytes e, True), s')" "contents s k = Some e"
      "contents s' = (contents s)(k := None)" "shard_inv tracked invar s'"
      "s_maxBytes s' = s_maxBytes s" "s_loWater s' = s_loWater s" "s_spill s' = s_spill s"
      "s_sink s' = (case s_spill s of None \<Rightarrow> s_sink s
         | Some spill \<Rightarrow> spill (e_ModelID e) (e_WireHash e) (e_Version e) (e_TokenIDs e) (e_KV e) (s_sink s))"
proof (cases rule: victim_cases [OF shard_invD(2) [OF inv]])
  case (1 p')
  then show thesis using that(1) shard_invD(3) [OF inv] by (simp add: evictOne_def)
next
  case (2 p' k)
  let ?s = "s\<lparr>s_policy := p'\<rparr>"
  have i: "shard_inv tracked invar ?s" by (rule Victim_shard_inv [OF inv 2(1)])
  obtain e where e: "contents s k = Some e" using 2(2) shard_invD(3) [OF inv] by auto
  note ev = evict_effect [OF shard_invD(1) [OF i], of P k]
  show thesis
    by (rule that(2) [of e "snd (evict P k ?s)" k])
      (use 2(1) e ev evict_shard_inv [OF i, of k] in \<open>simp_all add: evictOne_def case_prod_unfold Let_def prod_eq_iff split: option.split\<close>)
qed

lemma drain_returns:
  assumes "shard_inv tracked invar s" and "0 \<le> sint (s_loWater s)"
  shows "\<exists>m s'. drain P n s = Some (n + m, s') \<and> shard_inv tracked invar s' \<and> \<not> needsEviction P s' \<and>
    contents s' \<subseteq>\<^sub>m contents s \<and>
    m + card (dom (contents s')) = card (dom (contents s)) \<and>
    s_maxBytes s' = s_maxBytes s \<and> s_loWater s' = s_loWater s \<and> (evict_step P)\<^sup>*\<^sup>* s s'"
  using assms
proof (induction "card (dom (contents s))" arbitrary: n s rule: less_induct)
  case less
  show ?case
  proof (cases "needsEviction P s")
    case False
    then show ?thesis using less.prems by (subst drain.simps) auto
  next
    case True
    show ?thesis
    proof (cases rule: evictOne_cases [OF less.prems(1)])
      case (1 s')
      then have "s_totalBytes s = 0" "\<not> policyOverQuota P (s_policy s)"
        using empty_resident shard_invD [OF less.prems(1)] quota_law by auto
      then have False using True less.prems(2) by (simp add: needsEviction_def slt64_def split: if_splits)
      then show ?thesis ..
    next
      case (2 k e s')
      have fin: "finite (dom (contents s))"
        by (rule contents_finite [OF store_wfD(1) [OF shard_invD(1) [OF less.prems(1)]]])
      have dom': "dom (contents s') = dom (contents s) - {k}" using 2(3) by auto
      then have c: "Suc (card (dom (contents s'))) = card (dom (contents s))"
        using fin 2(2) by (metis card_Suc_Diff1 domI)
      obtain m s'' where m: "drain P (n + 1) s' = Some (n + 1 + m, s'')" "shard_inv tracked invar s''" "\<not> needsEviction P s''"
        "contents s'' \<subseteq>\<^sub>m contents s'" "m + card (dom (contents s'')) = card (dom (contents s'))"
        "s_maxBytes s'' = s_maxBytes s'" "s_loWater s'' = s_loWater s'"
        "(evict_step P)\<^sup>*\<^sup>* s' s''"
        using less.hyps [of s' "n + 1"] c 2(4,6) less.prems(2) by auto
      have "drain P n s = Some (n + Suc m, s'')" using True 2(1) m(1) by (subst drain.simps) simp
      moreover have "contents s' \<subseteq>\<^sub>m contents s" using 2(3) by (simp add: map_le_def)
      then have "contents s'' \<subseteq>\<^sub>m contents s" using m(4) map_le_trans by blast
      moreover have "(evict_step P)\<^sup>*\<^sup>* s s''"
        using 2(1) m(8) by (auto simp: evict_step_def intro: converse_rtranclp_into_rtranclp)
      ultimately show ?thesis using m(2-7) 2(5,6) c by (intro exI [of _ "Suc m"] exI [of _ s'']) simp
    qed
  qed
qed

end

section \<open>Spilling\<close>

text \<open>A spill hook that records what it is given.\<close>

type_synonym spilled = "(string \<times> BlockHash \<times> uint64 \<times> int32 list \<times> bytes) list"

definition spill_log :: "spilled SpillFunc" where
  "spill_log model h version toks kv l = l @ [(model, h, version, toks, kv)]"

definition spill_record :: "Entry \<Rightarrow> string \<times> BlockHash \<times> uint64 \<times> int32 list \<times> bytes" where
  "spill_record e = (e_ModelID e, e_WireHash e, e_Version e, e_TokenIDs e, e_KV e)"

text \<open>
  Property C13: a pressure drain returns. Started on a shard whose policy tracks its keys, it removes
  finitely many entries, at most all of them, ends with the resident size at or below the low-water mark
  and no tenant over its quota, adds nothing, counts the removed entries exactly, and has handed each of
  them to the spill hook before dropping it.
\<close>

theorem drain_returns_relieved:
  fixes s :: "('p, spilled) Store"
  assumes pol: "eviction_policy P tracked invar ok" and inv: "shard_inv tracked invar s"
    and lo: "0 \<le> sint (s_loWater s)" and sp: "s_spill s = Some spill_log"
  shows "\<exists>m s'. drain P 0 s = Some (m, s') \<and> \<not> needsEviction P s' \<and> shard_inv tracked invar s' \<and>
    contents s' \<subseteq>\<^sub>m contents s \<and> m + card (dom (contents s')) = card (dom (contents s)) \<and>
    spill_record ` (ran (contents s |` (- dom (contents s')))) \<subseteq> set (s_sink s')"
proof -
  let ?Q = "\<lambda>t. shard_inv tracked invar t \<and> s_spill t = Some spill_log \<and> contents t \<subseteq>\<^sub>m contents s \<and>
    spill_record ` (ran (contents s |` (- dom (contents t)))) \<subseteq> set (s_sink t)"
  have keep: "?Q t'" if t: "?Q t" and ev: "evictOne P t = ((freed, True), t')" for t freed t'
  proof -
    obtain k e where e: "contents t k = Some e" "contents t' = (contents t)(k := None)"
      "shard_inv tracked invar t'" "s_spill t' = s_spill t" "s_sink t' = s_sink t @ [spill_record e]"
    proof (cases rule: eviction_policy.evictOne_cases [OF pol conjunct1 [OF t]])
      case (1 s'')
      then show thesis using ev by simp
    next
      case (2 k e s'')
      then have "t' = s''" using ev by simp
      then show thesis using that [of k e] 2 t by (simp add: spill_log_def spill_record_def)
    qed
    have "contents s k = Some e" using t e(1) by (auto simp: map_le_def dom_def)
    then have "ran (contents s |` (- dom (contents t'))) = insert e (ran (contents s |` (- dom (contents t))))"
      using e(1) by (auto simp: e(2) ran_def restrict_map_def split: if_splits)
    moreover have "contents t' \<subseteq>\<^sub>m contents t" by (simp add: e(2) map_le_def)
    then have "contents t' \<subseteq>\<^sub>m contents s" using t map_le_trans by blast
    ultimately show ?thesis using t e by auto
  qed
  have Q: "?Q s" using inv sp by (auto simp: ran_def restrict_map_def split: if_splits)
  obtain m s' where m: "drain P 0 s = Some (0 + m, s')" "\<not> needsEviction P s'"
    "m + card (dom (contents s')) = card (dom (contents s))" "(evict_step P)\<^sup>*\<^sup>* s s'"
    using eviction_policy.drain_returns [OF pol inv lo, of 0] by blast
  from m(4) have "?Q s'"
  proof (induction rule: rtranclp_induct)
    case base
    show ?case by (rule Q)
  next
    case (step t t')
    then obtain freed where "evictOne P t = ((freed, True), t')" by (auto simp: evict_step_def)
    then show ?case by (rule keep [OF step.IH])
  qed
  then show ?thesis using m by auto
qed

section \<open>The shard as a concurrent system\<close>

text \<open>
  The state is the store and the keys the evictor has chosen but not yet evicted. Client calls hold one
  stripe lock and are atomic; \<^verbatim>\<open>evictOne\<close> releases the policy lock between \<^verbatim>\<open>Victim\<close> and \<^verbatim>\<open>evict\<close>, and \<^verbatim>\<open>sweepIdle\<close>
  collects stripe by stripe before it evicts, so anything may happen in between.
\<close>

inductive shard_step ::
  "'p EvictionPolicy \<Rightarrow> (WriteMeta \<Rightarrow> bool) \<Rightarrow> ('p, 'x) Store \<times> BlockHash list \<Rightarrow> ('p, 'x) Store \<times> BlockHash list \<Rightarrow> bool"
  for P ok where
  get: "shard_step P ok (s, q) (snd (Get P now model h s), q)"
| put: "entry_ok ok e \<Longrightarrow> shard_step P ok (s, q) (snd (Put P now h (Some e) s), q)"
| replicate: "entry_ok ok e \<Longrightarrow> shard_step P ok (s, q) (snd (PutWithVersion P now h (Some e) v s), q)"
| delete: "shard_step P ok (s, q) (snd (Delete P model h s), q)"
| receive: "shard_step P ok (s, q) (s\<lparr>s_evictSig := False\<rparr>, q)"
| pick: "Victim P (s_policy s) = (p, v) \<Longrightarrow>
    shard_step P ok (s, []) (s\<lparr>s_policy := p\<rparr>, (case v of None \<Rightarrow> [] | Some k \<Rightarrow> [k]))"
| collect: "st \<in> set (s_stripes s) \<Longrightarrow>
    shard_step P ok (s, q) (s, q @ map fst (filter (\<lambda>(h, e). idleSince e < cutoff) st))"
| evict_next: "shard_step P ok (s, k # q) (snd (evict P k s), q)"

inductive_cases shard_stepE: "shard_step P ok (s, q) (s', q')"

lemma shard_inv_cong:
  assumes "s_stripes s' = s_stripes s" and "s_policy s' = s_policy s" and "s_totalBytes s' = s_totalBytes s"
  shows "shard_inv tracked invar s' \<longleftrightarrow> shard_inv tracked invar s"
  using stripe_cong [OF assms(1)] assms(2,3) by (simp add: shard_inv_def store_wf_def)

context eviction_policy
begin

lemma shard_step_inv:
  assumes "shard_step P ok (s, q) (s', q')" and "shard_inv tracked invar s"
  shows "shard_inv tracked invar s'"
  using assms
  by (elim shard_stepE) (auto intro: Get_shard_inv Put_shard_inv PutWithVersion_shard_inv Delete_shard_inv
    evict_shard_inv Victim_shard_inv simp: shard_inv_cong [of "s\<lparr>s_evictSig := False\<rparr>" s])

lemma shard_reachable_inv:
  assumes "(shard_step P ok)\<^sup>*\<^sup>* (s, q) (s', q')" and "shard_inv tracked invar s"
  shows "shard_inv tracked invar s'"
  using assms(1)
proof (induction rule: rtranclp_induct2)
  case refl
  then show ?case by (rule assms(2))
next
  case (step s1 q1 s2 q2)
  then show ?case using shard_step_inv by blast
qed

lemma sweepIdle_shard_inv:
  fixes s :: "('p, 'x) Store"
  assumes "shard_inv tracked invar s"
  shows "shard_inv tracked invar (snd (sweepIdle P now ttl s))"
proof -
  have "shard_inv tracked invar (snd (fold (sweepStep P) vs (n, t)))" if "shard_inv tracked invar t"
    for vs n and t :: "('p, 'x) Store"
    using that
  proof (induction vs arbitrary: n t)
    case (Cons k vs)
    then show ?case
      using Cons.IH [OF evict_shard_inv [OF Cons.prems, of k]]
      by (simp add: sweepStep_def case_prod_unfold Let_def)
  qed simp
  then show ?thesis using assms by (simp add: sweepIdle_def)
qed

end

text \<open>Options a server builds a store with.\<close>

definition store_option :: "('p, 'x) StoreOption \<Rightarrow> bool" where
  "store_option opt \<longleftrightarrow> (\<exists>n. opt = WithMaxBytes n) \<or> (\<exists>hi lo. opt = WithWatermarks hi lo) \<or> (\<exists>f. opt = WithSpiller f)"

lemma NewStore_shard_inv:
  assumes "\<forall>opt \<in> set opts. store_option opt" and "invar p" and "tracked p = {}"
  shows "shard_inv tracked invar (NewStore p x opts)"
proof -
  have opt: "s_stripes (opt s) = s_stripes s \<and> s_totalBytes (opt s) = s_totalBytes s \<and> s_policy (opt s) = s_policy s"
    if "opt \<in> set opts" for opt s
    using assms(1) that by (auto simp: store_option_def WithMaxBytes_def WithWatermarks_def WithSpiller_def)
  then have "s_policy (fold (\<lambda>opt s. opt s) opts s) = s_policy s" for s
    by (induction opts arbitrary: s) auto
  then have "s_policy (NewStore p x opts) = p" by (simp add: NewStore_def Let_def)
  moreover have "store_wf (NewStore p x opts)" "contents (NewStore p x opts) = Map.empty"
    using empty_store_wf [OF NewStore_stripes [of opts]] opt by simp_all
  ultimately show ?thesis using assms(2,3) by (simp add: shard_inv_def)
qed

text \<open>
  Property C12: in every state a shard can reach from its construction, with client calls interleaving
  freely with the phases of the evictor, the byte counter is the sum of the entry sizes, every entry sits
  in its stripe under the key of its model and hash, and the policy tracks exactly the stored keys.
\<close>

theorem shard_reachable_invariant:
  assumes "eviction_policy P tracked invar ok" and "invar p" and "tracked p = {}"
    and "\<forall>opt \<in> set opts. store_option opt"
    and "(shard_step P ok)\<^sup>*\<^sup>* (NewStore p x opts, []) (s, q)"
  shows "store_wf s \<and> invar (s_policy s) \<and> tracked (s_policy s) = dom (contents s)"
  using eviction_policy.shard_reachable_inv [OF assms(1,5) NewStore_shard_inv [where tracked = tracked and invar = invar, OF assms(4,2,3)]]
  by (simp add: shard_inv_def)

text \<open>
  Each iteration of the evictor's loop finishes and keeps the shard consistent, whatever
  event woke it.
\<close>

lemma ev_tick_returns:
  assumes pol: "eviction_policy P tracked invar ok" and inv: "shard_inv tracked invar (ev_store e)"
    and lo: "0 \<le> sint (s_loWater (ev_store e))"
  shows "\<exists>r. ev_tick P ev e = Some r \<and> (\<forall>e' \<in> set_option r. shard_inv tracked invar (ev_store e'))"
proof (cases ev)
  case Done
  then show ?thesis by (simp add: ev_tick_def)
next
  case EvictSignal
  let ?s = "(ev_store e)\<lparr>s_evictSig := False\<rparr>"
  have "shard_inv tracked invar ?s" using inv shard_inv_cong [of ?s "ev_store e"] by simp
  then obtain m s' where "drain P 0 ?s = Some (0 + m, s')" "shard_inv tracked invar s'"
    using eviction_policy.drain_returns [OF pol, of ?s 0] lo by auto
  then show ?thesis using EvictSignal by (simp add: ev_tick_def ev_report_def)
next
  case (Tick now)
  then show ?thesis
    using eviction_policy.sweepIdle_shard_inv [OF pol inv, of now "ev_ttl e"]
    by (simp add: ev_tick_def ev_report_def case_prod_unfold Let_def)
qed

section \<open>A shard with the LRU policy\<close>

definition lru_shard :: "(LRUPolicy, spilled) Store" where
  "lru_shard = snd (Put LRU 5 ex_hash (Some ex_entry) (NewStore NewLRU [] [WithMaxBytes 2, WithSpiller spill_log]))"

lemma lru_shard_options: "\<forall>opt \<in> set [WithMaxBytes 2, WithSpiller spill_log]. store_option opt"
  unfolding store_option_def by auto

lemma lru_policy_start: "lru_inv NewLRU" "set (recency NewLRU) = {}"
  by (rule lru_inv_NewLRU) (simp add: NewLRU_def recency_def)

lemma lru_shard_inv: "shard_inv (\<lambda>p. set (recency p)) lru_inv lru_shard"
  unfolding lru_shard_def
  by (rule eviction_policy.Put_shard_inv [OF lru.eviction_policy_axioms NewStore_shard_inv [OF lru_shard_options]])
    (simp_all add: lru_policy_start entry_ok_def)

lemma lru_shard_config: "s_maxBytes lru_shard = 2" "s_spill lru_shard = Some spill_log" "0 \<le> sint (s_loWater lru_shard)"
proof -
  let ?s = "NewStore NewLRU [] [WithMaxBytes 2, WithSpiller spill_log] :: (LRUPolicy, spilled) Store"
  have cfg: "s_maxBytes ?s = 2" "s_spill ?s = Some spill_log"
    by (simp_all add: NewStore_def Let_def WithMaxBytes_def WithSpiller_def)
  have "0 \<le> sint (s_loWater ?s)"
    using NewStore_levels [where p = NewLRU and x = "[]" and opts = "[WithMaxBytes 2, WithSpiller spill_log]"] cfg(1)
    by (simp add: Let_def)
  then show "s_maxBytes lru_shard = 2" "s_spill lru_shard = Some spill_log" "0 \<le> sint (s_loWater lru_shard)"
    using cfg by (simp_all add: lru_shard_def Put_effect Let_def publish_def)
qed

theorem drain_returns_relieved_witness:
  "\<exists>m s'. drain LRU 0 lru_shard = Some (m, s') \<and> \<not> needsEviction LRU s' \<and> contents s' \<subseteq>\<^sub>m contents lru_shard"
  using drain_returns_relieved [OF lru.eviction_policy_axioms lru_shard_inv lru_shard_config(3,2)] by blast

theorem shard_reachable_invariant_witness: "store_wf lru_shard"
proof -
  have "shard_step LRU (\<lambda>_. True) (NewStore NewLRU [] [WithMaxBytes 2, WithSpiller spill_log], []) (lru_shard, [])"
    unfolding lru_shard_def by (rule shard_step.put) (simp add: entry_ok_def)
  then show ?thesis
    using shard_reachable_invariant [OF lru.eviction_policy_axioms lru_policy_start lru_shard_options] by blast
qed

end
