(* ===== verification/Server_Correct.thy ===== *)
theory Server_Correct
  imports Server Evictor "HOL-Library.Sublist"
begin

text \<open>
  What the service promises: a fetch streams exactly the stored or spilled block that matches the request, a
  batch answers block by block what single fetches would, a written block is fetched back byte for byte, and
  every call acts on the store only through the shard's operations, so the shard invariant holds for every history
  of calls.
\<close>

section \<open>What a request should be answered\<close>

definition matches :: "FetchBlock \<Rightarrow> uint64 \<Rightarrow> int32 list \<Rightarrow> bool" where
  "matches req ver toks \<longleftrightarrow> (fb_Version req = 0 \<or> fb_Version req = ver) \<and> (fb_TokenIds req = [] \<or> fb_TokenIds req = toks)"

text \<open>The bytes a server should answer with: the resident block, or else the cold one, if it matches.\<close>

definition fetch_value :: "string \<Rightarrow> FetchBlock \<Rightarrow> ('p, 'x, 'q) Server \<Rightarrow> bytes option" where
  "fetch_value model req s =
     (case find_entry model (fb_BlockHash req) (sv_store s) of
        Some e \<Rightarrow> if matches req (e_Version e) (e_TokenIDs e) then Some (e_KV e) else None
      | None \<Rightarrow>
          (case sv_cold s of
             None \<Rightarrow> None
           | Some cold \<Rightarrow>
               (case cold model (fb_BlockHash req) of
                  Inr (Some (kv, ver, toks)) \<Rightarrow> if matches req ver toks then Some kv else None
                | _ \<Rightarrow> None)))"

text \<open>The server with its metrics disconnected.\<close>

definition unmetered :: "('p, 'x, 'q) Server \<Rightarrow> ('p, 'x, 'q) Server" where
  "unmetered s = s\<lparr>sv_metrics := None\<rparr>"

lemma emit_simps [simp]:
  "sv_store (emit ev s) = sv_store s" "sv_cold (emit ev s) = sv_cold s" "sv_repl (emit ev s) = sv_repl s"
  "sv_queue (emit ev s) = sv_queue s" "unmetered (emit ev s) = unmetered s"
  by (simp_all add: emit_def unmetered_def)

lemma unmetered_store [simp]: "sv_store (unmetered s) = sv_store s" "sv_cold (unmetered s) = sv_cold s"
  by (simp_all add: unmetered_def)

lemma Get_fst: "fst (Get P now model h s) = map_option (recordAccess now) (find_entry model h s)"
  by (simp add: Get_effect split: option.split)

lemma coldHit_value:
  assumes "find_entry model (fb_BlockHash req) (sv_store s0) = None" and "sv_cold s0 = sv_cold s"
  shows "fst (coldHit P now model (fb_BlockHash req) (fb_Version req) (fb_TokenIds req) s) = fetch_value model req s0"
  using assms by (auto simp: coldHit_def fetch_value_def matches_def Let_def split: option.splits sum.splits)

lemma batchResolve_value:
  "fst (batchResolve P now model req (fb_BlockHash req) s) = fetch_value model req s"
proof (cases "find_entry model (fb_BlockHash req) (sv_store s)")
  case None
  then have "fst (Get P now model (fb_BlockHash req) (sv_store s)) = None" by (simp add: Get_fst)
  then show ?thesis
    by (auto simp: batchResolve_def Let_def coldHit_value [OF None] split: prod.split)
next
  case (Some e)
  then have "fst (Get P now model (fb_BlockHash req) (sv_store s)) = Some (recordAccess now e)" by (simp add: Get_fst)
  then show ?thesis using Some by (auto simp: batchResolve_def fetch_value_def matches_def Let_def split: prod.split)
qed

definition fetch_frames :: "bytes \<Rightarrow> KVChunk list" where
  "fetch_frames kv = map (\<lambda>(d, l). \<lparr>c_Data = d, c_Last = l\<rparr>) (pieces fetchChunkBytes kv)"

lemma fetch_frames_data [simp]: "concat (map c_Data (fetch_frames kv)) = kv"
  using pieces_data [of fetchChunkBytes kv] by (simp add: fetch_frames_def o_def split_def)

lemma fetch_frames_shape:
  "map c_Last (fetch_frames kv) = replicate (length (fetch_frames kv) - 1) False @ [True]"
  "f \<in> set (fetch_frames kv) \<Longrightarrow> length (c_Data f) \<le> 2 ^ 20"
  using pieces_last [of fetchChunkBytes kv] pieces_size [OF chunk_pos]
  by (auto simp: fetch_frames_def o_def split_def fetchChunkBytes_def)

text \<open>A single fetch and one block of a batch resolve alike; only the metrics differ.\<close>

lemma Fetch_resolve:
  assumes "length (fb_BlockHash req) = 32"
  shows "fst (srv_Fetch P now err model req s) =
      (case fetch_value model req s of
         Some kv \<Rightarrow> (map_option StreamError (fst (streamKV err kv [])), snd (streamKV err kv []))
       | None \<Rightarrow> (fst (fst (srv_Fetch P now err model req s)), [])) \<and>
    (fetch_value model req s = None \<longrightarrow> (\<exists>msg. fst (fst (srv_Fetch P now err model req s)) = Some (NotFound msg))) \<and>
    unmetered (snd (srv_Fetch P now err model req s)) = unmetered (snd (batchResolve P now model req (fb_BlockHash req) s))"
proof -
  let ?h = "fb_BlockHash req"
  obtain got st where g: "Get P now model ?h (sv_store s) = (got, st)" by (cases "Get P now model ?h (sv_store s)")
  let ?s1 = "s\<lparr>sv_store := st\<rparr>"
  obtain c s2 where c: "coldHit P now model ?h (fb_Version req) (fb_TokenIds req) ?s1 = (c, s2)"
    by (cases "coldHit P now model ?h (fb_Version req) (fb_TokenIds req) ?s1")
  have got: "got = map_option (recordAccess now) (find_entry model ?h (sv_store s))"
    using Get_fst [of P now model ?h "sv_store s"] g by simp
  have h: "toBlockHash ?h = Some ?h" using assms by (simp add: toBlockHash_def)
  show ?thesis
  proof (cases "find_entry model ?h (sv_store s)")
    case None
    then have "c = fetch_value model req s" using coldHit_value [OF None, of ?s1 P now] c by simp
    then show ?thesis
      using None got g c h by (auto simp: srv_Fetch_def batchResolve_def Let_def split: option.split prod.split)
  next
    case (Some e)
    then show ?thesis
      using got g h by (auto simp: srv_Fetch_def batchResolve_def fetch_value_def matches_def Let_def split: prod.split)
  qed
qed

section \<open>Streams that break off\<close>

text \<open>Whatever sends fail, what was sent is a prefix of the full answer, and all of it when none failed.\<close>

lemma chunkLoop_prefix:
  assumes "0 < chunk" and "off < length data"
  shows "prefix (snd (chunkLoop chunk mk err data off sent)) (sent @ map (\<lambda>(d, l). mk d l) (pieces chunk (drop off data))) \<and>
    (fst (chunkLoop chunk mk err data off sent) = None \<longleftrightarrow>
      snd (chunkLoop chunk mk err data off sent) = sent @ map (\<lambda>(d, l). mk d l) (pieces chunk (drop off data)))"
  using assms(2)
proof (induction "length data - off" arbitrary: off sent rule: less_induct)
  case less
  show ?case
  proof (cases "off + chunk < length data")
    case True
    let ?f = "mk (take chunk (drop off data)) False"
    have p: "pieces chunk (drop off data) = (take chunk (drop off data), False) # pieces chunk (drop (off + chunk) data)"
      using True assms(1) by (subst pieces.simps) (simp add: add.commute)
    have c: "chunkLoop chunk mk err data off sent =
        (case err (length sent) of Some x \<Rightarrow> (Some x, sent) | None \<Rightarrow> chunkLoop chunk mk err data (off + chunk) (sent @ [?f]))"
      using less.prems assms(1) True by (subst chunkLoop.simps) (simp add: streamSend_def split: option.split)
    show ?thesis
      using less.hyps [of "off + chunk" "sent @ [?f]"] True assms(1) by (auto simp: c p split: option.split)
  next
    case False
    have stop: "chunkLoop chunk mk err data (off + chunk) sent' = (None, sent')" for sent'
      using False by (subst chunkLoop.simps) simp
    have c: "chunkLoop chunk mk err data off sent =
        (case err (length sent) of Some x \<Rightarrow> (Some x, sent) | None \<Rightarrow> (None, sent @ [mk (drop off data) True]))"
      using less.prems assms(1) False by (subst chunkLoop.simps) (simp add: streamSend_def stop split: option.split)
    have "length data - off \<le> chunk" using False by simp
    then have "pieces chunk (drop off data) = [(drop off data, True)]" by (subst pieces.simps) simp
    then show ?thesis by (simp add: c split: option.split)
  qed
qed

lemma streamKV_prefix:
  "prefix (snd (streamKV err kv [])) (fetch_frames kv) \<and>
   (fst (streamKV err kv []) = None \<longleftrightarrow> snd (streamKV err kv []) = fetch_frames kv)"
proof (cases "kv = []")
  case True
  then show ?thesis
    by (simp add: streamKV_def chunkLoop.simps streamSend_def fetch_frames_def split: option.split)
next
  case False
  then show ?thesis
    using chunkLoop_prefix [OF chunk_pos, of 0 kv "\<lambda>d l. \<lparr>c_Data = d, c_Last = l\<rparr>" err "[]"]
    by (auto simp: streamKV_def fetch_frames_def split: prod.split option.split)
qed

section \<open>Properties of reads\<close>

text \<open>
  Property C4: a fetch streams the right bytes or none. The answer is an argument error for a hash that is not
  32 bytes; \<^verbatim>\<open>NotFound\<close> and no frame when neither the resident nor the cold block matches the requested
  version and tokens; otherwise the frames are the block's payload in pieces of at most 1 MiB with exactly the
  last one marked, and if a send fails the frames sent are a proper prefix of these.
\<close>

theorem Fetch_serves_matching:
  "let (e, frames) = fst (srv_Fetch P now err model req s)
   in if length (fb_BlockHash req) \<noteq> 32 then e = Some (InvalidArgument ''block_hash must be 32 bytes'') \<and> frames = []
      else (case fetch_value model req s of
        None \<Rightarrow> (\<exists>msg. e = Some (NotFound msg)) \<and> frames = []
      | Some kv \<Rightarrow> (if e = None
          then concat (map c_Data frames) = kv \<and> map c_Last frames = replicate (length frames - 1) False @ [True] \<and>
            list_all (\<lambda>f. length (c_Data f) \<le> 2 ^ 20) frames
          else (\<exists>rest. rest \<noteq> [] \<and> frames @ rest = fetch_frames kv \<and> concat (map c_Data (frames @ rest)) = kv)))"
proof (cases "length (fb_BlockHash req) = 32")
  case False
  then show ?thesis by (simp add: srv_Fetch_def toBlockHash_def)
next
  case True
  obtain e frames where f: "fst (srv_Fetch P now err model req s) = (e, frames)"
    by (cases "fst (srv_Fetch P now err model req s)")
  note r = Fetch_resolve [OF True, of P now err model s]
  show ?thesis
  proof (cases "fetch_value model req s")
    case None
    then show ?thesis using r f True by simp
  next
    case (Some kv)
    then have ef: "e = map_option StreamError (fst (streamKV err kv []))" "frames = snd (streamKV err kv [])"
      using r f by simp_all
    have full: "frames = fetch_frames kv" if "e = None" using that ef streamKV_prefix [of err kv] by simp
    have part: "\<exists>rest. rest \<noteq> [] \<and> frames @ rest = fetch_frames kv \<and> concat (map c_Data (frames @ rest)) = kv" if "e \<noteq> None"
    proof -
      have "prefix frames (fetch_frames kv)" "frames \<noteq> fetch_frames kv"
        using that streamKV_prefix [of err kv] unfolding ef by simp_all
      then obtain rest where "fetch_frames kv = frames @ rest" "rest \<noteq> []" unfolding prefix_def by fastforce
      then show ?thesis using fetch_frames_data [of kv] by (intro exI [of _ rest]) simp
    qed
    show ?thesis
      using Some f True full part fetch_frames_shape [where kv = kv] fetch_frames_data [of kv]
      by (auto simp: list_all_iff Let_def simp del: map_append)
  qed
qed

text \<open>The single fetches a batch stands for, in order on the evolving server.\<close>

primrec fetchEach ::
  "'p EvictionPolicy \<Rightarrow> time \<Rightarrow> string \<Rightarrow> FetchBlock list \<Rightarrow> ('p, 'x, 'q) Server
     \<Rightarrow> (srv_error option \<times> KVChunk list) list \<times> ('p, 'x, 'q) Server" where
  "fetchEach P now model [] s = ([], s)"
| "fetchEach P now model (fb # fbs) s =
     (let (r, s1) = srv_Fetch P now (\<lambda>_. None) model fb s; (rs, s2) = fetchEach P now model fbs s1 in (r # rs, s2))"

text \<open>The frames of a batch that answer one fetch.\<close>

definition batch_frames :: "nat \<Rightarrow> srv_error option \<times> KVChunk list \<Rightarrow> BatchKVChunk list" where
  "batch_frames i r =
     (case r of
        (None, frames) \<Rightarrow> map (\<lambda>f. \<lparr>bc_Index = word_of_nat i, bc_Data = c_Data f, bc_Found = True, bc_Last = c_Last f\<rparr>) frames
      | (Some _, _) \<Rightarrow> [\<lparr>bc_Index = word_of_nat i, bc_Data = [], bc_Found = False, bc_Last = True\<rparr>])"

text \<open>One block of a batch against one fetch.\<close>

definition batchOne ::
  "'p EvictionPolicy \<Rightarrow> time \<Rightarrow> string \<Rightarrow> FetchBlock \<Rightarrow> ('p, 'x, 'q) Server \<Rightarrow> bytes option \<times> ('p, 'x, 'q) Server" where
  "batchOne P now model fb s =
     (case toBlockHash (fb_BlockHash fb) of None \<Rightarrow> (None, s) | Some h \<Rightarrow> batchResolve P now model fb h s)"

lemma streamKV_clean: "streamKV (\<lambda>_. None) kv [] = (None, fetch_frames kv)"
  by (simp add: streamKV_pieces fetch_frames_def)

lemma batchOne_Fetch:
  "fst (srv_Fetch P now (\<lambda>_. None) model fb s) =
     (case fst (batchOne P now model fb s) of
        Some kv \<Rightarrow> (None, fetch_frames kv)
      | None \<Rightarrow> (fst (fst (srv_Fetch P now (\<lambda>_. None) model fb s)), [])) \<and>
   (fst (batchOne P now model fb s) = None \<longrightarrow> fst (fst (srv_Fetch P now (\<lambda>_. None) model fb s)) \<noteq> None) \<and>
   unmetered (snd (srv_Fetch P now (\<lambda>_. None) model fb s)) = unmetered (snd (batchOne P now model fb s))"
proof (cases "length (fb_BlockHash fb) = 32")
  case True
  then have "batchOne P now model fb s = batchResolve P now model fb (fb_BlockHash fb) s"
    by (simp add: batchOne_def toBlockHash_def)
  then show ?thesis
    using Fetch_resolve [OF True, of P now "\<lambda>_. None" model s] batchResolve_value [of P now model fb s]
    by (auto simp: streamKV_clean split: option.splits)
next
  case False
  then show ?thesis by (simp add: srv_Fetch_def batchOne_def toBlockHash_def)
qed

text \<open>Metrics do not influence the answers.\<close>

lemma unmetered_eq: "unmetered s = unmetered t \<longleftrightarrow> (\<exists>m. t = s\<lparr>sv_metrics := m\<rparr>)"
proof
  assume "unmetered s = unmetered t"
  then have "t = s\<lparr>sv_metrics := sv_metrics t\<rparr>" unfolding unmetered_def by (cases s; cases t) simp
  then show "\<exists>m. t = s\<lparr>sv_metrics := m\<rparr>" by blast
qed (auto simp: unmetered_def)

lemma server_upd_comm: "s\<lparr>sv_metrics := m, sv_store := st\<rparr> = s\<lparr>sv_store := st, sv_metrics := m\<rparr>"
  by simp

lemma coldHit_metrics:
  "fst (coldHit P now model h v toks (s\<lparr>sv_metrics := m\<rparr>)) = fst (coldHit P now model h v toks s) \<and>
   unmetered (snd (coldHit P now model h v toks (s\<lparr>sv_metrics := m\<rparr>))) = unmetered (snd (coldHit P now model h v toks s))"
  by (auto simp: coldHit_def Let_def emit_def unmetered_def split: option.split sum.split)

lemma batchOne_metrics:
  assumes "unmetered s = unmetered t"
  shows "fst (batchOne P now model fb s) = fst (batchOne P now model fb t) \<and>
    unmetered (snd (batchOne P now model fb s)) = unmetered (snd (batchOne P now model fb t))"
proof -
  obtain m where t: "t = s\<lparr>sv_metrics := m\<rparr>" using assms unmetered_eq by blast
  have "fst (batchResolve P now model fb h t) = fst (batchResolve P now model fb h s) \<and>
      unmetered (snd (batchResolve P now model fb h t)) = unmetered (snd (batchResolve P now model fb h s))" for h
    using coldHit_metrics [where P = P and now = now and model = model and h = h and v = "fb_Version fb"
        and toks = "fb_TokenIds fb" and s = "s\<lparr>sv_store := snd (Get P now model h (sv_store s))\<rparr>" and m = m]
    unfolding t by (auto simp: batchResolve_def Let_def unmetered_def server_upd_comm split: option.split prod.split)
  then show ?thesis using assms by (simp add: batchOne_def split: option.split)
qed

lemma Fetch_metrics:
  assumes "unmetered s = unmetered t"
  shows "fst (srv_Fetch P now err model fb s) = fst (srv_Fetch P now err model fb t)"
proof -
  obtain m where t: "t = s\<lparr>sv_metrics := m\<rparr>" using assms unmetered_eq by blast
  show ?thesis
    using coldHit_metrics [where P = P and now = now and model = model and v = "fb_Version fb" and h = "fb_BlockHash fb"
        and toks = "fb_TokenIds fb" and s = "s\<lparr>sv_store := snd (Get P now model (fb_BlockHash fb) (sv_store s))\<rparr>" and m = m]
    unfolding t by (auto simp: srv_Fetch_def toBlockHash_def Let_def server_upd_comm split: option.split prod.split)
qed

lemma batchLoop_cons:
  "batchLoop P now (\<lambda>_. None) model i (fb # fbs) sent s =
     (let (kv, s1) = batchOne P now model fb s
      in case kv of
           None \<Rightarrow> batchLoop P now (\<lambda>_. None) model (i + 1) fbs
             (sent @ [\<lparr>bc_Index = word_of_nat i, bc_Data = [], bc_Found = False, bc_Last = True\<rparr>]) (emit (MMiss ''batch_fetch'') s1)
         | Some data \<Rightarrow> batchLoop P now (\<lambda>_. None) model (i + 1) fbs
             (sent @ batch_frames i (None, fetch_frames data)) (emit (MHit ''batch_fetch'') s1))"
  by (simp add: batchOne_def streamBatchKV_pieces sendNotFound_def streamSend_def batch_frames_def fetch_frames_def
      o_def split_def Let_def split: option.split)

lemma fetchEach_metrics:
  assumes "unmetered s = unmetered t"
  shows "fst (fetchEach P now model fbs s) = fst (fetchEach P now model fbs t) \<and>
    unmetered (snd (fetchEach P now model fbs s)) = unmetered (snd (fetchEach P now model fbs t))"
  using assms
proof (induction fbs arbitrary: s t)
  case (Cons fb fbs)
  have "unmetered (snd (srv_Fetch P now (\<lambda>_. None) model fb s)) = unmetered (snd (srv_Fetch P now (\<lambda>_. None) model fb t))"
    using batchOne_Fetch [of P now model fb s] batchOne_Fetch [of P now model fb t] batchOne_metrics [OF Cons.prems] by metis
  from Cons.IH [OF this] show ?case
    using Fetch_metrics [OF Cons.prems] by (simp add: Let_def split_def)
qed simp

lemma batchLoop_fetches:
  "fst (batchLoop P now (\<lambda>_. None) model i fbs sent s) =
     (None, sent @ concat (map (\<lambda>(j, r). batch_frames j r) (zip [i..<i + length fbs] (fst (fetchEach P now model fbs s))))) \<and>
   unmetered (snd (batchLoop P now (\<lambda>_. None) model i fbs sent s)) = unmetered (snd (fetchEach P now model fbs s))"
proof (induction fbs arbitrary: i sent s)
  case (Cons fb fbs)
  let ?r = "srv_Fetch P now (\<lambda>_. None) model fb s" and ?b = "batchOne P now model fb s"
  note one = batchOne_Fetch [of P now model fb s]
  define ev where "ev = (if fst ?b = None then MMiss ''batch_fetch'' else MHit ''batch_fetch'')"
  have step: "batchLoop P now (\<lambda>_. None) model i (fb # fbs) sent s =
      batchLoop P now (\<lambda>_. None) model (i + 1) fbs (sent @ batch_frames i (fst ?r)) (emit ev (snd ?b))"
  proof (cases "fst ?b")
    case None
    then have "batch_frames i (fst ?r) = [\<lparr>bc_Index = word_of_nat i, bc_Data = [], bc_Found = False, bc_Last = True\<rparr>]"
      using one by (cases "fst ?r") (auto simp: batch_frames_def)
    then show ?thesis using None unfolding batchLoop_cons ev_def by (simp add: Let_def split_def)
  next
    case (Some kv)
    then show ?thesis using one unfolding batchLoop_cons ev_def by (simp add: Let_def split_def)
  qed
  have "unmetered (emit ev (snd ?b)) = unmetered (snd ?r)" using one by simp
  note same = fetchEach_metrics [OF this, of P now model fbs]
  have up: "[i..<i + length (fb # fbs)] = i # [i + 1..<i + 1 + length fbs]" by (subst upt_conv_Cons) simp_all
  show ?case
    using Cons.IH [of "i + 1" "sent @ batch_frames i (fst ?r)" "emit ev (snd ?b)"] same
    unfolding step up by (simp add: Let_def split_def)
qed simp

text \<open>
  Property C8: a batch is its single fetches. Over a stream that does not fail, a batch never fails as a
  whole; the frames for block \<open>i\<close> carry its index and are exactly the frames a single fetch of that block, at
  that point, would stream, or one not-found frame when that fetch would fail; and the store ends as after
  those fetches.
\<close>

theorem BatchFetch_is_fetches:
  assumes "BatchFetch P now (\<lambda>_. None) model blocks s = ((e, frames), s')" and "fetchEach P now model blocks s = (rs, t)"
  shows "e = None \<and> frames = concat (map (\<lambda>(i, r). batch_frames i r) (zip [0..<length blocks] rs)) \<and>
    sv_store s' = sv_store t"
proof -
  note b = batchLoop_fetches [of P now model 0 blocks "[]" s]
  have "unmetered s' = unmetered t" using b assms by (simp add: BatchFetch_def)
  then have "sv_store s' = sv_store t" using unmetered_store(1) by metis
  then show ?thesis using b assms by (simp add: BatchFetch_def)
qed

section \<open>Writes\<close>

lemma recvLoop_chunks: "recvLoop (map Chunk cs) EOF buf = Inr (buf @ concat (map c_Data cs))"
  by (induction cs arbitrary: buf) simp_all

lemma assembleBlock_chunks:
  "unat (wh_TotalSize hdr) \<le> maxAlloc \<Longrightarrow>
   assembleBlock (Header hdr # map Chunk cs) EOF = Inr (hdr, concat (map c_Data cs))"
  by (simp add: assembleBlock_def recvLoop_chunks)

definition header_entry :: "WriteHeader \<Rightarrow> bytes \<Rightarrow> Entry" where
  "header_entry hdr buf = newEntry (wh_ModelId hdr) buf (wh_TokenIds hdr) (wh_TenantId hdr) (wh_RecomputeCost hdr)"

lemma header_entry_sel [simp]:
  "e_ModelID (header_entry hdr buf) = wh_ModelId hdr" "e_KV (header_entry hdr buf) = buf"
  "e_TokenIDs (header_entry hdr buf) = wh_TokenIds hdr" "e_RecomputeCost (header_entry hdr buf) = wh_RecomputeCost hdr"
  by (simp_all add: header_entry_def newEntry_def)

lemma Write_admitted:
  assumes "assembleBlock msgs fin = Inr (hdr, buf)" and "length (wh_BlockHash hdr) = 32"
    and "\<not> OverHardLimit (len64 buf) (sv_store s)"
  shows "fst (srv_Write P now msgs fin ack s) =
      sendAndClose ack \<lparr>wr_Version = fst (Put P now (wh_BlockHash hdr) (Some (header_entry hdr buf)) (sv_store s)), wr_Stored = True\<rparr>"
    and "sv_store (snd (srv_Write P now msgs fin ack s)) =
      snd (Put P now (wh_BlockHash hdr) (Some (header_entry hdr buf)) (sv_store s))"
    and "sv_cold (snd (srv_Write P now msgs fin ack s)) = sv_cold s"
  using assms
  by (auto simp: Write_defs toBlockHash_def header_entry_def Let_def split: prod.split option.split)

text \<open>
  Property C7: write, then fetch. A block streamed in any pieces that is admitted is stored under the version
  the response carries, and a fetch for it, with or without that version and the tokens, streams back exactly
  the bytes that were sent.
\<close>

theorem Write_then_Fetch:
  assumes "store_wf (sv_store s)" and "length (wh_BlockHash hdr) = 32" and "unat (wh_TotalSize hdr) \<le> maxAlloc"
    and "\<not> OverHardLimit (len64 (concat (map c_Data cs))) (sv_store s)"
    and "srv_Write P now (Header hdr # map Chunk cs) EOF None s = (res, s')"
    and "fb_BlockHash req = wh_BlockHash hdr" and "fb_Version req \<in> {0, wr_Version (projr res)}"
    and "fb_TokenIds req \<in> {[], wh_TokenIds hdr}"
  shows "isl res = False \<and> wr_Stored (projr res) \<and>
    (\<exists>frames. fst (srv_Fetch P now' (\<lambda>_. None) (wh_ModelId hdr) req s') = (None, frames) \<and>
       concat (map c_Data frames) = concat (map c_Data cs))"
proof -
  let ?buf = "concat (map c_Data cs)"
  note asm = assembleBlock_chunks [OF assms(3), of cs]
  note w = Write_admitted [OF asm assms(2,4), of P now None, unfolded assms(5)]
  let ?e = "header_entry hdr ?buf"
  have res: "res = Inr \<lparr>wr_Version = fst (Put P now (wh_BlockHash hdr) (Some ?e) (sv_store s)), wr_Stored = True\<rparr>"
    using w(1) by (simp add: sendAndClose_def)
  have "find_entry (wh_ModelId hdr) (wh_BlockHash hdr) (sv_store s') =
      Some (storedEntry (wh_BlockHash hdr) ?e (wr_Version (projr res))
        (put_created now (contents (sv_store s) (storeKey (wh_ModelId hdr) (wh_BlockHash hdr)))))"
    using find_entry_Put_same [OF assms(1), of ?e "wh_BlockHash hdr" P now] w(2) res by simp
  then have "fetch_value (wh_ModelId hdr) req s' = Some ?buf"
    using assms(6-8) by (auto simp: fetch_value_def matches_def)
  then have "fst (srv_Fetch P now' (\<lambda>_. None) (wh_ModelId hdr) req s') = (None, fetch_frames ?buf)"
    using Fetch_resolve [of req P now' "\<lambda>_. None" "wh_ModelId hdr" s'] assms(2,6) by (simp add: streamKV_clean)
  then show ?thesis using res by simp
qed

section \<open>Calls refine shard steps\<close>

datatype rpc =
    LookupRPC string "bytes list"
  | FetchRPC time sendErr string FetchBlock
  | BatchFetchRPC time sendErr string "FetchBlock list"
  | WriteRPC time "WriteChunk list" recv_end "string option"
  | ReplicateRPC time "WriteChunk list" recv_end "string option"
  | EvictRPC string bytes
  | HealthRPC

fun serve :: "'p EvictionPolicy \<Rightarrow> rpc \<Rightarrow> ('p, 'x, 'q) Server \<Rightarrow> ('p, 'x, 'q) Server" where
  "serve P (LookupRPC model hs) s = snd (srv_Lookup model hs s)"
| "serve P (FetchRPC now err model req) s = snd (srv_Fetch P now err model req s)"
| "serve P (BatchFetchRPC now err model blocks) s = snd (BatchFetch P now err model blocks s)"
| "serve P (WriteRPC now msgs fin ack) s = snd (srv_Write P now msgs fin ack s)"
| "serve P (ReplicateRPC now msgs fin ack) s = snd (srv_Replicate P now msgs fin ack s)"
| "serve P (EvictRPC model hb) s = snd (srv_Evict P model hb s)"
| "serve P HealthRPC s = snd (Health s)"

text \<open>
  The store operations of a call, with the entries it may bring in: the block a writer streamed, or a block
  that the cold tier returned.
\<close>

inductive store_op :: "'p EvictionPolicy \<Rightarrow> (BlockHash \<times> Entry) set \<Rightarrow> ('p, 'x) Store \<Rightarrow> ('p, 'x) Store \<Rightarrow> bool"
  for P E where
  op_get: "store_op P E s (snd (Get P now model h s))"
| op_put: "(h, e) \<in> E \<Longrightarrow> store_op P E s (snd (Put P now h (Some e) s))"
| op_putv: "(h, e) \<in> E \<Longrightarrow> store_op P E s (snd (PutWithVersion P now h (Some e) v s))"
| op_delete: "store_op P E s (snd (Delete P model h s))"

definition streamed :: "WriteChunk list \<Rightarrow> recv_end \<Rightarrow> (BlockHash \<times> Entry) set" where
  "streamed msgs fin =
     (case assembleBlock msgs fin of
        Inl _ \<Rightarrow> {}
      | Inr (hdr, buf) \<Rightarrow> if length (wh_BlockHash hdr) = 32 then {(wh_BlockHash hdr, header_entry hdr buf)} else {})"

definition readmitted :: "coldReader option \<Rightarrow> (BlockHash \<times> Entry) set" where
  "readmitted co =
     {(h, newEntry model kv toks [] 0) |model h kv ver toks cold.
        co = Some cold \<and> length h = 32 \<and> cold model h = Inr (Some (kv, ver, toks))}"

fun rpc_entries :: "rpc \<Rightarrow> coldReader option \<Rightarrow> (BlockHash \<times> Entry) set" where
  "rpc_entries (WriteRPC now msgs fin ack) co = streamed msgs fin"
| "rpc_entries (ReplicateRPC now msgs fin ack) co = streamed msgs fin"
| "rpc_entries _ co = readmitted co"

lemma Lookup_state: "unmetered (snd (srv_Lookup model hs s)) = unmetered s"
proof -
  have "unmetered (snd (fold (\<lambda>hb (blocks, s). let (bp, s') = lookupOne model hb s in (blocks @ [bp], s')) hs (bs, s))) = unmetered s"
    for bs and s :: "('p, 'x, 'q) Server"
  proof (induction hs arbitrary: bs s)
    case (Cons hb hs)
    have "unmetered (snd (lookupOne model hb s)) = unmetered s" by (simp add: lookupOne_def Let_def split: option.split)
    then show ?case using Cons by (simp add: split_def Let_def)
  qed simp
  then show ?thesis by (simp add: srv_Lookup_def)
qed

lemma coldHit_ops:
  assumes "length h = 32"
  shows "(store_op P (readmitted (sv_cold s)))\<^sup>*\<^sup>* (sv_store s) (sv_store (snd (coldHit P now model h v toks s))) \<and>
    sv_cold (snd (coldHit P now model h v toks s)) = sv_cold s"
proof -
  have "store_op P (readmitted (sv_cold s)) (sv_store s)
      (snd (PutWithVersion P now h (Some (newEntry model kv toks' [] 0)) ver (sv_store s)))"
    if "sv_cold s = Some cold" "cold model h = Inr (Some (kv, ver, toks'))" for cold kv ver toks'
    using that assms unfolding readmitted_def by (intro op_putv) blast
  then show ?thesis by (auto simp: coldHit_def Let_def split: option.split sum.split)
qed

lemma batchOne_ops:
  "(store_op P (readmitted (sv_cold s)))\<^sup>*\<^sup>* (sv_store s) (sv_store (snd (batchOne P now model fb s))) \<and>
   sv_cold (snd (batchOne P now model fb s)) = sv_cold s"
proof (cases "length (fb_BlockHash fb) = 32")
  case True
  let ?h = "fb_BlockHash fb" and ?E = "readmitted (sv_cold s)"
  let ?s1 = "s\<lparr>sv_store := snd (Get P now model ?h (sv_store s))\<rparr>"
  have get: "(store_op P ?E)\<^sup>*\<^sup>* (sv_store s) (sv_store ?s1)" by (simp add: op_get r_into_rtranclp)
  have "(store_op P ?E)\<^sup>*\<^sup>* (sv_store ?s1) (sv_store (snd (coldHit P now model ?h (fb_Version fb) (fb_TokenIds fb) ?s1))) \<and>
      sv_cold (snd (coldHit P now model ?h (fb_Version fb) (fb_TokenIds fb) ?s1)) = sv_cold s"
    using coldHit_ops [OF True, of P ?s1] by simp
  then show ?thesis
    using get True by (auto simp: batchOne_def toBlockHash_def batchResolve_def Let_def split_def split: option.split)
qed (simp add: batchOne_def toBlockHash_def)

lemma Fetch_ops:
  "(store_op P (readmitted (sv_cold s)))\<^sup>*\<^sup>* (sv_store s) (sv_store (snd (srv_Fetch P now err model fb s))) \<and>
   sv_cold (snd (srv_Fetch P now err model fb s)) = sv_cold s"
proof (cases "length (fb_BlockHash fb) = 32")
  case True
  let ?r = "snd (srv_Fetch P now err model fb s)" and ?b = "snd (batchOne P now model fb s)"
  have "unmetered ?r = unmetered ?b"
    using Fetch_resolve [OF True, of P now err model s] True by (simp add: batchOne_def toBlockHash_def)
  then have "sv_store ?r = sv_store ?b \<and> sv_cold ?r = sv_cold ?b" by (metis unmetered_store)
  then show ?thesis using batchOne_ops [of P s now model fb] by simp
qed (simp add: srv_Fetch_def toBlockHash_def)

lemma batchLoop_ops:
  "(store_op P (readmitted (sv_cold s)))\<^sup>*\<^sup>* (sv_store s) (sv_store (snd (batchLoop P now err model i fbs sent s))) \<and>
   sv_cold (snd (batchLoop P now err model i fbs sent s)) = sv_cold s"
proof (induction fbs arbitrary: i sent s)
  case (Cons fb fbs)
  let ?b = "batchOne P now model fb s" and ?E = "readmitted (sv_cold s)"
  note one = batchOne_ops [of P s now model fb]
  have rest: "(store_op P ?E)\<^sup>*\<^sup>* (sv_store s) (sv_store (snd (batchLoop P now err model (i + 1) fbs sent' (emit ev (snd ?b))))) \<and>
      sv_cold (snd (batchLoop P now err model (i + 1) fbs sent' (emit ev (snd ?b)))) = sv_cold s" for ev sent'
    using one Cons.IH [where s = "emit ev (snd ?b)" and i = "i + 1" and sent = sent'] by (auto intro: rtranclp_trans)
  have "\<exists>ev sent'. snd (batchLoop P now err model i (fb # fbs) sent s) \<in>
      {emit ev (snd ?b), snd (batchLoop P now err model (i + 1) fbs sent' (emit ev (snd ?b)))}"
    by (auto simp: batchOne_def Let_def split: option.split prod.split)
  then show ?case using one rest by (elim exE insertE) simp_all
qed simp

lemma Write_ops:
  "(store_op P (streamed msgs fin))\<^sup>*\<^sup>* (sv_store s) (sv_store (snd (srv_Write P now msgs fin ack s))) \<and>
   sv_cold (snd (srv_Write P now msgs fin ack s)) = sv_cold s"
proof (cases "assembleBlock msgs fin")
  case (Inr r)
  obtain hdr buf where r: "r = (hdr, buf)" by (cases r)
  have "(store_op P (streamed msgs fin))\<^sup>*\<^sup>* (sv_store s) (snd (Put P now (wh_BlockHash hdr) (Some (header_entry hdr buf)) (sv_store s)))"
    if "length (wh_BlockHash hdr) = 32"
    using that Inr r by (auto simp: streamed_def intro!: r_into_rtranclp op_put)
  then show ?thesis
    using Inr r by (simp add: Write_defs toBlockHash_def header_entry_def Let_def split_def split: option.split)
qed (simp add: Write_defs)

lemma Replicate_ops:
  "(store_op P (streamed msgs fin))\<^sup>*\<^sup>* (sv_store s) (sv_store (snd (srv_Replicate P now msgs fin ack s))) \<and>
   sv_cold (snd (srv_Replicate P now msgs fin ack s)) = sv_cold s"
proof (cases "assembleBlock msgs fin")
  case (Inr r)
  obtain hdr buf where r: "r = (hdr, buf)" by (cases r)
  have "(store_op P (streamed msgs fin))\<^sup>*\<^sup>* (sv_store s)
      (snd (PutWithVersion P now (wh_BlockHash hdr) (Some (header_entry hdr buf)) (wh_Version hdr) (sv_store s)))"
    if "length (wh_BlockHash hdr) = 32"
    using that Inr r by (auto simp: streamed_def intro!: r_into_rtranclp op_putv)
  then show ?thesis
    using Inr r by (simp add: srv_Replicate_def toBlockHash_def header_entry_def Let_def split_def)
qed (simp add: srv_Replicate_def)

lemma Evict_ops:
  "(store_op P E)\<^sup>*\<^sup>* (sv_store s) (sv_store (snd (srv_Evict P model hb s))) \<and> sv_cold (snd (srv_Evict P model hb s)) = sv_cold s"
  by (auto simp: srv_Evict_def Let_def split_def op_delete r_into_rtranclp split: option.split)

lemma serve_ops:
  "(store_op P (rpc_entries call (sv_cold s)))\<^sup>*\<^sup>* (sv_store s) (sv_store (serve P call s)) \<and> sv_cold (serve P call s) = sv_cold s"
proof (cases call)
  case (LookupRPC model hs)
  have "sv_store (snd (srv_Lookup model hs s)) = sv_store s \<and> sv_cold (snd (srv_Lookup model hs s)) = sv_cold s"
    using Lookup_state [of model hs s] unmetered_store by metis
  then show ?thesis using LookupRPC by simp
qed (simp_all add: Fetch_ops batchLoop_ops BatchFetch_def Write_ops Replicate_ops Evict_ops Health_def)

lemma ops_shard_run:
  assumes "(store_op P E)\<^sup>*\<^sup>* s s'" and "\<forall>(h, e) \<in> E. entry_ok ok e"
  shows "(shard_step P ok)\<^sup>*\<^sup>* (s, q) (s', q)"
  using assms(1)
proof (induction rule: rtranclp_induct)
  case (step t u)
  then have "shard_step P ok (t, q) (u, q)"
    using assms(2) by (auto elim!: store_op.cases intro: shard_step.intros)
  with step.IH show ?case by simp
qed simp

lemma serve_shard_run:
  assumes "\<forall>call \<in> set calls. \<forall>(h, e) \<in> rpc_entries call (sv_cold s). entry_ok ok e"
  shows "(shard_step P ok)\<^sup>*\<^sup>* (sv_store s, q) (sv_store (fold (serve P) calls s), q)"
  using assms
proof (induction calls arbitrary: s)
  case (Cons call calls)
  have "(shard_step P ok)\<^sup>*\<^sup>* (sv_store s, q) (sv_store (serve P call s), q)"
    using serve_ops [of P call s] Cons.prems by (intro ops_shard_run) auto
  moreover have "(shard_step P ok)\<^sup>*\<^sup>* (sv_store (serve P call s), q) (sv_store (fold (serve P) calls (serve P call s)), q)"
    using Cons serve_ops [of P call s] by simp
  ultimately show ?case by simp
qed simp

text \<open>
  Property C6: the service is the shard. Every sequence of calls, whatever the clients and the streams do, acts
  on the store through a sequence of the shard's own steps, so under a tracking policy the store stays
  consistent: exact byte accounting, entries under the key of their model and hash, and a policy that tracks
  exactly the stored keys.
\<close>

theorem service_refines_shard:
  assumes "eviction_policy P tracked invar ok" and "shard_inv tracked invar (sv_store s)"
    and "\<forall>call \<in> set calls. \<forall>(h, e) \<in> rpc_entries call (sv_cold s). entry_ok ok e"
    and "s' = fold (serve P) calls s"
  shows "(shard_step P ok)\<^sup>*\<^sup>* (sv_store s, q) (sv_store s', q) \<and> shard_inv tracked invar (sv_store s')"
  using serve_shard_run [OF assms(3), where P = P and q = q] eviction_policy.shard_reachable_inv [OF assms(1) _ assms(2)]
  unfolding assms(4) by blast

section \<open>A server on a bounded shard\<close>

definition ex_server :: "(LRUPolicy, unit, unit) Server" where
  "ex_server = server_New (NewStore NewLRU () [WithMaxBytes 100]) ()"

definition ex_header :: WriteHeader where
  "ex_header = \<lparr>wh_ModelId = ''m'', wh_BlockHash = replicate 32 5, wh_TokenIds = [1, 2], wh_TenantId = ''t'',
     wh_RecomputeCost = 1, wh_TotalSize = 3, wh_Version = 0, wh_RoutingKey = []\<rparr>"

definition ex_chunks :: "KVChunk list" where
  "ex_chunks = [\<lparr>c_Data = [1, 2], c_Last = False\<rparr>, \<lparr>c_Data = [3], c_Last = True\<rparr>]"

definition ex_req :: FetchBlock where
  "ex_req = \<lparr>fb_BlockHash = replicate 32 5, fb_Version = 0, fb_TokenIds = [1, 2]\<rparr>"

lemma ex_opts: "\<forall>opt \<in> set [WithMaxBytes 100]. store_option opt"
  by (auto simp: store_option_def)

lemma ex_server_inv: "shard_inv (\<lambda>p. set (recency p)) lru_inv (sv_store ex_server)"
  unfolding ex_server_def server_New_def by (simp add: NewStore_shard_inv [OF ex_opts] lru_policy_start)

lemma ex_server_wf: "store_wf (sv_store ex_server)"
  using ex_server_inv by (rule shard_invD)

lemma ex_server_limit:
  "s_maxBytes (sv_store ex_server) = 100" "s_totalBytes (sv_store ex_server) = 0" "true_bytes (sv_store ex_server) = 0"
proof -
  let ?s = "NewStore NewLRU () [WithMaxBytes 100] :: (LRUPolicy, unit) Store"
  have st: "s_stripes ?s = replicate 16 []" "s_totalBytes ?s = 0"
    using NewStore_stripes [of "[WithMaxBytes 100]" NewLRU "()"] by (simp_all add: WithMaxBytes_def numStripes_def)
  show "s_maxBytes (sv_store ex_server) = 100"
    by (simp add: ex_server_def server_New_def NewStore_def Let_def WithMaxBytes_def)
  show "s_totalBytes (sv_store ex_server) = 0" "true_bytes (sv_store ex_server) = 0"
    using st by (simp_all add: ex_server_def server_New_def true_bytes_def sum_list_replicate)
qed

lemma ex_room: "\<not> OverHardLimit (len64 (concat (map c_Data ex_chunks))) (sv_store ex_server)"
  by (simp add: OverHardLimit_def ex_server_limit slt64_def len64_def ex_chunks_def)

theorem BatchFetch_is_fetches_witness:
  "snd (fst (BatchFetch LRU 1 (\<lambda>_. None) ''m'' [ex_req] ex_server)) =
     batch_frames 0 (fst (srv_Fetch LRU 1 (\<lambda>_. None) ''m'' ex_req ex_server))"
proof -
  obtain e frames s' where b: "BatchFetch LRU 1 (\<lambda>_. None) ''m'' [ex_req] ex_server = ((e, frames), s')"
    by (metis surj_pair)
  have "fetchEach LRU 1 ''m'' [ex_req] ex_server =
      ([fst (srv_Fetch LRU 1 (\<lambda>_. None) ''m'' ex_req ex_server)], snd (srv_Fetch LRU 1 (\<lambda>_. None) ''m'' ex_req ex_server))"
    by (simp add: split_def Let_def)
  from BatchFetch_is_fetches [OF b this] show ?thesis using b by simp
qed

theorem Write_then_Fetch_witness:
  "\<exists>frames. fst (srv_Fetch LRU 2 (\<lambda>_. None) ''m'' ex_req
      (snd (srv_Write LRU 1 (Header ex_header # map Chunk ex_chunks) EOF None ex_server))) = (None, frames) \<and>
    concat (map c_Data frames) = [1, 2, 3]"
proof -
  obtain res s' where w: "srv_Write LRU 1 (Header ex_header # map Chunk ex_chunks) EOF None ex_server = (res, s')"
    by fastforce
  show ?thesis
    using Write_then_Fetch [OF ex_server_wf _ _ ex_room w, of ex_req 2] unfolding w
    by (simp add: ex_header_def ex_req_def maxAlloc_def ex_chunks_def)
qed

theorem service_refines_shard_witness:
  "store_wf (sv_store (fold (serve LRU) [WriteRPC 1 (Header ex_header # map Chunk ex_chunks) EOF None,
     FetchRPC 2 (\<lambda>_. None) ''m'' ex_req, EvictRPC ''m'' (replicate 32 5)] ex_server))"
  using service_refines_shard [OF lru.eviction_policy_axioms ex_server_inv _ refl,
      of "[WriteRPC 1 (Header ex_header # map Chunk ex_chunks) EOF None, FetchRPC 2 (\<lambda>_. None) ''m'' ex_req, EvictRPC ''m'' (replicate 32 5)]"]
  by (auto simp: entry_ok_def shard_inv_def)

end
