(* ===== verification/Replicator.thy ===== *)
theory Replicator
  imports Server_Correct Membership
begin

text \<open>
  \<^verbatim>\<open>internal/server/replicator.go\<close>: the primary's side of replication. A bounded queue feeds a loop that
  streams each block to the other owners of its routing key over their \<^verbatim>\<open>Replicate\<close> call. The network is a
  parameter: for each connection, whether the call opens, the error of each send and that of the close.
\<close>

section \<open>The code\<close>

definition replicateChunkBytes :: nat where
  "replicateChunkBytes = 2 ^ 20"

definition replicaQueueDepth :: nat where
  "replicaQueueDepth = 256"

record 'c Replicator =
  rp_self :: string
  rp_rf :: int
  rp_router :: "'c Router"
  rp_queue :: "ReplicaJob list"
  rp_metrics :: "metric list option"

definition NewReplicator :: "string \<Rightarrow> int \<Rightarrow> 'c Router \<Rightarrow> 'c Replicator" where
  "NewReplicator self rf router = \<lparr>rp_self = self, rp_rf = rf, rp_router = router, rp_queue = [], rp_metrics = None\<rparr>"

definition repl_WithMetrics :: "metric list option \<Rightarrow> 'c Replicator \<Rightarrow> 'c Replicator" where
  "repl_WithMetrics m r = (case m of None \<Rightarrow> r | Some _ \<Rightarrow> r\<lparr>rp_metrics := m\<rparr>)"

definition QueueDepth :: "'c Replicator \<Rightarrow> nat" where
  "QueueDepth r = length (rp_queue r)"

definition repl_emit :: "metric \<Rightarrow> 'c Replicator \<Rightarrow> 'c Replicator" where
  "repl_emit ev r = r\<lparr>rp_metrics := map_option (\<lambda>evs. evs @ [ev]) (rp_metrics r)\<rparr>"

definition Enqueue :: "ReplicaJob \<Rightarrow> 'c Replicator \<Rightarrow> 'c Replicator" where
  "Enqueue job r =
     (if length (rp_queue r) < replicaQueueDepth then r\<lparr>rp_queue := rp_queue r @ [job]\<rparr>
      else repl_emit (MReplica ''dropped'') r)"

text \<open>How a peer's call goes: the error of opening it, of each send, and of the close.\<close>

record call_outcome =
  co_open :: "string option"
  co_send :: sendErr
  co_close :: "recv_end option"

definition jobHeader :: "ReplicaJob \<Rightarrow> WriteHeader" where
  "jobHeader job =
     \<lparr>wh_ModelId = rj_ModelID job, wh_BlockHash = rj_Hash job, wh_TokenIds = rj_TokenIDs job,
      wh_TenantId = rj_TenantID job, wh_RecomputeCost = rj_RecomputeCost job,
      wh_TotalSize = word_of_nat (length (rj_KV job)), wh_Version = rj_Version job, wh_RoutingKey = rj_RoutingKey job\<rparr>"

definition sendOne :: "call_outcome \<Rightarrow> ReplicaJob \<Rightarrow> string option \<times> WriteChunk list" where
  "sendOne net job =
     (case co_open net of
        Some err \<Rightarrow> (Some err, [])
      | None \<Rightarrow>
          (case streamSend (co_send net) (Header (jobHeader job)) [] of
             (Some err, sent) \<Rightarrow> (Some err, sent)
           | (None, sent) \<Rightarrow>
               (case chunkLoop replicateChunkBytes (\<lambda>d l. Chunk \<lparr>c_Data = d, c_Last = l\<rparr>) (co_send net) (rj_KV job) 0 sent of
                  (Some err, sent') \<Rightarrow> (Some err, sent')
                | (None, sent') \<Rightarrow>
                    (case co_close net of Some (RecvError err) \<Rightarrow> (Some err, sent') | _ \<Rightarrow> (None, sent')))))"

definition routingKeyOf :: "ReplicaJob \<Rightarrow> bytes" where
  "routingKeyOf job = (if length (rj_RoutingKey job) = 0 then rj_Hash job else rj_RoutingKey job)"

text \<open>The messages sent to each connection, and the replicator with its metrics.\<close>

definition forwardOne ::
  "('c \<Rightarrow> call_outcome) \<Rightarrow> ReplicaJob \<Rightarrow> string \<Rightarrow> ('c \<times> WriteChunk list) list \<times> 'c Replicator
     \<Rightarrow> ('c \<times> WriteChunk list) list \<times> 'c Replicator" where
  "forwardOne net job ident = (\<lambda>(out, r).
     if ident = rp_self r then (out, r)
     else case ConnFor ident (rp_router r) of
            None \<Rightarrow> (out, r)
          | Some conn \<Rightarrow>
              (case sendOne (net conn) job of
                 (Some err, sent) \<Rightarrow> (out @ [(conn, sent)], repl_emit (MReplica ''error'') r)
               | (None, sent) \<Rightarrow> (out @ [(conn, sent)], repl_emit (MReplica ''forwarded'') r)))"

definition forward ::
  "('c \<Rightarrow> call_outcome) \<Rightarrow> ReplicaJob \<Rightarrow> 'c Replicator \<Rightarrow> ('c \<times> WriteChunk list) list \<times> 'c Replicator" where
  "forward net job r = fold (forwardOne net job) (OwnersN (routingKeyOf job) (rp_rf r) (rp_router r)) ([], r)"

text \<open>One iteration of \<^verbatim>\<open>Run\<close>: \<^term>\<open>None\<close> when it waits on an empty queue.\<close>

definition runOnce :: "('c \<Rightarrow> call_outcome) \<Rightarrow> 'c Replicator \<Rightarrow> (('c \<times> WriteChunk list) list \<times> 'c Replicator) option" where
  "runOnce net r = (case rp_queue r of [] \<Rightarrow> None | job # jobs \<Rightarrow> Some (forward net job (r\<lparr>rp_queue := jobs\<rparr>)))"

section \<open>What a peer receives\<close>

definition job_messages :: "ReplicaJob \<Rightarrow> WriteChunk list" where
  "job_messages job = Header (jobHeader job) #
     map Chunk (if rj_KV job = [] then [] else map (\<lambda>(d, l). \<lparr>c_Data = d, c_Last = l\<rparr>) (pieces replicateChunkBytes (rj_KV job)))"

definition healthy :: call_outcome where
  "healthy = \<lparr>co_open = None, co_send = (\<lambda>_. None), co_close = None\<rparr>"

lemma sendOne_healthy: "sendOne healthy job = (None, job_messages job)"
proof (cases "rj_KV job = []")
  case True
  then show ?thesis by (simp add: sendOne_def healthy_def streamSend_def chunkLoop.simps job_messages_def)
next
  case False
  have "0 < replicateChunkBytes" by (simp add: replicateChunkBytes_def)
  then show ?thesis
    using False by (simp add: sendOne_def healthy_def streamSend_def chunkLoop_pieces job_messages_def o_def split_def)
qed

lemma job_messages_assemble:
  assumes "length (rj_KV job) \<le> maxAlloc"
  shows "assembleBlock (job_messages job) EOF = Inr (jobHeader job, rj_KV job)"
proof -
  have "unat (wh_TotalSize (jobHeader job)) \<le> maxAlloc"
    using assms by (simp add: jobHeader_def maxAlloc_def unat_of_nat take_bit_nat_eq_self)
  moreover have "concat (map c_Data (map (\<lambda>(d, l). \<lparr>c_Data = d, c_Last = l\<rparr>) (pieces replicateChunkBytes (rj_KV job)))) = rj_KV job"
    using pieces_data [of replicateChunkBytes "rj_KV job"] by (simp add: o_def split_def)
  ultimately show ?thesis
    unfolding job_messages_def by (subst assembleBlock_chunks) simp_all
qed

section \<open>Where copies go\<close>

lemma repl_emit_simps [simp]:
  "rp_self (repl_emit ev r) = rp_self r" "rp_router (repl_emit ev r) = rp_router r"
  "rp_queue (repl_emit ev r) = rp_queue r" "rp_rf (repl_emit ev r) = rp_rf r"
  by (simp_all add: repl_emit_def)

lemma fold_forwardOne:
  "fst (fold (forwardOne net job) ids (out, r)) = out @
     map (\<lambda>i. let c = the (ConnFor i (rp_router r)) in (c, snd (sendOne (net c) job)))
       (filter (\<lambda>i. i \<noteq> rp_self r \<and> ConnFor i (rp_router r) \<noteq> None) ids) \<and>
   rp_queue (snd (fold (forwardOne net job) ids (out, r))) = rp_queue r \<and>
   rp_router (snd (fold (forwardOne net job) ids (out, r))) = rp_router r"
proof (induction ids arbitrary: out r)
  case (Cons i ids)
  define q where "q = forwardOne net job i (out, r)"
  have "fst q = out @ (if i \<noteq> rp_self r \<and> ConnFor i (rp_router r) \<noteq> None
      then [(the (ConnFor i (rp_router r)), snd (sendOne (net (the (ConnFor i (rp_router r)))) job))] else []) \<and>
    rp_self (snd q) = rp_self r \<and> rp_router (snd q) = rp_router r \<and> rp_queue (snd q) = rp_queue r"
    unfolding q_def forwardOne_def by (auto split: option.split prod.split)
  moreover have "fold (forwardOne net job) (i # ids) (out, r) = fold (forwardOne net job) ids (fst q, snd q)" by (simp add: q_def)
  ultimately show ?case using Cons [of "fst q" "snd q"] by (simp only: Let_def) (simp split: if_split)
qed simp

lemma forward_messages:
  assumes "(conn, msgs) \<in> set (fst (forward net job r))"
  shows "msgs = snd (sendOne (net conn) job)"
  using assms fold_forwardOne [of net job _ "[]" r] by (auto simp: forward_def Let_def)

text \<open>
  Placement of copies. The replicator streams a block to the connections of the owners of its
  routing key other than itself, each exactly once and in ring order; so to one fewer than the owners when it
  is an owner itself. It leaves the queue behind it alone.
\<close>

lemma forward_sends:
  assumes "router_inv (rp_router r)" and "forward net job r = (out, r')"
    and "owners = OwnersN (routingKeyOf job) (rp_rf r) (rp_router r)"
  shows "map (Some \<circ> fst) out = map (\<lambda>i. ConnFor i (rp_router r)) (removeAll (rp_self r) owners) \<and>
    length out = length owners - (if rp_self r \<in> set owners then 1 else 0) \<and>
    (\<forall>c. ConnFor (rp_self r) (rp_router r) = Some c \<longrightarrow> c \<notin> set (map fst out)) \<and> rp_queue r' = rp_queue r"
proof -
  let ?R = "rp_router r"
  have rinv: "ring_inv (rt_ring ?R)" and keys: "gm_keys (r_members (rt_ring ?R)) = gm_keys (rt_pool ?R)"
    and wf: "gm_wf (rt_pool ?R)" and made: "distinct (rt_made ?R)"
    "mset (rt_made ?R) = mset (map snd (rt_pool ?R) @ rt_closed ?R)"
    using assms(1) by (simp_all add: router_inv_def)
  have own: "owners = take (nat (rp_rf r)) (walk (routingKeyOf job) (rt_ring ?R))"
    by (simp add: assms(3) OwnersN_def LookupN_walk [OF rinv])
  have dist: "distinct owners" unfolding own using walk_members(1) [OF rinv] by simp
  have conn: "ConnFor i ?R \<noteq> None" if "i \<in> set owners" for i
    using in_set_takeD [OF that [unfolded own]] walk_members(2) [OF rinv] keys
    unfolding ConnFor_def gm_keys_get [symmetric] by simp
  then have f: "filter (\<lambda>i. i \<noteq> rp_self r \<and> ConnFor i ?R \<noteq> None) owners = removeAll (rp_self r) owners"
    unfolding removeAll_filter_not_eq by (intro filter_cong) auto
  have out: "out = map (\<lambda>i. let c = the (ConnFor i ?R) in (c, snd (sendOne (net c) job))) (removeAll (rp_self r) owners)"
    and q: "rp_queue r' = rp_queue r"
    using fold_forwardOne [of net job owners "[]" r] assms(2,3) f by (simp_all add: forward_def)
  have targets: "map (Some \<circ> fst) out = map (\<lambda>i. ConnFor i ?R) (removeAll (rp_self r) owners)"
    unfolding out using conn by (auto simp: Let_def)
  have len: "length out = length owners - (if rp_self r \<in> set owners then 1 else 0)"
    unfolding out using dist by (simp add: distinct_remove1_removeAll [symmetric] length_remove1)
  have "distinct (map snd (rt_pool ?R) @ rt_closed ?R)"
    using made mset_eq_imp_distinct_iff by blast
  then have inj: "i = j" if "ConnFor i ?R = Some c" "ConnFor j ?R = Some c" for i j c
    using that wf unfolding ConnFor_def
    by (metis distinct_append distinct_map inj_on_contraD map_of_SomeD prod.inject snd_conv)
  have "c \<notin> set (map fst out)" if c: "ConnFor (rp_self r) ?R = Some c" for c
  proof
    assume "c \<in> set (map fst out)"
    then have "Some c \<in> set (map (Some \<circ> fst) out)" by (force simp: image_iff)
    then obtain i where "i \<in> set (removeAll (rp_self r) owners)" "ConnFor i ?R = Some c"
      unfolding targets set_map by (metis imageE)
    then show False using inj [OF c] by auto
  qed
  then show ?thesis using targets len q by blast
qed

section \<open>From the primary to the replica\<close>

lemma Enqueue_effect:
  "rp_queue (Enqueue job r) = (if length (rp_queue r) < 256 then rp_queue r @ [job] else rp_queue r)"
  "QueueDepth r \<le> 256 \<Longrightarrow> QueueDepth (Enqueue job r) \<le> 256"
  by (simp_all add: Enqueue_def replicaQueueDepth_def QueueDepth_def)

lemma Replicate_stores:
  assumes "assembleBlock msgs EOF = Inr (hdr, buf)" and "length (wh_BlockHash hdr) = 32" and "wh_Version hdr \<noteq> 0"
    and "store_wf (sv_store t)"
    and "\<forall>e. contents (sv_store t) (storeKey (wh_ModelId hdr) (wh_BlockHash hdr)) = Some e \<longrightarrow> e_Version e < wh_Version hdr"
  shows "fst (srv_Replicate P now msgs EOF None t) = Inr \<lparr>wr_Version = wh_Version hdr, wr_Stored = True\<rparr> \<and>
    (\<exists>created. find_entry (wh_ModelId hdr) (wh_BlockHash hdr) (sv_store (snd (srv_Replicate P now msgs EOF None t))) =
      Some (storedEntry (wh_BlockHash hdr) (header_entry hdr buf) (wh_Version hdr) created))"
proof -
  let ?e = "header_entry hdr buf" and ?k = "storeKey (wh_ModelId hdr) (wh_BlockHash hdr)" and ?s = "sv_store t"
  let ?p = "PutWithVersion P now (wh_BlockHash hdr) (Some ?e) (wh_Version hdr) ?s"
  have "\<not> (\<exists>e'. contents ?s ?k = Some e' \<and> wh_Version hdr \<le> e_Version e')" using assms(5) by (auto simp: not_le)
  then have p: "?p = (wh_Version hdr, publish P ?k (storedEntry (wh_BlockHash hdr) ?e (wh_Version hdr) (put_created now (contents ?s ?k)))
      (case contents ?s ?k of None \<Rightarrow> 0 | Some e' \<Rightarrow> e_SizeBytes e') ?s)"
    using assms(3) by (auto simp: PutWithVersion_effect Let_def)
  have "entry_filed ?k (storedEntry (wh_BlockHash hdr) ?e (wh_Version hdr) (put_created now (contents ?s ?k)))"
    using storedEntry_filed [of ?e] by simp
  from publish_effect(2) [OF assms(4) this refl, of P]
  have "contents (snd ?p) = (contents ?s)(?k \<mapsto> storedEntry (wh_BlockHash hdr) ?e (wh_Version hdr) (put_created now (contents ?s ?k)))"
    by (simp add: p)
  then have "find_entry (wh_ModelId hdr) (wh_BlockHash hdr) (snd ?p) =
      Some (storedEntry (wh_BlockHash hdr) ?e (wh_Version hdr) (put_created now (contents ?s ?k)))"
    by (simp add: find_entry_def)
  then show ?thesis
    using assms(1-3) p by (auto simp: srv_Replicate_def toBlockHash_def sendAndClose_def header_entry_def [symmetric] Let_def)
qed

text \<open>
  A replica serves what the primary acknowledged. A block written to a primary is queued, and once
  the replicator's loop has streamed it over a healthy connection, a replica that held no version at or above
  the primary's stores it at the primary's version, answers the call like the primary answered the write, and
  serves fetches for that version, or for any, and those tokens with the bytes the client wrote.
\<close>

lemma replica_serves_written_block:
  assumes "store_wf (sv_store s)" and "sv_repl s = Some Enqueue" and "rp_queue (sv_queue s) = []"
    and "length (wh_BlockHash hdr) = 32" and "unat (wh_TotalSize hdr) \<le> maxAlloc"
    and "length (concat (map c_Data cs)) \<le> maxAlloc"
    and "\<not> OverHardLimit (len64 (concat (map c_Data cs))) (sv_store s)"
    and "srv_Write P now (Header hdr # map Chunk cs) EOF None s = (Inr resp, s')"
    and "runOnce net (sv_queue s') = Some (out, r')" and "(conn, msgs) \<in> set out" and "net conn = healthy"
    and "store_wf (sv_store t)" and "wr_Version resp \<noteq> 0"
    and "\<forall>e. contents (sv_store t) (storeKey (wh_ModelId hdr) (wh_BlockHash hdr)) = Some e \<longrightarrow> e_Version e < wr_Version resp"
    and "srv_Replicate P' now' msgs EOF None t = (res, t')" and "ver = 0 \<or> ver = wr_Version resp"
  shows "res = Inr resp \<and>
    fst (srv_Fetch P' now'' (\<lambda>_. None) (wh_ModelId hdr)
      \<lparr>fb_BlockHash = wh_BlockHash hdr, fb_Version = ver, fb_TokenIds = wh_TokenIds hdr\<rparr> t') =
    (None, fetch_frames (concat (map c_Data cs)))"
proof -
  let ?buf = "concat (map c_Data cs)"
  define job where "job = \<lparr>rj_Hash = wh_BlockHash hdr, rj_ModelID = wh_ModelId hdr, rj_KV = ?buf, rj_TokenIDs = wh_TokenIds hdr,
    rj_TenantID = wh_TenantId hdr, rj_RecomputeCost = wh_RecomputeCost hdr, rj_Version = wr_Version resp,
    rj_RoutingKey = wh_RoutingKey hdr\<rparr>"
  have "resp = \<lparr>wr_Version = wr_Version resp, wr_Stored = True\<rparr> \<and> sv_queue s' = Enqueue job (sv_queue s)"
    using assms(2,4,7,8) assembleBlock_chunks [OF assms(5), of cs]
    by (auto simp: Write_defs toBlockHash_def sendAndClose_def job_def Let_def split: prod.splits)
  then have resp: "resp = \<lparr>wr_Version = wr_Version resp, wr_Stored = True\<rparr>" and q: "rp_queue (sv_queue s') = [job]"
    using Enqueue_effect(1) [of job "sv_queue s"] assms(3) by simp_all
  have "out = fst (forward net job ((sv_queue s')\<lparr>rp_queue := []\<rparr>))" using assms(9) q by (simp add: runOnce_def)
  then have "msgs = snd (sendOne (net conn) job)" using assms(10) forward_messages [of conn msgs net job] by simp
  then have msgs: "msgs = job_messages job" using assms(11) sendOne_healthy by simp
  have asm: "assembleBlock msgs EOF = Inr (jobHeader job, ?buf)"
    unfolding msgs using job_messages_assemble [of job] assms(6) by (simp add: job_def)
  have hd: "wh_BlockHash (jobHeader job) = wh_BlockHash hdr" "wh_ModelId (jobHeader job) = wh_ModelId hdr"
    "wh_Version (jobHeader job) = wr_Version resp" "wh_TokenIds (jobHeader job) = wh_TokenIds hdr"
    by (simp_all add: jobHeader_def job_def)
  have rep: "res = Inr resp \<and> (\<exists>created. find_entry (wh_ModelId hdr) (wh_BlockHash hdr) (sv_store t') =
      Some (storedEntry (wh_BlockHash hdr) (header_entry (jobHeader job) ?buf) (wr_Version resp) created))"
    using Replicate_stores [OF asm, of t P' now'] assms(4,12-15) resp unfolding hd by simp
  let ?req = "\<lparr>fb_BlockHash = wh_BlockHash hdr, fb_Version = ver, fb_TokenIds = wh_TokenIds hdr\<rparr>"
  have "fetch_value (wh_ModelId hdr) ?req t' = Some ?buf"
    using rep hd(4) assms(16) by (auto simp: fetch_value_def matches_def)
  then show ?thesis
    using rep Fetch_resolve [of ?req P' now'' "\<lambda>_. None" "wh_ModelId hdr" t'] assms(4) by (simp add: streamKV_clean)
qed

section \<open>A primary and a replica\<close>

lemma ex_owners: "set (OwnersN key 2 (ex_router [''a'', ''b''])) = {''a'', ''b''}" "length (OwnersN key 2 (ex_router [''a'', ''b''])) = 2"
proof -
  let ?r = "ex_router [''a'', ''b'']"
  have inv: "ring_inv (rt_ring ?r)" using ex_router_inv by (simp add: router_inv_def)
  have s: "set (walk key (rt_ring ?r)) = {''a'', ''b''}"
    using walk_members(2) [OF inv, of key] ex_router_keys(2) [of "[''a'', ''b'']"] by (simp add: Nodes_def)
  then have l: "length (walk key (rt_ring ?r)) = 2" using distinct_card [OF walk_members(1) [OF inv, of key]] by simp
  then show "set (OwnersN key 2 ?r) = {''a'', ''b''}" "length (OwnersN key 2 ?r) = 2"
    using s by (simp_all add: OwnersN_def LookupN_walk [OF inv])
qed

end
