(* ===== verification/Provenance.thy ===== *)
theory Provenance
  imports Replicator
begin

text \<open>
  A whole shard: the server, its store with the spill hook, the evictor's steps and the cold tier with its
  background uploads, interleaved freely. The property is the one the cache exists for: whatever is fetched
  was once written under that model and hash.
\<close>

section \<open>A tier behind the spill hook\<close>

locale spill_tier = cold_tier inv spilled get
  for inv :: "'t \<Rightarrow> bool" and spilled :: "'t \<Rightarrow> cold_block set" and get :: "'t \<Rightarrow> string \<Rightarrow> BlockHash \<Rightarrow> cold_result" +
  fixes spill :: "'t SpillFunc" and background :: "'t \<Rightarrow> 't \<Rightarrow> bool"
  assumes spill_law: "inv t \<Longrightarrow> block_ok (model, h, ver, toks, kv) \<Longrightarrow>
      inv (spill model h ver toks kv t) \<and> spilled (spill model h ver toks kv t) \<subseteq> insert (model, h, ver, toks, kv) (spilled t)"
    and background_law: "inv t \<Longrightarrow> background t t' \<Longrightarrow> inv t' \<and> spilled t' \<subseteq> spilled t"

text \<open>The S3 tier as the sink of a store: the world of its uploads and the current answers of \<^verbatim>\<open>GetObject\<close>.\<close>

type_synonym s3_sink = "s3_world \<times> (string \<Rightarrow> GetObjectOutput)"

text \<open>
  A spill after the tier was closed panics in the code and ends the process; here it leaves the sink as it is, which
  is all a later fetch could see.
\<close>

definition s3_spill :: "s3_sink SpillFunc" where
  "s3_spill model h ver toks kv = (\<lambda>(w, g).
     let job = \<lparr>sj_model = model, sj_hash = h, sj_version = ver, sj_tokenIDs = toks, sj_kv = kv\<rparr>
     in case s3_Spill job (w_tier w) of
          None \<Rightarrow> (w, g)
        | Some t \<Rightarrow> (w\<lparr>w_tier := t, w_spilled := insert (job_block job) (w_spilled w)\<rparr>, g))"

definition s3_get :: "s3_sink \<Rightarrow> string \<Rightarrow> BlockHash \<Rightarrow> cold_result" where
  "s3_get = (\<lambda>(w, g). s3_Get g)"

definition s3_sink_inv :: "s3_sink \<Rightarrow> bool" where
  "s3_sink_inv = (\<lambda>(w, g). s3_inv w \<and> serves_objects (w_objects w) g)"

definition s3_sink_spilled :: "s3_sink \<Rightarrow> cold_block set" where
  "s3_sink_spilled = (\<lambda>(w, g). w_spilled w)"

text \<open>A worker takes a job, an upload ends, or the answers of the service change.\<close>

definition s3_background :: "s3_sink \<Rightarrow> s3_sink \<Rightarrow> bool" where
  "s3_background = (\<lambda>(w, g) (w', g'). (w' = w \<or> s3_step w w') \<and> w_spilled w' = w_spilled w \<and> serves_objects (w_objects w') g')"

interpretation s3_sink: spill_tier s3_sink_inv s3_sink_spilled s3_get s3_spill s3_background
proof
  fix t model h kv ver toks
  assume "s3_sink_inv t" "length h = 32" "s3_get t model h = Inr (Some (kv, ver, toks))"
  then show "(model, h, ver, toks, kv) \<in> s3_sink_spilled t"
    using s3.get_law [of t h model kv ver toks] by (cases t) (simp add: s3_sink_inv_def s3_get_def s3_sink_spilled_def)
next
  fix t model h ver toks kv
  assume a: "s3_sink_inv t" "block_ok (model, h, ver, toks, kv)"
  obtain w g where t: "t = (w, g)" by (cases t)
  let ?job = "\<lparr>sj_model = model, sj_hash = h, sj_version = ver, sj_tokenIDs = toks, sj_kv = kv\<rparr>"
  have jb: "job_block ?job = (model, h, ver, toks, kv)" by (simp add: job_block_def)
  show "s3_sink_inv (s3_spill model h ver toks kv t) \<and>
      s3_sink_spilled (s3_spill model h ver toks kv t) \<subseteq> insert (model, h, ver, toks, kv) (s3_sink_spilled t)"
  proof (cases "s3_Spill ?job (w_tier w)")
    case None
    then show ?thesis using a(1) t by (simp add: s3_spill_def s3_sink_spilled_def) blast
  next
    case (Some tier)
    have "s3_step w (w\<lparr>w_tier := tier, w_spilled := insert (job_block ?job) (w_spilled w)\<rparr>)"
      using Some a(2) jb by (intro s3_step.s3_spill) simp_all
    then have "s3_inv (w\<lparr>w_tier := tier, w_spilled := insert (job_block ?job) (w_spilled w)\<rparr>)"
      using a(1) t s3_step_inv by (simp add: s3_sink_inv_def)
    then show ?thesis using a(1) t Some jb by (simp add: s3_spill_def s3_sink_inv_def s3_sink_spilled_def)
  qed
next
  fix t t' assume "s3_sink_inv t" "s3_background t t'"
  then show "s3_sink_inv t' \<and> s3_sink_spilled t' \<subseteq> s3_sink_spilled t"
    using s3_step_inv by (cases t; cases t') (auto simp: s3_sink_inv_def s3_background_def s3_sink_spilled_def)
qed

section \<open>The whole shard\<close>

text \<open>A block as a client wrote it: model, hash, tokens and payload.\<close>

type_synonym written = "string \<times> BlockHash \<times> int32 list \<times> bytes"

definition block_of :: "BlockHash \<Rightarrow> Entry \<Rightarrow> written" where
  "block_of h e = (e_ModelID e, h, e_TokenIDs e, e_KV e)"

fun rpc_writes :: "rpc \<Rightarrow> written set" where
  "rpc_writes (WriteRPC now msgs fin ack) = {block_of h e |h e. (h, e) \<in> streamed msgs fin}"
| "rpc_writes (ReplicateRPC now msgs fin ack) = {block_of h e |h e. (h, e) \<in> streamed msgs fin}"
| "rpc_writes _ = {}"

text \<open>The server with its reader attached to the tier behind the store.\<close>

definition attach :: "('t \<Rightarrow> coldReader) \<Rightarrow> ('p, 't, 'q) Server \<Rightarrow> ('p, 't, 'q) Server" where
  "attach get s = s\<lparr>sv_cold := Some (get (s_sink (sv_store s)))\<rparr>"

text \<open>
  The steps: a call, the evictor taking a signal, picking a victim, collecting idle keys or evicting its next
  key, and background work of the tier. The third component is the set of blocks written so far.
\<close>

inductive sys_step ::
  "'p EvictionPolicy \<Rightarrow> ('t \<Rightarrow> coldReader) \<Rightarrow> ('t \<Rightarrow> 't \<Rightarrow> bool)
     \<Rightarrow> ('p, 't, 'q) Server \<times> BlockHash list \<times> written set \<Rightarrow> ('p, 't, 'q) Server \<times> BlockHash list \<times> written set \<Rightarrow> bool"
  for P get background where
  call: "\<forall>(m, h, toks, kv) \<in> rpc_writes c. length toks < 2 ^ 32 \<Longrightarrow>
    sys_step P get background (s, q, W) (serve P c (attach get s), q, W \<union> rpc_writes c)"
| receive: "sys_step P get background (s, q, W) (s\<lparr>sv_store := (sv_store s)\<lparr>s_evictSig := False\<rparr>\<rparr>, q, W)"
| pick: "Victim P (s_policy (sv_store s)) = (p, v) \<Longrightarrow>
    sys_step P get background (s, [], W) (s\<lparr>sv_store := (sv_store s)\<lparr>s_policy := p\<rparr>\<rparr>, (case v of None \<Rightarrow> [] | Some k \<Rightarrow> [k]), W)"
| collect: "st \<in> set (s_stripes (sv_store s)) \<Longrightarrow>
    sys_step P get background (s, q, W) (s, q @ map fst (filter (\<lambda>(h, e). idleSince e < cutoff) st), W)"
| evict_next: "sys_step P get background (s, k # q, W) (s\<lparr>sv_store := snd (evict P k (sv_store s))\<rparr>, q, W)"
| work: "background (s_sink (sv_store s)) t \<Longrightarrow>
    sys_step P get background (s, q, W) (s\<lparr>sv_store := (sv_store s)\<lparr>s_sink := t\<rparr>\<rparr>, q, W)"

definition genuine :: "written set \<Rightarrow> BlockHash \<Rightarrow> Entry \<Rightarrow> bool" where
  "genuine W h e \<longleftrightarrow> length h = 32 \<and> length (e_TokenIDs e) < 2 ^ 32 \<and> block_of h e \<in> W"

definition genuine_store :: "written set \<Rightarrow> ('p, 't) Store \<Rightarrow> bool" where
  "genuine_store W s \<longleftrightarrow> store_wf s \<and> (\<forall>k e. contents s k = Some e \<longrightarrow> genuine W (e_WireHash e) e)"

lemma genuine_store_put:
  assumes "genuine_store W s" and "contents s' = (contents s)(k \<mapsto> storedEntry h e v c)" and "store_wf s'" and "genuine W h e"
  shows "genuine_store W s'"
  using assms by (auto simp: genuine_store_def genuine_def block_of_def)

lemma store_op_genuine:
  assumes "store_op P E s s'" and "genuine_store W s" and "\<forall>(h, e) \<in> E. genuine W h e"
  shows "genuine_store W s'"
  using assms(1)
proof (cases rule: store_op.cases)
  case (op_get now model h)
  then show ?thesis
    using assms(2) Get_contents [of s P now model h] by (auto simp: genuine_store_def genuine_def block_of_def split: option.splits if_splits dest: find_entry_Some)
next
  case (op_put h e now)
  then show ?thesis
    using assms(2,3) Put_contents(1,2) [OF _ refl, of s P now h e]
    by (intro genuine_store_put [OF assms(2)]) (auto simp: genuine_store_def)
next
  case (op_putv h e now v)
  have wf: "store_wf s" using assms(2) by (simp add: genuine_store_def)
  have "genuine_store W (publish P (storeKey (e_ModelID e) h) (storedEntry h e v c)
      (case contents s (storeKey (e_ModelID e) h) of None \<Rightarrow> 0 | Some e' \<Rightarrow> e_SizeBytes e') s)" for c
    using publish_effect(1,2) [OF wf storedEntry_filed refl] op_putv assms(3)
    by (intro genuine_store_put [OF assms(2)]) auto
  then show ?thesis using op_putv assms(2) by (auto simp: PutWithVersion_effect Let_def)
next
  case (op_delete model h)
  then show ?thesis
    using assms(2) Delete_effect [of s P model h] by (auto simp: genuine_store_def split: if_splits)
qed

lemma signalEvict_hook [simp]: "s_sink (signalEvict P s) = s_sink s" "s_spill (signalEvict P s) = s_spill s"
  by (simp_all add: signalEvict_def Let_def)

lemma store_op_hook: "store_op P E s s' \<Longrightarrow> s_sink s' = s_sink s \<and> s_spill s' = s_spill s"
  by (elim store_op.cases)
    (simp_all add: Get_effect Put_effect PutWithVersion_effect publish_def Delete_def Let_def split: option.split)

lemma store_ops_genuine:
  assumes "(store_op P E)\<^sup>*\<^sup>* s s'" and "genuine_store W s" and "\<forall>(h, e) \<in> E. genuine W h e"
  shows "genuine_store W s' \<and> s_sink s' = s_sink s \<and> s_spill s' = s_spill s"
  using assms(1)
proof (induction rule: rtranclp_induct)
  case (step t u)
  then show ?case using store_op_genuine [OF _ _ assms(3)] store_op_hook by metis
qed (use assms(2) in simp)

lemma genuine_store_mono: "genuine_store W s \<Longrightarrow> W \<subseteq> W' \<Longrightarrow> genuine_store W' s"
  by (auto simp: genuine_store_def genuine_def)

lemma genuine_store_cong: "s_stripes s' = s_stripes s \<Longrightarrow> s_totalBytes s' = s_totalBytes s \<Longrightarrow> genuine_store W s' \<longleftrightarrow> genuine_store W s"
  using stripe_cong [of s' s] by (simp add: genuine_store_def store_wf_def)

text \<open>Everything resident, spilled or stored cold comes from a written block.\<close>

definition cold_genuine :: "written set \<Rightarrow> cold_block set \<Rightarrow> bool" where
  "cold_genuine W B \<longleftrightarrow> (\<forall>model h ver toks kv. (model, h, ver, toks, kv) \<in> B \<longrightarrow>
     length toks < 2 ^ 32 \<and> (model, h, toks, kv) \<in> W)"

context spill_tier
begin

definition sys_inv :: "written set \<Rightarrow> ('p, 't, 'q) Server \<Rightarrow> bool" where
  "sys_inv W s \<longleftrightarrow> genuine_store W (sv_store s) \<and> inv (s_sink (sv_store s)) \<and>
     cold_genuine W (spilled (s_sink (sv_store s))) \<and> s_spill (sv_store s) \<in> {None, Some spill}"

lemma readmitted_genuine:
  assumes "inv t" and "cold_genuine W (spilled t)"
  shows "\<forall>(h, e) \<in> readmitted (Some (get t)). genuine W h e"
proof (clarify)
  fix h e assume "(h, e) \<in> readmitted (Some (get t))"
  then obtain model kv ver toks where e: "e = newEntry model kv toks [] 0" "length h = 32" "get t model h = Inr (Some (kv, ver, toks))"
    by (auto simp: readmitted_def)
  then have "(model, h, ver, toks, kv) \<in> spilled t" using get_law assms(1) by blast
  then have "length toks < 2 ^ 32 \<and> (model, h, toks, kv) \<in> W" using assms(2) unfolding cold_genuine_def by blast
  then show "genuine W h e" using e by (simp add: genuine_def block_of_def newEntry_def)
qed

lemma streamed_genuine:
  assumes "\<forall>(m, h, toks, kv) \<in> {block_of h e |h e. (h, e) \<in> streamed msgs fin}. length toks < 2 ^ 32"
  shows "\<forall>(h, e) \<in> streamed msgs fin. genuine (W \<union> {block_of h e |h e. (h, e) \<in> streamed msgs fin}) h e"
proof clarify
  fix h e assume he: "(h, e) \<in> streamed msgs fin"
  then have "length h = 32" by (auto simp: streamed_def split: sum.splits prod.splits if_splits)
  moreover have "block_of h e \<in> {block_of h e |h e. (h, e) \<in> streamed msgs fin}" using he by blast
  ultimately show "genuine (W \<union> {block_of h e |h e. (h, e) \<in> streamed msgs fin}) h e"
    using assms by (fastforce simp: genuine_def block_of_def)
qed

lemma call_inv:
  assumes "sys_inv W s" and "\<forall>(m, h, toks, kv) \<in> rpc_writes c. length toks < 2 ^ 32"
  shows "sys_inv (W \<union> rpc_writes c) (serve P c (attach get s))"
proof -
  let ?W = "W \<union> rpc_writes c" and ?a = "attach get s" and ?t = "s_sink (sv_store s)"
  have a: "sv_store ?a = sv_store s" "sv_cold ?a = Some (get ?t)" by (simp_all add: attach_def)
  have g: "genuine_store ?W (sv_store s)"
    using assms(1) by (intro genuine_store_mono [OF _ Un_upper1]) (simp add: sys_inv_def)
  have cold: "cold_genuine ?W (spilled ?t)" using assms(1) unfolding sys_inv_def cold_genuine_def by blast
  have "\<forall>(h, e) \<in> rpc_entries c (Some (get ?t)). genuine ?W h e"
    using readmitted_genuine [OF _ cold] assms streamed_genuine by (cases c) (auto simp: sys_inv_def)
  then have "genuine_store ?W (sv_store (serve P c ?a)) \<and> s_sink (sv_store (serve P c ?a)) = ?t \<and>
      s_spill (sv_store (serve P c ?a)) = s_spill (sv_store s)"
    using store_ops_genuine [of P "rpc_entries c (sv_cold ?a)" "sv_store ?a" "sv_store (serve P c ?a)" ?W] serve_ops [of P c ?a] g a
    by simp
  then show ?thesis using cold assms(1) by (auto simp: sys_inv_def)
qed

lemma evict_inv:
  assumes "sys_inv W s"
  shows "sys_inv W (s\<lparr>sv_store := snd (evict P k (sv_store s))\<rparr>)"
proof -
  let ?s = "sv_store s" and ?s' = "snd (evict P k (sv_store s))"
  have g: "genuine_store W ?s" and i: "inv (s_sink ?s)" and c: "cold_genuine W (spilled (s_sink ?s))" and sp: "s_spill ?s \<in> {None, Some spill}"
    using assms by (simp_all add: sys_inv_def)
  have wf: "store_wf ?s" using g by (simp add: genuine_store_def)
  note ev = evict_effect [OF wf, of P k]
  have g': "genuine_store W ?s'" using ev(1,2) g by (auto simp: genuine_store_def split: if_splits)
  have "inv (s_sink ?s') \<and> cold_genuine W (spilled (s_sink ?s'))"
  proof (cases "contents ?s k = None \<or> s_spill ?s = None")
    case True
    then have "s_sink ?s' = s_sink ?s" using ev(5) by (auto split: option.splits)
    then show ?thesis using i c by simp
  next
    case False
    then obtain e where e: "contents ?s k = Some e" and hook: "s_spill ?s = Some spill" using sp by auto
    let ?t = "spill (e_ModelID e) (e_WireHash e) (e_Version e) (e_TokenIDs e) (e_KV e) (s_sink ?s)"
    have sink: "s_sink ?s' = ?t" using ev(5) e hook by simp
    have gen: "genuine W (e_WireHash e) e" using g e by (simp add: genuine_store_def)
    then have "inv ?t \<and> spilled ?t \<subseteq> insert (e_ModelID e, e_WireHash e, e_Version e, e_TokenIDs e, e_KV e) (spilled (s_sink ?s))"
      by (intro spill_law [OF i]) (simp add: genuine_def)
    then show ?thesis
      using c gen unfolding sink cold_genuine_def genuine_def block_of_def by blast
  qed
  then show ?thesis using g' ev(6) sp by (simp add: sys_inv_def)
qed

lemma sys_step_inv:
  assumes "sys_step P get background (s, q, W) (s', q', W')" and "sys_inv W s"
  shows "sys_inv W' s'"
  using assms(1)
proof (cases rule: sys_step.cases)
  case (call c)
  then show ?thesis using call_inv [OF assms(2)] by simp
next
  case receive
  then show ?thesis using assms(2) by (simp add: sys_inv_def genuine_store_cong [of "(sv_store s)\<lparr>s_evictSig := False\<rparr>" "sv_store s"])
next
  case (pick p v)
  then show ?thesis using assms(2) by (simp add: sys_inv_def genuine_store_cong [of "(sv_store s)\<lparr>s_policy := p\<rparr>" "sv_store s"])
next
  case (collect st cutoff)
  then show ?thesis using assms(2) by simp
next
  case (evict_next k)
  then show ?thesis using evict_inv [OF assms(2)] by simp
next
  case (work t)
  then have "inv t \<and> spilled t \<subseteq> spilled (s_sink (sv_store s))" using background_law [of "s_sink (sv_store s)" t] assms(2) by (simp add: sys_inv_def)
  moreover have "cold_genuine W (spilled t)"
    using calculation assms(2) unfolding sys_inv_def cold_genuine_def by blast
  ultimately show ?thesis
    using work assms(2) by (simp add: sys_inv_def genuine_store_cong [of "(sv_store s)\<lparr>s_sink := t\<rparr>" "sv_store s"])
qed

lemma sys_reachable_inv:
  assumes "(sys_step P get background)\<^sup>*\<^sup>* (s0, q0, W0) (s, q, W)" and "sys_inv W0 s0"
  shows "sys_inv W s"
proof -
  have "sys_inv (snd (snd c)) (fst c)" if "(sys_step P get background)\<^sup>*\<^sup>* (s0, q0, W0) c" for c
    using that
  proof (induction rule: rtranclp_induct)
    case (step c d)
    then show ?case using sys_step_inv by (metis prod.collapse)
  qed (use assms(2) in simp)
  from this [OF assms(1)] show ?thesis by simp
qed

text \<open>A block that answers a request was written under that model and hash, unless two keys collide.\<close>

lemma fetch_value_genuine:
  assumes "sys_inv W s" and "length (fb_BlockHash req) = 32" and "fetch_value model req (attach get s) = Some kv"
  shows "(\<exists>toks. (model, fb_BlockHash req, toks, kv) \<in> W \<and> (fb_TokenIds req = [] \<or> fb_TokenIds req = toks)) \<or>
    (\<exists>m h toks kv'. (m, h, toks, kv') \<in> W \<and> key_collision model (fb_BlockHash req) m h)"
proof (cases "find_entry model (fb_BlockHash req) (sv_store s)")
  case (Some e)
  have v: "kv = e_KV e" "fb_TokenIds req = [] \<or> fb_TokenIds req = e_TokenIDs e"
    using assms(3) Some by (auto simp: fetch_value_def attach_def matches_def split: if_splits)
  have c: "contents (sv_store s) (storeKey model (fb_BlockHash req)) = Some e" "e_ModelID e = model"
    using find_entry_Some [OF Some] by simp_all
  have g: "genuine W (e_WireHash e) e" and wf: "store_wf (sv_store s)"
    using assms(1) c(1) by (auto simp: sys_inv_def genuine_store_def)
  have "storeKey model (fb_BlockHash req) = storeKey (e_ModelID e) (e_WireHash e)"
    using store_wfD(3) [OF wf c(1)] by (simp add: entry_filed_def)
  then have "fb_BlockHash req = e_WireHash e \<or> key_collision model (fb_BlockHash req) (e_ModelID e) (e_WireHash e)"
    using storeKey_eq [OF assms(2), of "e_WireHash e"] g by (auto simp: genuine_def)
  moreover have "(model, e_WireHash e, e_TokenIDs e, kv) \<in> W" using g c(2) v(1) by (simp add: genuine_def block_of_def)
  ultimately show ?thesis using v(2) c(2) by metis
next
  case None
  then obtain ver toks where "get (s_sink (sv_store s)) model (fb_BlockHash req) = Inr (Some (kv, ver, toks))"
      and toks: "fb_TokenIds req = [] \<or> fb_TokenIds req = toks"
    using assms(3) by (auto simp: fetch_value_def attach_def matches_def split: sum.splits option.splits if_splits)
  then have "(model, fb_BlockHash req, ver, toks, kv) \<in> spilled (s_sink (sv_store s))"
    using get_law assms(1,2) by (simp add: sys_inv_def)
  then have "(model, fb_BlockHash req, toks, kv) \<in> W" using assms(1) unfolding sys_inv_def cold_genuine_def by blast
  then show ?thesis using toks by blast
qed

lemma fetch_genuine:
  assumes "sys_inv W s" and "fst (srv_Fetch P now err model req (attach get s)) = (None, frames)"
  shows "(\<exists>toks. (model, fb_BlockHash req, toks, concat (map c_Data frames)) \<in> W \<and> (fb_TokenIds req = [] \<or> fb_TokenIds req = toks)) \<or>
    (\<exists>m h toks kv. (m, h, toks, kv) \<in> W \<and> key_collision model (fb_BlockHash req) m h)"
proof -
  let ?a = "attach get s"
  have len: "length (fb_BlockHash req) = 32"
    using assms(2) by (auto simp: srv_Fetch_def toBlockHash_def split: if_splits)
  note r = Fetch_resolve [OF len, of P now err model ?a]
  obtain kv where kv: "fetch_value model req ?a = Some kv" using r assms(2) by (cases "fetch_value model req ?a") auto
  then have "frames = snd (streamKV err kv [])" "fst (streamKV err kv []) = None" using r assms(2) by auto
  then have "concat (map c_Data frames) = kv" using streamKV_prefix [of err kv] by simp
  then show ?thesis using fetch_value_genuine [OF assms(1) len kv] by simp
qed

lemma sys_inv_mono: "sys_inv W s \<Longrightarrow> W \<subseteq> W' \<Longrightarrow> sys_inv W' s"
  using genuine_store_mono unfolding sys_inv_def cold_genuine_def by blast

end

section \<open>Properties\<close>

text \<open>The empty shard over an S3 tier, with the hook main installs.\<close>

definition s3_shard :: "'p \<Rightarrow> string \<Rightarrow> 'q \<Rightarrow> (string \<Rightarrow> GetObjectOutput) \<Rightarrow> int64 \<Rightarrow> ('p, s3_sink, 'q) Server" where
  "s3_shard p bucket q g maxBytes =
     server_New (NewStore p (s3_start bucket, g) [WithMaxBytes maxBytes, WithSpiller s3_spill]) q"

lemma s3_shard_inv:
  assumes "serves_objects Map.empty g"
  shows "s3_sink.sys_inv {} (s3_shard p bucket q g n)"
proof -
  let ?s = "NewStore p (s3_start bucket, g) [WithMaxBytes n, WithSpiller s3_spill]"
  have "s_stripes (opt st) = s_stripes st \<and> s_totalBytes (opt st) = s_totalBytes st"
    if "opt \<in> set [WithMaxBytes n, WithSpiller s3_spill]" for opt and st :: "('a, s3_sink) Store"
    using that by (auto simp: WithMaxBytes_def WithSpiller_def)
  then have "store_wf ?s" "contents ?s = Map.empty" by (intro empty_store_wf NewStore_stripes; assumption)+
  moreover have "s_sink ?s = (s3_start bucket, g)" "s_spill ?s = Some s3_spill"
    by (simp_all add: NewStore_def Let_def WithMaxBytes_def WithSpiller_def)
  moreover have "s3_inv (s3_start bucket)" by (rule s3_reachable_inv [OF rtranclp.rtrancl_refl])
  ultimately show ?thesis
    using assms unfolding s3_sink.sys_inv_def
    by (simp add: s3_shard_def server_New_def genuine_store_def s3_sink_inv_def s3_sink_spilled_def cold_genuine_def)
      (simp add: s3_start_def)
qed

text \<open>
  Property C1: never wrong bytes. In every state of a shard, with writes, replication, fetches, evictions,
  spills, uploads in any order and failures interleaving freely, the bytes a fetch streams for a model and hash
  are the payload of a block that was written under that model and hash, with the requested tokens, unless
  SHA-256 maps two different keys to one digest.
\<close>

theorem fetched_bytes_were_written:
  assumes "serves_objects Map.empty g"
    and "(sys_step P s3_get s3_background)\<^sup>*\<^sup>* (s3_shard p bucket q0 g n, [], {}) (s, q, W)"
    and "fst (srv_Fetch P now err model req (attach s3_get s)) = (None, frames)"
  shows "(\<exists>toks. (model, fb_BlockHash req, toks, concat (map c_Data frames)) \<in> W \<and>
        (fb_TokenIds req = [] \<or> fb_TokenIds req = toks)) \<or>
    (\<exists>m h toks kv. (m, h, toks, kv) \<in> W \<and> key_collision model (fb_BlockHash req) m h)"
  by (rule s3_sink.fetch_genuine [OF s3_sink.sys_reachable_inv [OF assms(2) s3_shard_inv [OF assms(1)]] assms(3)])

definition ex_shard :: "(LRUPolicy, s3_sink, unit) Server" where
  "ex_shard = s3_shard NewLRU ''b'' () (\<lambda>_. NoSuchKeyErr) 0"

theorem fetched_bytes_were_written_witness:
  "(\<exists>toks. (''m'', replicate 32 5, toks, [1, 2, 3]) \<in> rpc_writes (WriteRPC 1 (Header ex_header # map Chunk ex_chunks) EOF None)) \<or>
   (\<exists>m h toks kv. (m, h, toks, kv) \<in> rpc_writes (WriteRPC 1 (Header ex_header # map Chunk ex_chunks) EOF None) \<and>
     key_collision ''m'' (replicate 32 5) m h)"
proof -
  let ?msgs = "Header ex_header # map Chunk ex_chunks" and ?buf = "concat (map c_Data ex_chunks)"
  let ?c = "WriteRPC 1 ?msgs EOF None" and ?a = "attach s3_get ex_shard"
  have g: "serves_objects Map.empty (\<lambda>_. NoSuchKeyErr)" by (simp add: serves_objects_def)
  have hdr: "length (wh_BlockHash ex_header) = 32" "unat (wh_TotalSize ex_header) \<le> maxAlloc"
    by (simp_all add: ex_header_def maxAlloc_def)
  note asm = assembleBlock_chunks [OF hdr(2), of ex_chunks]
  have "store_wf (sv_store ex_shard)"
    using s3_shard_inv [OF g, of NewLRU "''b''" "()" 0] by (simp add: ex_shard_def s3_sink.sys_inv_def genuine_store_def)
  then have wf: "store_wf (sv_store ?a)" by (simp add: attach_def)
  have "s_maxBytes (sv_store ex_shard) = 0"
    by (simp add: ex_shard_def s3_shard_def server_New_def NewStore_def Let_def WithMaxBytes_def WithSpiller_def)
  then have room: "\<not> OverHardLimit (len64 ?buf) (sv_store ?a)" by (simp add: attach_def OverHardLimit_def slt64_def)
  have "\<forall>(m, h, toks, kv) \<in> rpc_writes ?c. length toks < 2 ^ 32"
    using asm hdr(1) by (auto simp: streamed_def block_of_def) (simp add: ex_header_def)
  then have step: "(sys_step LRU s3_get s3_background)\<^sup>*\<^sup>* (s3_shard NewLRU ''b'' () (\<lambda>_. NoSuchKeyErr) 0, [], {})
      (serve LRU ?c ?a, [], {} \<union> rpc_writes ?c)"
    unfolding ex_shard_def [symmetric] by (intro r_into_rtranclp sys_step.call)
  let ?s1 = "attach s3_get (serve LRU ?c ?a)"
  have "find_entry (wh_ModelId ex_header) (wh_BlockHash ex_header) (sv_store ?s1) =
      Some (storedEntry (wh_BlockHash ex_header) (header_entry ex_header ?buf)
        (fst (Put LRU 1 (wh_BlockHash ex_header) (Some (header_entry ex_header ?buf)) (sv_store ?a)))
        (put_created 1 (contents (sv_store ?a) (storeKey (wh_ModelId ex_header) (wh_BlockHash ex_header)))))"
    using find_entry_Put_same [OF wf, of "header_entry ex_header ?buf" "wh_BlockHash ex_header" LRU 1]
      Write_admitted(2) [OF asm hdr(1) room, of LRU 1 None] by (simp add: attach_def)
  then have "fetch_value ''m'' ex_req ?s1 = Some ?buf"
    by (simp add: fetch_value_def matches_def ex_req_def ex_header_def)
  then have "fst (srv_Fetch LRU 2 (\<lambda>_. None) ''m'' ex_req ?s1) = (None, fetch_frames ?buf)"
    using Fetch_resolve [of ex_req LRU 2 "\<lambda>_. None" "''m''" ?s1] by (simp add: streamKV_clean ex_req_def)
  from fetched_bytes_were_written [OF g step this] show ?thesis
    by (simp add: ex_req_def del: rpc_writes.simps) (auto simp: ex_chunks_def simp del: rpc_writes.simps)
qed

end
