(* ===== verification/Spot.thy ===== *)
theory Spot
  imports Go_Strings
begin

text \<open>
  \<^verbatim>\<open>internal/spot/spot.go\<close>: the poll of the instance-metadata service for a Spot interruption notice. The
  service is a parameter, a function from requests to outcomes that every poll brings along. The loop is a
  function of the events its \<^verbatim>\<open>select\<close> sees.
\<close>

section \<open>The code\<close>

definition imdsBase :: string where
  "imdsBase = ''http://169.254.169.254''"

definition tokenPath :: string where
  "tokenPath = ''/latest/api/token''"

definition noticePath :: string where
  "noticePath = ''/latest/meta-data/spot/instance-action''"

definition tokenTTL :: string where
  "tokenTTL = ''60''"

text \<open>A request with its one header, and its outcome: the error of building it, of sending it, or the status and the body.\<close>

record http_request =
  hr_method :: string
  hr_url :: string
  hr_header :: "string \<times> string"

record http_outcome =
  ho_new :: "string option"
  ho_do :: "string option"
  ho_status :: nat
  ho_body :: "string + string"

definition tokenRequest :: http_request where
  "tokenRequest = \<lparr>hr_method = ''PUT'', hr_url = imdsBase @ tokenPath, hr_header = (''X-aws-ec2-metadata-token-ttl-seconds'', tokenTTL)\<rparr>"

definition noticeRequest :: "string \<Rightarrow> http_request" where
  "noticeRequest token = \<lparr>hr_method = ''GET'', hr_url = imdsBase @ noticePath, hr_header = (''X-aws-ec2-metadata-token'', token)\<rparr>"

text \<open>The status of the token request is not looked at: whatever body comes back is the token.\<close>

definition fetchToken :: "(http_request \<Rightarrow> http_outcome) \<Rightarrow> string + string" where
  "fetchToken imds =
     (let r = imds tokenRequest
      in case ho_new r of
           Some err \<Rightarrow> Inl err
         | None \<Rightarrow>
             (case ho_do r of
                Some err \<Rightarrow> Inl err
              | None \<Rightarrow> (case ho_body r of Inl err \<Rightarrow> Inl err | Inr body \<Rightarrow> Inr body)))"

definition checkOnce :: "(http_request \<Rightarrow> http_outcome) \<Rightarrow> string + bool" where
  "checkOnce imds =
     (case fetchToken imds of
        Inl err \<Rightarrow> Inl err
      | Inr token \<Rightarrow>
          let r = imds (noticeRequest token)
          in case ho_new r of
               Some err \<Rightarrow> Inl err
             | None \<Rightarrow> (case ho_do r of Some err \<Rightarrow> Inl err | None \<Rightarrow> Inr (ho_status r = 200)))"

datatype spot_event = CtxDone | Poll "http_request \<Rightarrow> http_outcome"

datatype spot_action = LogUnreachable string | LogNotice | OnInterrupt

text \<open>What the loop did on the events, and whether it returned.\<close>

fun watchPolls :: "bool \<Rightarrow> spot_event list \<Rightarrow> spot_action list \<times> bool" where
  "watchPolls loggedUnreachable [] = ([], False)"
| "watchPolls loggedUnreachable (CtxDone # evs) = ([], True)"
| "watchPolls loggedUnreachable (Poll imds # evs) =
     (case checkOnce imds of
        Inl err \<Rightarrow>
          if \<not> loggedUnreachable
          then (case watchPolls True evs of (acts, done) \<Rightarrow> (LogUnreachable err # acts, done))
          else watchPolls loggedUnreachable evs
      | Inr notice \<Rightarrow> if notice then ([LogNotice, OnInterrupt], True) else watchPolls False evs)"

definition Watch :: "spot_event list \<Rightarrow> spot_action list \<times> bool" where
  "Watch evs = watchPolls False evs"

section \<open>The metadata service\<close>

text \<open>
  What the service documents (IMDSv2): a PUT with a lifetime between one second and six hours yields a session token,
  a request without a valid token is refused with 401, and the notice is a page that exists, with status 200, exactly
  when an interruption is scheduled. \<open>tok\<close> is the token it hands out.
\<close>

definition imdsv2 :: "string \<Rightarrow> bool \<Rightarrow> (http_request \<Rightarrow> http_outcome) \<Rightarrow> bool" where
  "imdsv2 tok scheduled imds \<longleftrightarrow>
     (\<forall>req. ho_new (imds req) = None \<and> ho_do (imds req) = None) \<and>
     (\<forall>ttl \<in> {1..21600 :: nat}. ho_body (imds \<lparr>hr_method = ''PUT'', hr_url = ''http://169.254.169.254/latest/api/token'',
        hr_header = (''X-aws-ec2-metadata-token-ttl-seconds'', decimal ttl)\<rparr>) = Inr tok) \<and>
     (\<forall>hdr. ho_status (imds \<lparr>hr_method = ''GET'', hr_url = ''http://169.254.169.254/latest/meta-data/spot/instance-action'', hr_header = hdr\<rparr>) =
        (if hdr \<noteq> (''X-aws-ec2-metadata-token'', tok) then 401 else if scheduled then 200 else 404))"

text \<open>A poll asks such a service correctly and learns whether an interruption is scheduled.\<close>

lemma checkOnce_imdsv2:
  assumes "imdsv2 tok scheduled imds"
  shows "checkOnce imds = Inr scheduled"
proof -
  have "decimal 60 = tokenTTL" by (simp add: tokenTTL_def decimal.simps) code_simp
  then have "ho_body (imds tokenRequest) = Inr tok"
    using assms unfolding imdsv2_def tokenRequest_def imdsBase_def tokenPath_def by (auto dest: bspec [of _ _ 60])
  moreover have "ho_status (imds (noticeRequest tok)) = (if scheduled then 200 else 404)"
    using assms by (simp add: imdsv2_def noticeRequest_def imdsBase_def noticePath_def)
  ultimately show ?thesis using assms by (simp add: imdsv2_def checkOnce_def fetchToken_def Let_def)
qed

section \<open>Exactly one interrupt\<close>

definition polls_notice :: "spot_event \<Rightarrow> bool" where
  "polls_notice ev = (case ev of CtxDone \<Rightarrow> False | Poll imds \<Rightarrow> checkOnce imds = Inr True)"

text \<open>The events before the first notice or the end of the context.\<close>

definition quiet :: "spot_event list \<Rightarrow> bool" where
  "quiet evs \<longleftrightarrow> (\<forall>ev \<in> set evs. ev \<noteq> CtxDone \<and> \<not> polls_notice ev)"

lemma watchPolls_quiet:
  assumes "quiet evs"
  obtains acts logged' where "\<And>evs'. watchPolls logged (evs @ evs') = (case watchPolls logged' evs' of (as, d) \<Rightarrow> (acts @ as, d))"
    and "OnInterrupt \<notin> set acts"
  using assms
proof (induction evs arbitrary: logged thesis)
  case Nil
  show ?case by (rule Nil.prems(1) [of "[]" logged]) simp_all
next
  case (Cons ev evs)
  have q: "quiet evs" and ev: "ev \<noteq> CtxDone" "\<not> polls_notice ev" using Cons.prems(2) by (simp_all add: quiet_def)
  obtain imds where e: "ev = Poll imds" using ev(1) by (cases ev) simp_all
  show ?case
  proof (cases "checkOnce imds")
    case (Inl err)
    obtain acts l where s: "\<And>evs'. watchPolls True (evs @ evs') = (case watchPolls l evs' of (as, d) \<Rightarrow> (acts @ as, d))" "OnInterrupt \<notin> set acts"
      using Cons.IH [OF _ q] by blast
    show ?thesis
      by (rule Cons.prems(1) [of "(if logged then [] else [LogUnreachable err]) @ acts" l])
        (use s Inl e in \<open>auto split: prod.split\<close>)
  next
    case (Inr b)
    then have b: "\<not> b" using ev(2) e by (simp add: polls_notice_def)
    obtain acts l where s: "\<And>evs'. watchPolls False (evs @ evs') = (case watchPolls l evs' of (as, d) \<Rightarrow> (acts @ as, d))" "OnInterrupt \<notin> set acts"
      using Cons.IH [OF _ q] by blast
    show ?thesis by (rule Cons.prems(1) [of acts l]) (use s Inr e b in simp_all)
  qed
qed

lemma Watch_cases:
  shows "quiet evs \<Longrightarrow> OnInterrupt \<notin> set (fst (Watch evs)) \<and> \<not> snd (Watch evs)"
    and "quiet evs \<Longrightarrow> OnInterrupt \<notin> set (fst (Watch (evs @ CtxDone # evs'))) \<and> snd (Watch (evs @ CtxDone # evs'))"
    and "quiet evs \<Longrightarrow> polls_notice ev \<Longrightarrow> \<exists>acts. Watch (evs @ ev # evs') = (acts @ [OnInterrupt], True) \<and> OnInterrupt \<notin> set acts"
proof -
  assume q: "quiet evs"
  obtain acts l where s: "\<And>evs'. watchPolls False (evs @ evs') = (case watchPolls l evs' of (as, d) \<Rightarrow> (acts @ as, d))" "OnInterrupt \<notin> set acts"
    using watchPolls_quiet [OF q] by blast
  show "OnInterrupt \<notin> set (fst (Watch evs)) \<and> \<not> snd (Watch evs)" using s(1) [of "[]"] s(2) by (simp add: Watch_def)
  show "OnInterrupt \<notin> set (fst (Watch (evs @ CtxDone # evs'))) \<and> snd (Watch (evs @ CtxDone # evs'))"
    using s(1) [of "CtxDone # evs'"] s(2) by (simp add: Watch_def)
  assume "polls_notice ev"
  then have "Watch (evs @ ev # evs') = ((acts @ [LogNotice]) @ [OnInterrupt], True)"
    using s(1) [of "ev # evs'"] by (cases ev) (simp_all add: Watch_def polls_notice_def)
  then show "\<exists>acts. Watch (evs @ ev # evs') = (acts @ [OnInterrupt], True) \<and> OnInterrupt \<notin> set acts"
    using s(2) by (intro exI [of _ "acts @ [LogNotice]"]) simp
qed

end
