(* ===== verification/Metrics.thy ===== *)
theory Metrics
  imports Server_Correct
begin

text \<open>
  \<^verbatim>\<open>internal/metrics/metrics.go\<close>: the instrumentation. Prometheus is a library: the state is the list of the calls
  made on its collectors, with the labels each call passes. The lemmas show that the interceptors are transparent
  and count every call once, and that the labels the server passes stay within a small fixed set, which is what keeps
  the number of time series bounded.
\<close>

section \<open>The code\<close>

datatype collector = RpcDuration | RpcTotal | CacheReqs | Evictions | ResidentBytes | ResidentEntries | Replication | ReplicaQueued

datatype collector_op = Inc | Add f64 | Observe f64 | SetGauge f64

text \<open>
  What is registered: the kind of a collector, its full name and the names of its labels. Registering a
  name twice panics, which is \<^term>\<open>None\<close>. The help texts and the histogram buckets are left out.
\<close>

datatype collector_kind = Histogram | Counter | Gauge

record desc =
  ds_collector :: collector
  ds_kind :: collector_kind
  ds_name :: string
  ds_labels :: "string list"

fun MustRegister :: "desc list \<Rightarrow> desc list \<Rightarrow> desc list option" where
  "MustRegister reg [] = Some reg"
| "MustRegister reg (d # ds) = (if ds_name d \<in> ds_name ` set reg then None else MustRegister (reg @ [d]) ds)"

definition fqName :: "string \<Rightarrow> string" where
  "fqName name = ''kvcache'' @ ''_'' @ name"

definition metrics_New :: "desc list option" where
  "metrics_New = MustRegister []
     [\<lparr>ds_collector = RpcDuration, ds_kind = Histogram, ds_name = fqName ''grpc_request_duration_seconds'', ds_labels = [''method'']\<rparr>,
      \<lparr>ds_collector = RpcTotal, ds_kind = Counter, ds_name = fqName ''grpc_requests_total'', ds_labels = [''method'', ''code'']\<rparr>,
      \<lparr>ds_collector = CacheReqs, ds_kind = Counter, ds_name = fqName ''cache_requests_total'', ds_labels = [''op'', ''result'']\<rparr>,
      \<lparr>ds_collector = Evictions, ds_kind = Counter, ds_name = fqName ''evictions_total'', ds_labels = [''reason'']\<rparr>,
      \<lparr>ds_collector = ResidentBytes, ds_kind = Gauge, ds_name = fqName ''resident_bytes'', ds_labels = []\<rparr>,
      \<lparr>ds_collector = ResidentEntries, ds_kind = Gauge, ds_name = fqName ''resident_entries'', ds_labels = []\<rparr>,
      \<lparr>ds_collector = Replication, ds_kind = Counter, ds_name = fqName ''replication_total'', ds_labels = [''result'']\<rparr>,
      \<lparr>ds_collector = ReplicaQueued, ds_kind = Gauge, ds_name = fqName ''replication_queue_depth'', ds_labels = []\<rparr>]"

type_synonym Metrics = "(collector \<times> string list \<times> collector_op) list"

text \<open>\<^verbatim>\<open>Duration.Seconds\<close>.\<close>

definition Seconds :: "duration \<Rightarrow> f64" where
  "Seconds d = f64_of_int (sgn d * (\<bar>d\<bar> div 10 ^ 9)) + f64_of_int (sgn d * (\<bar>d\<bar> mod 10 ^ 9)) / f64_of_int (10 ^ 9)"

definition observe :: "string \<Rightarrow> string \<Rightarrow> duration \<Rightarrow> Metrics \<Rightarrow> Metrics" where
  "observe method code d m = m @ [(RpcDuration, [method], Observe (Seconds d)), (RpcTotal, [method, code], Inc)]"

text \<open>
  The interceptors around a handler that takes some time: \<open>codeOf\<close> is \<^verbatim>\<open>status.Code(err).String()\<close>. A handler acts on
  the state \<open>'s\<close>, which the interceptor does not touch.
\<close>

definition UnaryInterceptor ::
  "('e option \<Rightarrow> string) \<Rightarrow> string \<Rightarrow> duration \<Rightarrow> ('s \<Rightarrow> ('r \<times> 'e option) \<times> 's) \<Rightarrow> 's \<times> Metrics \<Rightarrow> ('r \<times> 'e option) \<times> 's \<times> Metrics" where
  "UnaryInterceptor codeOf method d handler = (\<lambda>(s, m).
     case handler s of ((resp, err), s') \<Rightarrow> ((resp, err), s', observe method (codeOf err) d m))"

definition StreamInterceptor ::
  "('e option \<Rightarrow> string) \<Rightarrow> string \<Rightarrow> duration \<Rightarrow> ('s \<Rightarrow> 'e option \<times> 's) \<Rightarrow> 's \<times> Metrics \<Rightarrow> 'e option \<times> 's \<times> Metrics" where
  "StreamInterceptor codeOf method d handler = (\<lambda>(s, m).
     case handler s of (err, s') \<Rightarrow> (err, s', observe method (codeOf err) d m))"

definition Hit :: "string \<Rightarrow> Metrics \<Rightarrow> Metrics" where
  "Hit op m = m @ [(CacheReqs, [op, ''hit''], Inc)]"

definition Miss :: "string \<Rightarrow> Metrics \<Rightarrow> Metrics" where
  "Miss op m = m @ [(CacheReqs, [op, ''miss''], Inc)]"

definition Eviction :: "string \<Rightarrow> int \<Rightarrow> Metrics \<Rightarrow> Metrics" where
  "Eviction reason n m = (if 0 < n then m @ [(Evictions, [reason], Add (f64_of_int n))] else m)"

definition Replica :: "string \<Rightarrow> Metrics \<Rightarrow> Metrics" where
  "Replica result m = m @ [(Replication, [result], Inc)]"

definition SetResident :: "int64 \<Rightarrow> int \<Rightarrow> Metrics \<Rightarrow> Metrics" where
  "SetResident bytes entries m =
     m @ [(ResidentBytes, [], SetGauge (f64_of_int (sint bytes))), (ResidentEntries, [], SetGauge (f64_of_int entries))]"

definition SetReplicaQueueDepth :: "int \<Rightarrow> Metrics \<Rightarrow> Metrics" where
  "SetReplicaQueueDepth n m = m @ [(ReplicaQueued, [], SetGauge (f64_of_int n))]"

section \<open>Well-typed calls\<close>

text \<open>
  A call on a collector panics in the library when the number of labels differs from the registered one or
  when a counter is decreased; the kinds are enforced by the types of the collectors.
\<close>

fun op_ok :: "collector_kind \<Rightarrow> collector_op \<Rightarrow> bool" where
  "op_ok Counter Inc = True"
| "op_ok Counter (Add x) = (0 \<le> x)"
| "op_ok Histogram (Observe x) = True"
| "op_ok Gauge (SetGauge x) = True"
| "op_ok _ _ = False"

fun call_ok :: "desc list \<Rightarrow> collector \<times> string list \<times> collector_op \<Rightarrow> bool" where
  "call_ok reg (c, labels, op) = list_ex (\<lambda>d. ds_collector d = c \<and> length labels = length (ds_labels d) \<and> op_ok (ds_kind d) op) reg"

definition typed :: "Metrics \<Rightarrow> bool" where
  "typed m \<longleftrightarrow> (\<exists>reg. metrics_New = Some reg \<and> list_all (call_ok reg) m)"

lemmas metrics_calls = observe_def Hit_def Miss_def Eviction_def Replica_def SetResident_def SetReplicaQueueDepth_def

lemma typed_append: "typed m \<Longrightarrow> (\<And>reg. metrics_New = Some reg \<Longrightarrow> list_all (call_ok reg) cs) \<Longrightarrow> typed (m @ cs)"
  by (auto simp: typed_def)

lemma typed_calls:
  assumes "typed m"
  shows "typed (observe method code d m)" "typed (Hit op m)" "typed (Miss op m)" "typed (Eviction reason n m)"
    "typed (Replica result m)" "typed (SetResident bytes entries m)" "typed (SetReplicaQueueDepth k m)"
  using assms by (auto simp: metrics_calls metrics_New_def fqName_def f64_of_int_def rnd_nonneg intro!: typed_append)

section \<open>Interceptors\<close>

text \<open>The interceptors return what the handler returned and leave its state alone.\<close>

lemma UnaryInterceptor_transparent:
  "UnaryInterceptor codeOf method d handler (s, m) =
     (fst (handler s), snd (handler s), observe method (codeOf (snd (fst (handler s)))) d m)"
  by (simp add: UnaryInterceptor_def split_def)

lemma StreamInterceptor_transparent:
  "StreamInterceptor codeOf method d handler (s, m) = (fst (handler s), snd (handler s), observe method (codeOf (fst (handler s))) d m)"
  by (simp add: StreamInterceptor_def split_def)

section \<open>Bounded labels\<close>

text \<open>The sink the server reports its events to.\<close>

fun sink :: "metric \<Rightarrow> Metrics \<Rightarrow> Metrics" where
  "sink (MHit op) m = Hit op m"
| "sink (MMiss op) m = Miss op m"
| "sink (MEviction reason n) m = Eviction reason (int n) m"
| "sink (MReplica result) m = Replica result m"

definition server_events :: "metric set" where
  "server_events = (MHit ` {''lookup'', ''fetch'', ''fetch_cold'', ''batch_fetch''}) \<union>
     (MMiss ` {''lookup'', ''fetch'', ''batch_fetch''}) \<union> {MEviction ''manual'' 1}"

definition bounded :: "('p, 'x, 'q) Server \<Rightarrow> bool" where
  "bounded s \<longleftrightarrow> (\<forall>evs. sv_metrics s = Some evs \<longrightarrow> set evs \<subseteq> server_events)"

lemma bounded_emit [simp]: "bounded s \<Longrightarrow> ev \<in> server_events \<Longrightarrow> bounded (emit ev s)"
  by (auto simp: bounded_def emit_def)

lemma bounded_upd [simp]: "bounded (s\<lparr>sv_store := st\<rparr>) = bounded s" "bounded (s\<lparr>sv_queue := q\<rparr>) = bounded s"
  by (simp_all add: bounded_def)

lemma server_events_simps [simp]:
  "MHit ''lookup'' \<in> server_events" "MHit ''fetch'' \<in> server_events" "MHit ''fetch_cold'' \<in> server_events"
  "MHit ''batch_fetch'' \<in> server_events" "MMiss ''lookup'' \<in> server_events" "MMiss ''fetch'' \<in> server_events"
  "MMiss ''batch_fetch'' \<in> server_events" "MEviction ''manual'' (Suc 0) \<in> server_events"
  by (simp_all add: server_events_def)

lemma bounded_Lookup: "bounded s \<Longrightarrow> bounded (snd (srv_Lookup model hs s))"
proof -
  have "bounded (snd (fold (\<lambda>hb (blocks, s). let (bp, s') = lookupOne model hb s in (blocks @ [bp], s')) hs (bs, s)))"
    if "bounded s" for bs and s :: "('p, 'x, 'q) Server"
    using that
  proof (induction hs arbitrary: bs s)
    case (Cons hb hs)
    have "bounded (snd (lookupOne model hb s))" using Cons.prems by (simp add: lookupOne_def Let_def split: option.split)
    then show ?case using Cons.IH by (simp add: split_def Let_def)
  qed simp
  then show "bounded s \<Longrightarrow> bounded (snd (srv_Lookup model hs s))" by (simp add: srv_Lookup_def)
qed

lemma bounded_coldHit: "bounded s \<Longrightarrow> bounded (snd (coldHit P now model h version toks s))"
  by (auto simp: coldHit_def Let_def split: option.splits sum.splits prod.splits)

lemma bounded_Fetch: "bounded s \<Longrightarrow> bounded (snd (srv_Fetch P now err model req s))"
proof -
  assume b: "bounded s"
  have "bounded s2" if "coldHit P now model h v toks (s\<lparr>sv_store := st\<rparr>) = (r, s2)" for h v toks st r s2
    using bounded_coldHit [of "s\<lparr>sv_store := st\<rparr>" P now model h v toks] that b by simp
  then show "bounded (snd (srv_Fetch P now err model req s))"
    using b by (auto simp: srv_Fetch_def Let_def split: option.splits prod.splits)
qed

lemma bounded_batchResolve: "bounded s \<Longrightarrow> bounded (snd (batchResolve P now model fb h s))"
  by (auto simp: batchResolve_def Let_def split_def bounded_coldHit split: option.splits)

lemma bounded_batchLoop: "bounded s \<Longrightarrow> bounded (snd (batchLoop P now err model i fbs sent s))"
proof (induction fbs arbitrary: i sent s)
  case (Cons fb fbs)
  have "bounded (snd (case toBlockHash (fb_BlockHash fb) of None \<Rightarrow> (None, s) | Some h \<Rightarrow> batchResolve P now model fb h s))"
    using Cons.prems bounded_batchResolve by (auto split: option.split)
  then show ?case using Cons.IH by (auto simp: Let_def split_def split: option.splits prod.splits)
qed simp

lemma bounded_Write: "bounded s \<Longrightarrow> bounded (snd (srv_Write P now msgs fin ack s))"
  by (auto simp: Write_defs Let_def split_def split: sum.splits option.splits)

lemma bounded_Replicate: "bounded s \<Longrightarrow> bounded (snd (srv_Replicate P now msgs fin ack s))"
  by (auto simp: srv_Replicate_def Let_def split_def split: sum.splits option.splits)

lemma bounded_Evict: "bounded s \<Longrightarrow> bounded (snd (srv_Evict P model hb s))"
  by (auto simp: srv_Evict_def Let_def split_def split: option.splits)

lemma server_labels_bounded: "bounded s \<Longrightarrow> bounded (fold (serve P) calls s)"
proof (induction calls arbitrary: s)
  case (Cons c calls)
  have "bounded (serve P c s)"
    using Cons.prems
    by (cases c) (simp_all add: bounded_Lookup bounded_Fetch bounded_batchLoop BatchFetch_def bounded_Write bounded_Replicate bounded_Evict Health_def)
  then show ?case using Cons.IH by simp
qed simp

lemma typed_sink: "typed m \<Longrightarrow> typed (fold sink evs m)"
proof (induction evs arbitrary: m)
  case (Cons ev evs)
  have "typed (sink ev m)" using typed_calls [OF Cons.prems] by (cases ev) simp_all
  then show ?case using Cons.IH by simp
qed simp

text \<open>
  Property C28: instrumentation never panics. The collectors register under distinct names, and every call the
  code makes on one of them passes as many labels as were registered and fits its kind, so no request,
  eviction, replication or poll can bring the process down through its metrics. The calls are those of the
  interceptor around any handler, of the events a server reports, of the evictor's callback and of the gauges.
\<close>

theorem metrics_calls_typed:
  "typed [] \<and>
   (\<forall>m. typed m \<longrightarrow>
      typed (snd (snd (UnaryInterceptor codeOf method d handler (s, m)))) \<and>
      typed (snd (snd (StreamInterceptor codeOf method d shandler (s, m)))) \<and>
      typed (fold sink evs m) \<and> typed (Eviction reason n m) \<and>
      typed (SetReplicaQueueDepth depth (SetResident bytes entries m)))"
proof -
  have "typed []" by (simp add: typed_def metrics_New_def fqName_def)
  then show ?thesis
    by (auto simp: UnaryInterceptor_def StreamInterceptor_def typed_sink typed_calls split_def)
qed

theorem metrics_calls_typed_witness:
  "typed (fold sink [MHit ''fetch'', MEviction ''manual'' 1] (SetReplicaQueueDepth 3 (SetResident 5 1 [])))"
proof -
  have start: "typed []" by (rule conjunct1 [OF metrics_calls_typed])
  note step = metrics_calls_typed [THEN conjunct2, THEN spec, THEN mp]
  have "typed (SetReplicaQueueDepth 3 (SetResident 5 1 []))" by (rule step [OF start, THEN conjunct2, THEN conjunct2, THEN conjunct2, THEN conjunct2])
  then show ?thesis by (rule step [THEN conjunct2, THEN conjunct2, THEN conjunct1])
qed

text \<open>The series a server has caused: collectors with their labels.\<close>

definition series :: "('p, 'x, 'q) Server \<Rightarrow> (collector \<times> string list) set" where
  "series s = (\<lambda>(c, labels, op). (c, labels)) ` set (case sv_metrics s of None \<Rightarrow> [] | Some evs \<Rightarrow> fold sink evs [])"

lemma set_sink: "set (fold sink evs m) = set m \<union> (\<Union>ev \<in> set evs. set (sink ev []))"
proof (induction evs arbitrary: m)
  case (Cons ev evs)
  have "set (sink ev m) = set m \<union> set (sink ev [])" by (cases ev) (auto simp: Hit_def Miss_def Eviction_def Replica_def)
  then show ?case using Cons by auto
qed simp

definition server_series :: "(collector \<times> string list) list" where
  "server_series = map (Pair CacheReqs) [[''lookup'', ''hit''], [''fetch'', ''hit''], [''fetch_cold'', ''hit''], [''batch_fetch'', ''hit''],
     [''lookup'', ''miss''], [''fetch'', ''miss''], [''batch_fetch'', ''miss'']] @ [(Evictions, [''manual''])]"

lemma series_bounded:
  assumes "bounded s"
  shows "series s \<subseteq> set server_series"
proof (cases "sv_metrics s")
  case (Some evs)
  then have "set evs \<subseteq> server_events" using assms by (simp add: bounded_def)
  then have "set (fold sink evs []) \<subseteq> (\<Union>ev \<in> server_events. set (sink ev []))" using set_sink [of evs "[]"] by auto
  moreover have "(\<lambda>(c, labels, op). (c, labels)) ` (\<Union>ev \<in> server_events. set (sink ev [])) \<subseteq> set server_series"
    by (auto simp: server_events_def server_series_def Hit_def Miss_def Eviction_def)
  ultimately show ?thesis unfolding series_def Some option.case by (meson image_mono subset_trans)
qed (simp add: series_def)

text \<open>
  Property C29: label cardinality is bounded. Whatever calls clients make, with whatever models, tenants, hashes and
  payloads, the handlers of a metered server create at most eight time series, all with fixed labels: no request can
  mint a new one.
\<close>

theorem server_series_finite:
  "series (fold (serve P) calls (WithMetrics (Some []) (server_New store q))) \<subseteq> set server_series \<and>
   card (series (fold (serve P) calls (WithMetrics (Some []) (server_New store q)))) \<le> 8"
proof -
  have "bounded (WithMetrics (Some []) (server_New store q))" by (simp add: bounded_def WithMetrics_def)
  then have sub: "series (fold (serve P) calls (WithMetrics (Some []) (server_New store q))) \<subseteq> set server_series"
    by (intro series_bounded server_labels_bounded)
  have "card (set server_series) \<le> 8" using card_length [of server_series] by (simp add: server_series_def)
  then show ?thesis using card_mono [OF finite_set sub] sub by linarith
qed

end
