(* ===== verification/Go_Flags.thy ===== *)
theory Go_Flags
  imports Go_Strings Go_Float64 Cache_Types
begin

text \<open>
  Go's \<^verbatim>\<open>flag\<close> package, as the commands use it: a command line is read flag by flag into a record of values. The
  values are read by \<^verbatim>\<open>strconv\<close> (integers in any Go notation, booleans, floating-point numbers) and by
  \<^verbatim>\<open>time.ParseDuration\<close>. Shown here: printed integers are read back, and a command line of well-formed pairs of a
  flag and its value is read pair by pair.
\<close>

section \<open>Integers in Go notation\<close>

definition lower :: "char \<Rightarrow> char" where
  "lower c = (if 65 \<le> (of_char c :: nat) \<and> (of_char c :: nat) \<le> 90 then char_of (of_char c + 32 :: nat) else c)"

definition digit_value :: "char \<Rightarrow> nat option" where
  "digit_value c =
     (case digit_of c of
        Some d \<Rightarrow> Some d
      | None \<Rightarrow> let n = of_char (lower c) :: nat in if 97 \<le> n \<and> n \<le> 122 then Some (n - 87) else None)"

text \<open>The value of the digits in a base; underscores are skipped here and checked by \<^verbatim>\<open>underscoreOK\<close>.\<close>

fun digits_in :: "nat \<Rightarrow> string \<Rightarrow> nat \<Rightarrow> nat option" where
  "digits_in base [] acc = Some acc"
| "digits_in base (c # cs) acc =
     (if c = CHR ''_'' then digits_in base cs acc
      else case digit_value c of None \<Rightarrow> None | Some d \<Rightarrow> if base \<le> d then None else digits_in base cs (base * acc + d))"

datatype last_seen = Begin | Digit | Underscore | Other

fun underscoreLoop :: "bool \<Rightarrow> last_seen \<Rightarrow> string \<Rightarrow> bool" where
  "underscoreLoop hex saw [] = (saw \<noteq> Underscore)"
| "underscoreLoop hex saw (c # cs) =
     (if digit_of c \<noteq> None \<or> hex \<and> (case digit_value c of None \<Rightarrow> False | Some d \<Rightarrow> d < 16) then underscoreLoop hex Digit cs
      else if c = CHR ''_'' then saw = Digit \<and> underscoreLoop hex Underscore cs
      else saw \<noteq> Underscore \<and> underscoreLoop hex Other cs)"

definition base_prefix :: "string \<Rightarrow> nat option" where
  "base_prefix s =
     (case s of
        z # b # _ \<Rightarrow>
          if z \<noteq> CHR ''0'' then None
          else if lower b = CHR ''b'' then Some 2 else if lower b = CHR ''o'' then Some 8
          else if lower b = CHR ''x'' then Some 16 else None
      | _ \<Rightarrow> None)"

definition strip_sign :: "string \<Rightarrow> bool \<times> string" where
  "strip_sign s = (case s of c # cs \<Rightarrow> if c = CHR ''-'' then (True, cs) else if c = CHR ''+'' then (False, cs) else (False, s)
                   | [] \<Rightarrow> (False, []))"

definition underscoreOK :: "string \<Rightarrow> bool" where
  "underscoreOK s0 =
     (let s = snd (strip_sign s0)
      in case base_prefix s of
           Some b \<Rightarrow> underscoreLoop (b = 16) Digit (drop 2 s)
         | None \<Rightarrow> underscoreLoop False Begin s)"

text \<open>\<^verbatim>\<open>strconv.ParseUint(s, 0, 64)\<close> before the range check, and \<^verbatim>\<open>strconv.ParseInt(s, 0, 64)\<close>.\<close>

definition parse_uint0 :: "string \<Rightarrow> nat option" where
  "parse_uint0 s =
     (if s = [] then None
      else let (base, ds) =
             (if hd s \<noteq> CHR ''0'' then (10, s)
              else case (if 3 \<le> length s then base_prefix s else None) of Some b \<Rightarrow> (b, drop 2 s) | None \<Rightarrow> (8, tl s))
           in case digits_in base ds 0 of
                None \<Rightarrow> None
              | Some n \<Rightarrow> if CHR ''_'' \<in> set ds \<and> \<not> underscoreOK s then None else Some n)"

definition ParseInt0 :: "string \<Rightarrow> int64 option" where
  "ParseInt0 s =
     (let (neg, ds) = strip_sign s
      in case parse_uint0 ds of
           None \<Rightarrow> None
         | Some n \<Rightarrow> if neg then (if n \<le> 2 ^ 63 then Some (- word_of_nat n) else None)
                     else (if n < 2 ^ 63 then Some (word_of_nat n) else None))"

definition ParseBool :: "string \<Rightarrow> bool option" where
  "ParseBool s =
     (if s \<in> set [''1'', ''t'', ''T'', ''TRUE'', ''true'', ''True''] then Some True
      else if s \<in> set [''0'', ''f'', ''F'', ''FALSE'', ''false'', ''False''] then Some False
      else None)"

section \<open>Floating-point numbers\<close>

text \<open>The mantissa: its value as an integer, the digits after the point, whether there was a digit, and the rest.\<close>

fun mantissa :: "nat \<Rightarrow> bool \<Rightarrow> string \<Rightarrow> nat \<times> nat \<times> bool \<Rightarrow> (nat \<times> nat \<times> bool) \<times> string" where
  "mantissa base dot [] acc = (acc, [])"
| "mantissa base dot (c # cs) (m, fr, saw) =
     (if c = CHR ''_'' then mantissa base dot cs (m, fr, saw)
      else if c = CHR ''.'' then (if dot then ((m, fr, saw), c # cs) else mantissa base True cs (m, fr, saw))
      else case digit_value c of
             None \<Rightarrow> ((m, fr, saw), c # cs)
           | Some d \<Rightarrow> if base \<le> d then ((m, fr, saw), c # cs)
                       else mantissa base dot cs (base * m + d, (if dot then fr + 1 else fr), True))"

text \<open>The digits of an exponent, which stops growing beyond ten thousand.\<close>

fun exponent :: "string \<Rightarrow> nat \<Rightarrow> nat \<times> string" where
  "exponent [] e = (e, [])"
| "exponent (c # cs) e =
     (if c = CHR ''_'' then exponent cs e
      else case digit_of c of None \<Rightarrow> (e, c # cs) | Some d \<Rightarrow> exponent cs (if e < 10000 then 10 * e + d else e))"

definition readExponent :: "bool \<Rightarrow> string \<Rightarrow> (int \<times> string) option" where
  "readExponent hex s =
     (if s \<noteq> [] \<and> lower (hd s) = (if hex then CHR ''p'' else CHR ''e'') then
        (let (neg, ds) = strip_sign (tl s)
         in if ds = [] \<or> digit_of (hd ds) = None then None
            else let (e, rest) = exponent ds 0 in Some (if neg then - int e else int e, rest))
      else if hex then None else Some (0, s))"

definition readFloat :: "string \<Rightarrow> rat option" where
  "readFloat s =
     (let (neg, t) = strip_sign s; hex = (3 \<le> length t \<and> base_prefix t = Some 16);
          base = (if hex then 16 else 10);
          ((m, fr, saw), rest) = mantissa base False (if hex then drop 2 t else t) (0, 0, False)
      in if \<not> saw then None
         else case readExponent hex rest of
                None \<Rightarrow> None
              | Some (e, rest') \<Rightarrow>
                  if rest' \<noteq> [] \<or> CHR ''_'' \<in> set s \<and> \<not> underscoreOK s then None
                  else let x = (if hex then rat_of_nat m * pow2 (e - 4 * int fr) else rat_of_nat m * (10 powi (e - int fr)))
                       in Some (if neg then - x else x))"

text \<open>\<^verbatim>\<open>strconv.ParseFloat(s, 64)\<close>; a value out of range is an error.\<close>

definition ParseFloat :: "string \<Rightarrow> f64 option" where
  "ParseFloat s =
     (let (neg, t) = strip_sign s; l = map lower t
      in if l = ''inf'' \<or> l = ''infinity'' then Some (if neg then NInf else PInf)
         else if map lower s = ''nan'' then Some NaN
         else case readFloat s of
                None \<Rightarrow> None
              | Some q \<Rightarrow> (case rnd q of Fin y \<Rightarrow> Some (Fin y) | _ \<Rightarrow> None))"

section \<open>Durations\<close>

text \<open>Nanoseconds per unit; the two spellings of the micro sign are in UTF-8.\<close>

definition unitMap :: "(string \<times> nat) list" where
  "unitMap = [(''ns'', 1), (''us'', 10 ^ 3), ([char_of (194 :: nat), char_of (181 :: nat)] @ ''s'', 10 ^ 3),
     ([char_of (206 :: nat), char_of (188 :: nat)] @ ''s'', 10 ^ 3), (''ms'', 10 ^ 6), (''s'', 10 ^ 9), (''m'', 60 * 10 ^ 9), (''h'', 3600 * 10 ^ 9)]"

definition is_digit :: "char \<Rightarrow> bool" where
  "is_digit c \<longleftrightarrow> digit_of c \<noteq> None"

text \<open>The fraction stops growing before it overflows; the scale is the power of ten read.\<close>

fun leadingFraction :: "bool \<Rightarrow> nat \<Rightarrow> f64 \<Rightarrow> string \<Rightarrow> nat \<times> f64" where
  "leadingFraction overflow x scale [] = (x, scale)"
| "leadingFraction overflow x scale (c # cs) =
     (if overflow then leadingFraction True x scale cs
      else if (2 ^ 63 - 1) div 10 < x then leadingFraction True x scale cs
      else let y = 10 * x + the (digit_of c)
           in if 2 ^ 63 < y then leadingFraction True x scale cs else leadingFraction False y (scale * Fin 10) cs)"

text \<open>One number with its unit: its value and the rest.\<close>

definition durationPart :: "string \<Rightarrow> (nat \<times> string) option" where
  "durationPart s =
     (let whole = takeWhile is_digit s; s1 = dropWhile is_digit s;
          (fracDigits, s2) = (if s1 \<noteq> [] \<and> hd s1 = CHR ''.'' then (takeWhile is_digit (tl s1), dropWhile is_digit (tl s1)) else ([], s1));
          v = the (digits whole 0);
          unitText = takeWhile (\<lambda>c. c \<noteq> CHR ''.'' \<and> \<not> is_digit c) s2; s3 = dropWhile (\<lambda>c. c \<noteq> CHR ''.'' \<and> \<not> is_digit c) s2
      in if 2 ^ 63 < v \<or> whole = [] \<and> fracDigits = [] \<or> unitText = [] then None
         else case map_of unitMap unitText of
                None \<Rightarrow> None
              | Some u \<Rightarrow>
                  if 2 ^ 63 div u < v then None
                  else let (f, scale) = leadingFraction False 0 1 fracDigits;
                           w = v * u + (if 0 < f then unat (int64_of_f64 (f64_of_int (int f) * (f64_of_int (int u) / scale))) else 0)
                       in if 2 ^ 63 < w then None else Some (w, s3))"

lemma durationPart_shorter: "durationPart s = Some (v, t) \<Longrightarrow> length t < length s"
proof -
  assume a: "durationPart s = Some (v, t)"
  let ?p = "\<lambda>c. c \<noteq> CHR ''.'' \<and> \<not> is_digit c"
  define s1 where "s1 = dropWhile is_digit s"
  define s2 where "s2 = (if s1 \<noteq> [] \<and> hd s1 = CHR ''.'' then dropWhile is_digit (tl s1) else s1)"
  have "t = dropWhile ?p s2 \<and> takeWhile ?p s2 \<noteq> []"
    using a by (auto simp: durationPart_def Let_def s1_def s2_def split: if_splits option.splits prod.splits)
  then have "length t < length s2" using takeWhile_dropWhile_id [of ?p s2]
    by (metis length_append less_add_same_cancel2 length_greater_0_conv)
  moreover have "length s1 \<le> length s" by (simp add: s1_def length_dropWhile_le)
  moreover have "length s2 \<le> length s1"
    unfolding s2_def using length_dropWhile_le [of is_digit "tl s1"] by (auto simp: le_diff_conv)
  ultimately show ?thesis by linarith
qed

function durationLoop :: "string \<Rightarrow> nat \<Rightarrow> nat option" where
  "durationLoop s d =
     (if s = [] then Some d
      else if \<not> (hd s = CHR ''.'' \<or> is_digit (hd s)) then None
      else case durationPart s of
             None \<Rightarrow> None
           | Some (v, t) \<Rightarrow> if 2 ^ 63 < d + v then None else durationLoop t (d + v))"
  by pat_completeness auto
termination
  by (relation "measure (\<lambda>(s, d). length s)") (auto dest: durationPart_shorter)

declare durationLoop.simps [simp del]

definition ParseDuration :: "string \<Rightarrow> duration option" where
  "ParseDuration s =
     (let (neg, t) = strip_sign s
      in if t = ''0'' then Some 0
         else if t = [] then None
         else case durationLoop t 0 of
                None \<Rightarrow> None
              | Some d \<Rightarrow> if neg then Some (- int d) else if d < 2 ^ 63 then Some (int d) else None)"

text \<open>\<^verbatim>\<open>Duration.String\<close>: the fraction without trailing zeros, then seconds, minutes and hours as needed.\<close>

fun fracDigits :: "nat \<Rightarrow> nat \<Rightarrow> bool \<Rightarrow> string \<Rightarrow> string" where
  "fracDigits 0 u print acc = (if print then CHR ''.'' # acc else acc)"
| "fracDigits (Suc p) u print acc =
     (let d = u mod 10; print' = (print \<or> d \<noteq> 0)
      in fracDigits p (u div 10) print' (if print' then char_of (48 + d) # acc else acc))"

definition DurationString :: "duration \<Rightarrow> string" where
  "DurationString dur =
     (let u = nat \<bar>dur\<bar>; sign = (if dur < 0 then ''-'' else []);
          small = (\<lambda>p unitText. decimal (u div 10 ^ p) @ fracDigits p u False [] @ unitText)
      in if u = 0 then ''0s''
         else if u < 10 ^ 3 then sign @ small 0 ''ns''
         else if u < 10 ^ 6 then sign @ small 3 ([char_of (194 :: nat), char_of (181 :: nat)] @ ''s'')
         else if u < 10 ^ 9 then sign @ small 6 ''ms''
         else let secs = u div 10 ^ 9; mins = secs div 60; hours = mins div 60
              in sign @ (if 0 < hours then decimal hours @ ''h'' else []) @ (if 0 < mins then decimal (mins mod 60) @ ''m'' else []) @
                 decimal (secs mod 60) @ fracDigits 9 u False [] @ ''s'')"

section \<open>Command lines\<close>

text \<open>A defined flag: its name, whether it is boolean, and how a value is stored (\<^term>\<open>None\<close> if it cannot be read).\<close>

record 'r formal =
  fm_name :: string
  fm_bool :: bool
  fm_set :: "string \<Rightarrow> 'r \<Rightarrow> 'r option"

definition flag_var :: "bool \<Rightarrow> (string \<Rightarrow> 'v option) \<Rightarrow> string \<Rightarrow> (('v \<Rightarrow> 'v) \<Rightarrow> 'r \<Rightarrow> 'r) \<Rightarrow> 'r formal" where
  "flag_var isBool readValue name upd =
     \<lparr>fm_name = name, fm_bool = isBool, fm_set = (\<lambda>v r. map_option (\<lambda>x. upd (\<lambda>_. x) r) (readValue v))\<rparr>"

abbreviation StringVar :: "string \<Rightarrow> ((string \<Rightarrow> string) \<Rightarrow> 'r \<Rightarrow> 'r) \<Rightarrow> 'r formal" where
  "StringVar \<equiv> flag_var False Some"

abbreviation IntVar :: "string \<Rightarrow> ((int \<Rightarrow> int) \<Rightarrow> 'r \<Rightarrow> 'r) \<Rightarrow> 'r formal" where
  "IntVar \<equiv> flag_var False (\<lambda>v. map_option sint (ParseInt0 v))"

abbreviation Int64Var :: "string \<Rightarrow> ((int64 \<Rightarrow> int64) \<Rightarrow> 'r \<Rightarrow> 'r) \<Rightarrow> 'r formal" where
  "Int64Var \<equiv> flag_var False ParseInt0"

abbreviation Float64Var :: "string \<Rightarrow> ((f64 \<Rightarrow> f64) \<Rightarrow> 'r \<Rightarrow> 'r) \<Rightarrow> 'r formal" where
  "Float64Var \<equiv> flag_var False ParseFloat"

abbreviation DurationVar :: "string \<Rightarrow> ((duration \<Rightarrow> duration) \<Rightarrow> 'r \<Rightarrow> 'r) \<Rightarrow> 'r formal" where
  "DurationVar \<equiv> flag_var False ParseDuration"

abbreviation BoolVar :: "string \<Rightarrow> ((bool \<Rightarrow> bool) \<Rightarrow> 'r \<Rightarrow> 'r) \<Rightarrow> 'r formal" where
  "BoolVar \<equiv> flag_var True ParseBool"

datatype flag_error = BadSyntax string | HelpRequested | NotDefined string | NeedsArgument string | InvalidValue string string

text \<open>One flag off a command line, in the shapes \<^verbatim>\<open>-f\<close>, \<^verbatim>\<open>-f=v\<close> and \<^verbatim>\<open>-f v\<close>; \<^term>\<open>Inr None\<close> when no flag is next.\<close>

definition parseOne :: "'r formal list \<Rightarrow> string list \<Rightarrow> 'r \<Rightarrow> flag_error + ('r \<times> string list) option" where
  "parseOne formals args r =
     (case args of
        [] \<Rightarrow> Inr None
      | s # rest \<Rightarrow>
          if length s < 2 \<or> hd s \<noteq> CHR ''-'' \<or> s = ''--'' then Inr None
          else let text = (if s ! 1 = CHR ''-'' then drop 2 s else drop 1 s)
               in if text = [] \<or> hd text = CHR ''-'' \<or> hd text = CHR ''='' then Inl (BadSyntax s)
                  else let (name, value, hasValue) = Cut (CHR ''='') text
                       in case List.find (\<lambda>f. fm_name f = name) formals of
                            None \<Rightarrow> Inl (if name = ''help'' \<or> name = ''h'' then HelpRequested else NotDefined name)
                          | Some f \<Rightarrow>
                              if fm_bool f \<or> hasValue then
                                (let v = (if hasValue then value else ''true'')
                                 in case fm_set f v r of None \<Rightarrow> Inl (InvalidValue v name) | Some r' \<Rightarrow> Inr (Some (r', rest)))
                              else (case rest of
                                      [] \<Rightarrow> Inl (NeedsArgument name)
                                    | v # rest' \<Rightarrow>
                                        (case fm_set f v r of None \<Rightarrow> Inl (InvalidValue v name) | Some r' \<Rightarrow> Inr (Some (r', rest')))))"

lemma parseOne_shorter: "parseOne formals args r = Inr (Some (r', args')) \<Longrightarrow> length args' < length args"
  by (auto simp: parseOne_def Let_def split: list.splits if_splits option.splits prod.splits)

text \<open>\<^verbatim>\<open>flag.Parse\<close>. The arguments that are left are not used by any of the commands.\<close>

function parseFlags :: "'r formal list \<Rightarrow> string list \<Rightarrow> 'r \<Rightarrow> flag_error + 'r" where
  "parseFlags formals args r =
     (case parseOne formals args r of
        Inl err \<Rightarrow> Inl err
      | Inr None \<Rightarrow> Inr r
      | Inr (Some (r', args')) \<Rightarrow> parseFlags formals args' r')"
  by pat_completeness auto
termination
  by (relation "measure (\<lambda>(formals, args, r). length args)") (auto dest: parseOne_shorter)

declare parseFlags.simps [simp del]

text \<open>The process exits on an error; asking for help is no failure.\<close>

fun flagExit :: "flag_error \<Rightarrow> int" where
  "flagExit HelpRequested = 0"
| "flagExit _ = 2"

section \<open>Their laws\<close>

lemma digit_value_digit: "digit_of c = Some d \<Longrightarrow> digit_value c = Some d"
  by (simp add: digit_value_def)

lemma digits_in_ten: "\<forall>c \<in> set cs. digit_of c \<noteq> None \<Longrightarrow> digits_in 10 cs acc = digits cs acc"
proof (induction cs acc rule: digits.induct)
  case (2 c cs acc)
  then obtain d where d: "digit_of c = Some d" by auto
  then have "c \<noteq> CHR ''_'' \<and> d < 10" by (auto simp: digit_of_def Let_def split: if_splits)
  then show ?case using 2 d by (simp add: digit_value_digit)
qed simp

lemma decimal_head: "hd (decimal n) = CHR ''0'' \<Longrightarrow> n = 0"
proof (induction n rule: decimal.induct)
  case (1 n)
  show ?case
  proof (cases "n < 10")
    case True
    have "char_of (48 + n) = CHR ''0'' \<Longrightarrow> n = 0"
      using True digit_of_char [of n] by (auto simp: digit_of_def Let_def)
    then show ?thesis using 1(2) True by (subst (asm) decimal.simps) simp
  next
    case False
    then have "hd (decimal (n div 10)) = CHR ''0''" using 1(2) by (subst (asm) decimal.simps) simp
    then show ?thesis using 1(1) False by simp
  qed
qed

lemma parse_uint0_decimal: "parse_uint0 (decimal n) = Some n"
proof (cases "n = 0")
  case True
  have "char_of (48 :: nat) = CHR ''0''" by code_simp
  then have "decimal 0 = ''0''" by (subst decimal.simps) simp
  then show ?thesis using True by (simp add: parse_uint0_def)
next
  case False
  have "CHR ''_'' \<notin> set (decimal n)" using decimal_digit [of "CHR ''_''" n] by (auto simp: digit_of_def Let_def)
  moreover have "digits_in 10 (decimal n) 0 = Some n"
    using digits_in_ten [of "decimal n"] decimal_digit digits_decimal by metis
  ultimately show ?thesis using False decimal_head [of n] by (auto simp: parse_uint0_def)
qed

lemma strip_sign_decimal: "strip_sign (decimal n) = (False, decimal n)"
proof -
  obtain c cs where d: "decimal n = c # cs" by (cases "decimal n") auto
  then show ?thesis using decimal_digit [of c n] digit_graphic by (auto simp: strip_sign_def)
qed

lemma ParseInt0_Itoa: "- (2 ^ 63) \<le> i \<Longrightarrow> i < 2 ^ 63 \<Longrightarrow> ParseInt0 (Itoa i) = Some (word_of_int i)"
proof (cases "i < 0")
  case True
  assume "- (2 ^ 63) \<le> i"
  then have "nat (- i) \<le> 2 ^ 63" using True by (simp add: nat_le_iff)
  moreover have "- word_of_nat (nat (- i)) = (word_of_int i :: int64)" using True by simp
  ultimately show ?thesis using True by (simp add: ParseInt0_def Itoa_def strip_sign_def parse_uint0_decimal)
next
  case False
  assume "i < 2 ^ 63"
  then have "nat i < 2 ^ 63" using False by (simp add: nat_less_iff)
  then show ?thesis using False by (simp add: ParseInt0_def Itoa_def strip_sign_decimal parse_uint0_decimal)
qed

text \<open>A pair of a flag that takes a value and a value it can read, in front of a command line.\<close>

lemma parseFlags_pair:
  assumes "s = CHR ''-'' # name" and "name \<noteq> []" and "hd name \<noteq> CHR ''-''" and "CHR ''='' \<notin> set name"
    and "List.find (\<lambda>f. fm_name f = name) formals = Some f" and "\<not> fm_bool f" and "fm_set f v r = Some r'"
  shows "parseFlags formals (s # v # args) r = parseFlags formals args r'"
proof -
  have "hd name \<noteq> CHR ''=''" using assms(2,4) by (metis list.set_sel(1))
  moreover have "name ! 0 \<noteq> CHR ''-''" using assms(2,3) by (simp add: hd_conv_nth)
  moreover have "2 \<le> length s" using assms(1,2) by (cases name) simp_all
  ultimately have "parseOne formals (s # v # args) r = Inr (Some (r', args))"
    using assms by (auto simp: parseOne_def Cut_def)
  then show ?thesis by (subst parseFlags.simps) simp
qed

lemma parseFlags_end [simp]: "parseFlags formals [] r = Inr r"
  by (subst parseFlags.simps) (simp add: parseOne_def)

end
