(* ===== verification/Cache_Server.thy ===== *)
theory Cache_Server
  imports Provenance Spot Metrics Go_Flags
begin

text \<open>
  \<^verbatim>\<open>cmd/cache-server/main.go\<close>: how a node is put together and taken down. The eviction policy is an interface
  value, so its state is the sum of the two implementations and every call dispatches on it. Start-up is a
  function of the flags and of the outcomes of the services it calls; it yields the node or the fatal error,
  with the calls made on etcd. Shutdown is the sequence of calls after a stop signal or a Spot notice.
\<close>

section \<open>Flags\<close>

datatype quota_error = BadEntry string | BadQuota string string

fun quotaLoop :: "string list \<Rightarrow> (string, int64) gomap \<Rightarrow> quota_error + (string, int64) gomap" where
  "quotaLoop [] out = Inr out"
| "quotaLoop (pair # pairs) out =
     (let (k0, v, ok) = Cut (CHR ''='') (TrimSpace pair); k = TrimSpace k0
      in if \<not> ok \<or> k = [] then Inl (BadEntry pair)
         else case ParseInt (TrimSpace v) of
                None \<Rightarrow> Inl (BadQuota k v)
              | Some n \<Rightarrow> if sle64 n 0 then Inl (BadQuota k v) else quotaLoop pairs (gm_put k n out))"

text \<open>A nil map reads as the empty one.\<close>

definition parseTenantQuotas :: "string \<Rightarrow> quota_error + (string, int64) gomap" where
  "parseTenantQuotas s0 = (let s = TrimSpace s0 in if s = [] then Inr [] else quotaLoop (Split (CHR '','') s) [])"

definition splitCSV :: "string \<Rightarrow> string list" where
  "splitCSV s = filter (\<lambda>v. v \<noteq> []) (map TrimSpace (Split (CHR '','') s))"

record Flags =
  fl_addr :: string
  fl_advertise :: string
  fl_etcd :: string
  fl_nodeID :: string
  fl_leaseTTL :: int64
  fl_rf :: int
  fl_maxBytes :: int64
  fl_hiWater :: f64
  fl_loWater :: f64
  fl_ttl :: duration
  fl_evictSweep :: duration
  fl_eviction :: string
  fl_tenantQuota :: string
  fl_fairnessWeight :: f64
  fl_coldBucket :: string
  fl_spot :: bool
  fl_metricsAddr :: string

text \<open>The flags as \<^verbatim>\<open>main\<close> defines them, and their defaults.\<close>

definition serverFlags :: "Flags formal list" where
  "serverFlags =
     [StringVar ''addr'' fl_addr_update, StringVar ''advertise'' fl_advertise_update, StringVar ''etcd'' fl_etcd_update,
      StringVar ''node-id'' fl_nodeID_update, Int64Var ''lease-ttl'' fl_leaseTTL_update, IntVar ''rf'' fl_rf_update,
      BoolVar ''spot'' fl_spot_update, Int64Var ''max-bytes'' fl_maxBytes_update, Float64Var ''hi-water'' fl_hiWater_update,
      Float64Var ''lo-water'' fl_loWater_update, DurationVar ''ttl'' fl_ttl_update, DurationVar ''evict-sweep'' fl_evictSweep_update,
      StringVar ''eviction'' fl_eviction_update, StringVar ''tenant-quota'' fl_tenantQuota_update,
      Float64Var ''fairness-weight'' fl_fairnessWeight_update, StringVar ''metrics-addr'' fl_metricsAddr_update,
      StringVar ''cold-bucket'' fl_coldBucket_update]"

definition defaultFlags :: Flags where
  "defaultFlags =
     \<lparr>fl_addr = '':50051'', fl_advertise = [], fl_etcd = [], fl_nodeID = [], fl_leaseTTL = 10, fl_rf = 2, fl_maxBytes = 0,
      fl_hiWater = rnd (90 / 100), fl_loWater = rnd (75 / 100), fl_ttl = 0, fl_evictSweep = 30 * 10 ^ 9, fl_eviction = ''lru'',
      fl_tenantQuota = [], fl_fairnessWeight = 0, fl_coldBucket = [], fl_spot = False, fl_metricsAddr = '':9090''\<rparr>"

definition ringVnodes :: int where
  "ringVnodes = 128"

definition badWatermarks :: "Flags \<Rightarrow> bool" where
  "badWatermarks f \<longleftrightarrow> slt64 0 (fl_maxBytes f) \<and>
     \<not> (0 < fl_hiWater f \<and> fl_hiWater f \<le> 1 \<and> 0 < fl_loWater f \<and> fl_loWater f < fl_hiWater f)"

text \<open>The published address and the node's label on the ring.\<close>

definition identity :: "Flags \<Rightarrow> string \<times> string" where
  "identity f =
     (let adv = (if fl_advertise f = [] then fl_addr f else fl_advertise f);
          ident = (if fl_nodeID f = [] then adv else fl_nodeID f)
      in (adv, ident))"

section \<open>The policy behind the interface\<close>

type_synonym any_policy = "LRUPolicy + GDSFPolicy"

definition AnyPolicy :: "any_policy EvictionPolicy" where
  "AnyPolicy =
     \<lparr>RecordAccess = (\<lambda>h. map_sum (RecordAccess LRU h) (RecordAccess GDSF h)),
      RecordWrite = (\<lambda>m. map_sum (RecordWrite LRU m) (RecordWrite GDSF m)),
      RecordEvict = (\<lambda>h. map_sum (RecordEvict LRU h) (RecordEvict GDSF h)),
      Victim = (\<lambda>p. case p of Inl l \<Rightarrow> map_prod Inl id (Victim LRU l) | Inr g \<Rightarrow> map_prod Inr id (Victim GDSF g)),
      OverQuota = Some (\<lambda>p. case p of Inl l \<Rightarrow> policyOverQuota LRU l | Inr g \<Rightarrow> policyOverQuota GDSF g)\<rparr>"

datatype fatal =
    InvalidWatermarks f64 f64
  | ColdTierFailed string
  | InvalidTenantQuota quota_error
  | InvalidEviction string
  | EtcdDialFailed string
  | EtcdRegisterFailed coord_error
  | RouterPanic
  | WatchMembersFailed coord_error
  | ListenFailed string

definition choosePolicy :: "Flags \<Rightarrow> fatal + any_policy" where
  "choosePolicy f =
     (if fl_eviction f = ''lru'' then Inr (Inl NewLRU)
      else if fl_eviction f = ''gdsf'' then
        (case parseTenantQuotas (fl_tenantQuota f) of
           Inl err \<Rightarrow> Inl (InvalidTenantQuota err)
         | Inr quotas \<Rightarrow> Inr (Inr (NewGDSF quotas)))
      else if fl_eviction f = ''gdsf-elastic'' then
        (case parseTenantQuotas (fl_tenantQuota f) of
           Inl err \<Rightarrow> Inl (InvalidTenantQuota err)
         | Inr quotas \<Rightarrow> Inr (Inr (NewGDSFElastic quotas (fl_fairnessWeight f))))
      else Inl (InvalidEviction (fl_eviction f)))"

section \<open>Start-up\<close>

text \<open>The outcomes of the services: S3 set-up and reads, the etcd calls, the connections made, the listener.\<close>

record 'c Env =
  env_LoadDefaultConfig :: "string option"
  env_GetObject :: "string \<Rightarrow> GetObjectOutput"
  env_Dial :: "string list \<Rightarrow> string option"
  env_Grant :: "string + int64"
  env_Put :: "string option"
  env_KeepAlive :: "string option"
  env_Revoke :: "string option"
  env_Watch :: "coord_error + Member list list"
  env_received :: nat
  env_sortSlice :: "vpoint list \<Rightarrow> vpoint list"
  env_newClient :: "'c list \<Rightarrow> string \<Rightarrow> 'c option"
  env_Listen :: "string \<Rightarrow> string option"

record 'c Node =
  no_server :: "(any_policy, s3_sink, 'c Replicator option) Server"
  no_evictor :: "duration \<times> duration"
  no_metrics :: "string option"
  no_registration :: "Registration option"
  no_adv :: string
  no_id :: string

text \<open>The cold tier in front of the store, with \<^verbatim>\<open>coldAdapter\<close> as the server's reader of it.\<close>

definition coldAdapter :: "s3_sink \<Rightarrow> coldReader" where
  "coldAdapter t = (\<lambda>model h. s3_get t model h)"

definition buildStore :: "Flags \<Rightarrow> any_policy \<Rightarrow> s3_sink \<Rightarrow> (any_policy, s3_sink) Store" where
  "buildStore f policy tier =
     NewStore policy tier
       ([WithMaxBytes (fl_maxBytes f), WithWatermarks (fl_hiWater f) (fl_loWater f)] @
        (if fl_coldBucket f \<noteq> [] then [WithSpiller s3_spill] else []))"

text \<open>Membership and replication: the registration and the replicator, or the fatal error.\<close>

definition joinCluster :: "'c Env \<Rightarrow> Flags \<Rightarrow> (fatal + Registration option \<times> 'c Replicator option) \<times> etcd_call list" where
  "joinCluster env f =
     (let (adv, ident) = identity f
      in if fl_etcd f = [] then (Inr (None, None), [])
         else case env_Dial env (splitCSV (fl_etcd f)) of
                Some err \<Rightarrow> (Inl (EtcdDialFailed err), [])
              | None \<Rightarrow>
                  (case Register (env_Grant env) (env_Put env) (env_KeepAlive env) (env_Revoke env) ident adv (fl_leaseTTL f) of
                     (Inl err, calls) \<Rightarrow> (Inl (EtcdRegisterFailed err), calls)
                   | (Inr reg, calls) \<Rightarrow>
                       if 1 < fl_rf f then
                         (case router_New ringVnodes of
                            None \<Rightarrow> (Inl RouterPanic, calls)
                          | Some router \<Rightarrow>
                              (case env_Watch env of
                                 Inl err \<Rightarrow> (Inl (WatchMembersFailed err), calls)
                               | Inr snaps \<Rightarrow>
                                   let router' = DriveRouter (env_sortSlice env) (env_newClient env) (env_received env) snaps router
                                   in (Inr (Some reg, Some (repl_WithMetrics (Some []) (NewReplicator ident (fl_rf f) router'))), calls)))
                       else (Inr (Some reg, None), calls)))"

definition buildServer :: "Flags \<Rightarrow> 'c Replicator option \<Rightarrow> (any_policy, s3_sink) Store \<Rightarrow> (any_policy, s3_sink, 'c Replicator option) Server" where
  "buildServer f repl store =
     (let srv = (if repl \<noteq> None then NewWithReplicator store (\<lambda>job. map_option (Enqueue job)) repl else server_New store None)
      in WithColdReader (if fl_coldBucket f \<noteq> [] then Some (coldAdapter (s_sink store)) else None)
           (WithMetrics (Some []) srv))"

text \<open>
  The address of the scrape endpoint. It is served by a goroutine of its own whose failure is only logged, so
  it has no part in start-up beyond this.
\<close>

definition metricsEndpoint :: "Flags \<Rightarrow> string option" where
  "metricsEndpoint f = (if fl_metricsAddr f \<noteq> [] then Some (fl_metricsAddr f) else None)"

text \<open>Without a bucket there is no tier; the one in the store then has no spiller and no reader and is never used.\<close>

definition startNode :: "'c Env \<Rightarrow> Flags \<Rightarrow> (fatal + 'c Node) \<times> etcd_call list" where
  "startNode env f =
     (if badWatermarks f then (Inl (InvalidWatermarks (fl_loWater f) (fl_hiWater f)), [])
      else let (adv, ident) = identity f
           in case (if fl_coldBucket f \<noteq> [] then NewS3 (env_LoadDefaultConfig env) (fl_coldBucket f)
                    else Inr (newS3WithClient [])) of
                Inl err \<Rightarrow> (Inl (ColdTierFailed err), [])
              | Inr cold \<Rightarrow>
                  (case choosePolicy f of
                     Inl err \<Rightarrow> (Inl err, [])
                   | Inr policy \<Rightarrow>
                       let store = buildStore f policy (s3_start (t_bucket cold), env_GetObject env)
                       in case joinCluster env f of
                            (Inl err, calls) \<Rightarrow> (Inl err, calls)
                          | (Inr (reg, repl), calls) \<Rightarrow>
                              (case env_Listen env (fl_addr f) of
                                 Some err \<Rightarrow> (Inl (ListenFailed err), calls)
                               | None \<Rightarrow> (Inr \<lparr>no_server = buildServer f repl store, no_evictor = (fl_ttl f, fl_evictSweep f),
                                               no_metrics = metricsEndpoint f,
                                               no_registration = reg, no_adv = adv, no_id = ident\<rparr>, calls))))"

text \<open>The whole start of the process: \<^term>\<open>Inl\<close> is the exit code when it does not come up.\<close>

definition serverMain :: "'c Env \<Rightarrow> string list \<Rightarrow> (int + 'c Node) \<times> etcd_call list" where
  "serverMain env args =
     (case parseFlags serverFlags args defaultFlags of
        Inl err \<Rightarrow> (Inl (flagExit err), [])
      | Inr f \<Rightarrow> (case startNode env f of (Inl err, calls) \<Rightarrow> (Inl 1, calls) | (Inr n, calls) \<Rightarrow> (Inr n, calls)))"

text \<open>One tick of the poller of the gauges.\<close>

definition pollGauges :: "'c Node \<Rightarrow> Metrics \<Rightarrow> Metrics" where
  "pollGauges n m =
     (let srv = no_server n; m1 = SetResident (Bytes (sv_store srv)) (int (Len (sv_store srv))) m
      in case sv_queue srv of None \<Rightarrow> m1 | Some repl \<Rightarrow> SetReplicaQueueDepth (int (QueueDepth repl)) m1)"

section \<open>Shutdown\<close>

datatype main_call = EtcdCall etcd_call | GracefulStop | MetricsClosed | RouterClosed | EtcdClosed | ColdClosed | CtxCancelled

text \<open>
  What reaches the node while it serves: a signal of the operating system, an event of the Spot watcher, or
  the failure of the gRPC server, which ends the process on the spot. The stop channel has one slot; the
  first send into it is the one \<^verbatim>\<open>main\<close> receives. While the node shuts down, \<open>CallDone\<close> says that the call \<^verbatim>\<open>main\<close>
  is in has returned. The result is what arrives after the stop, or \<^term>\<open>None\<close> if there was none.
\<close>

datatype main_event = OsSignal | SpotEvent spot_event | ServeFailed | CallDone

fun stopped :: "bool \<Rightarrow> spot_event list \<Rightarrow> main_event list \<Rightarrow> main_event list option" where
  "stopped spot seen [] = None"
| "stopped spot seen (OsSignal # evs) = Some evs"
| "stopped spot seen (ServeFailed # evs) = None"
| "stopped spot seen (CallDone # evs) = stopped spot seen evs"
| "stopped spot seen (SpotEvent ev # evs) =
     (if spot \<and> OnInterrupt \<in> set (fst (Watch (seen @ [ev]))) then Some evs else stopped spot (seen @ [ev]) evs)"

text \<open>\<open>revoke\<close> is the outcome of the revocation.\<close>

definition drainPath :: "string option \<Rightarrow> 'c Node \<Rightarrow> main_call list" where
  "drainPath revoke n =
     (case no_registration n of None \<Rightarrow> [] | Some reg \<Rightarrow> map EtcdCall (snd (release revoke reg))) @ [GracefulStop]"

text \<open>
  The calls that return while the shutdown goes on. Until the graceful stop has returned the gRPC server may still
  fail, which ends the process by \<^verbatim>\<open>log.Fatalf\<close>; after it \<^verbatim>\<open>Serve\<close> has returned without an error.
\<close>

fun runCalls :: "main_call list \<Rightarrow> main_event list \<Rightarrow> main_call list" where
  "runCalls [] evs = []"
| "runCalls (c # cs) [] = c # cs"
| "runCalls (c # cs) (ServeFailed # evs) = (if GracefulStop \<in> set (c # cs) then [] else runCalls (c # cs) evs)"
| "runCalls (c # cs) (CallDone # evs) = c # runCalls cs evs"
| "runCalls (c # cs) (OsSignal # evs) = runCalls (c # cs) evs"
| "runCalls (c # cs) (SpotEvent ev # evs) = runCalls (c # cs) evs"

text \<open>The deferred calls, last deferred first; those of a part that was not started were never deferred.\<close>

definition deferredCalls :: "Flags \<Rightarrow> 'c Node \<Rightarrow> main_call list" where
  "deferredCalls f n =
     (if no_metrics n \<noteq> None then [MetricsClosed] else []) @ (if sv_queue (no_server n) \<noteq> None then [RouterClosed] else []) @
     (if fl_etcd f \<noteq> [] then [EtcdClosed] else []) @ (if fl_coldBucket f \<noteq> [] then [ColdClosed] else []) @ [CtxCancelled]"

definition mainRun :: "string option \<Rightarrow> Flags \<Rightarrow> 'c Node \<Rightarrow> main_event list \<Rightarrow> main_call list" where
  "mainRun revoke f n evs =
     (case stopped (fl_spot f) [] evs of None \<Rightarrow> [] | Some later \<Rightarrow> runCalls (drainPath revoke n @ deferredCalls f n) later)"

section \<open>Every policy main can choose is a tracking policy\<close>

definition any_tracked :: "any_policy \<Rightarrow> BlockHash set" where
  "any_tracked p = (case p of Inl l \<Rightarrow> set (recency l) | Inr g \<Rightarrow> gm_keys (g_items g))"

definition any_inv :: "any_policy \<Rightarrow> bool" where
  "any_inv p = (case p of Inl l \<Rightarrow> lru_inv l | Inr g \<Rightarrow> gdsf_inv g)"

abbreviation any_ok :: "WriteMeta \<Rightarrow> bool" where
  "any_ok m \<equiv> cost_ok (wm_Cost m)"

lemmas any_defs = AnyPolicy_def any_tracked_def any_inv_def

interpretation any: eviction_policy AnyPolicy any_tracked any_inv any_ok
proof
  fix p p' :: any_policy and h v and m
  assume inv: "any_inv p"
  show "any_inv (RecordAccess AnyPolicy h p) \<and> any_tracked (RecordAccess AnyPolicy h p) = any_tracked p"
    using inv lru.access_law gdsf.access_law by (cases p) (simp_all add: any_defs)
  show "any_inv (RecordEvict AnyPolicy h p) \<and> any_tracked (RecordEvict AnyPolicy h p) = any_tracked p - {h}"
    using inv lru.evict_law gdsf.evict_law by (cases p) (simp_all add: any_defs)
  show "any_inv (RecordWrite AnyPolicy m p) \<and> any_tracked (RecordWrite AnyPolicy m p) = insert (wm_Key m) (any_tracked p)"
    if "any_ok m"
    using inv that lru.write_law gdsf.write_law by (cases p) (simp_all add: any_defs)
  show "any_inv p' \<and> any_tracked p' = any_tracked p" if v: "Victim AnyPolicy p = (p', v)"
  proof (cases p)
    case (Inl l)
    then obtain l' where "Victim LRU l = (l', v)" "p' = Inl l'" using v by (cases "Victim LRU l") (simp add: AnyPolicy_def)
    then show ?thesis using lru.victim_law [of l l' v] inv Inl by (simp add: any_defs)
  next
    case (Inr g)
    then obtain g' where "Victim GDSF g = (g', v)" "p' = Inr g'" using v by (cases "Victim GDSF g") (simp add: AnyPolicy_def)
    then show ?thesis using gdsf.victim_law [of g g' v] inv Inr by (simp add: any_defs)
  qed
  show "h \<in> any_tracked p" if v: "Victim AnyPolicy p = (p', Some h)"
    using inv v lru.victim_Some gdsf.victim_Some
    by (cases p) (auto simp: any_defs map_prod_def split: prod.splits)
  show "any_tracked p = {}" if v: "Victim AnyPolicy p = (p', None)"
    using inv v lru.victim_None gdsf.victim_None
    by (cases p) (auto simp: any_defs map_prod_def split: prod.splits)
  show "\<not> policyOverQuota AnyPolicy p" if "any_tracked p = {}"
    using inv that lru.quota_law gdsf.quota_law by (cases p) (simp_all add: any_defs policyOverQuota_def [of "\<lparr>RecordAccess = _, RecordWrite = _, RecordEvict = _, Victim = _, OverQuota = _\<rparr>"])
qed

lemma choosePolicy_start:
  assumes "choosePolicy f = Inr p"
  shows "any_inv p \<and> any_tracked p = {}"
proof -
  have "g_items (newGDSF q e w) = []" for q e w by (simp add: newGDSF_def Let_def)
  then have "gdsf_inv (newGDSF q e w)" "gm_keys (g_items (newGDSF q e w)) = {}" for q e w
    using gdsf_inv_newGDSF by simp_all
  then show ?thesis
    using assms lru_policy_start by (auto simp: choosePolicy_def any_inv_def any_tracked_def NewGDSF_def NewGDSFElastic_def split: if_splits sum.splits)
qed

section \<open>Tenant quotas\<close>

lemma quotaLoop_sound:
  assumes "quotaLoop pairs out = Inr m" and "gm_wf out" and "\<forall>(k, n) \<in> set out. k \<noteq> [] \<and> TrimSpace k = k \<and> 0 < sint n"
  shows "gm_wf m \<and> (\<forall>(k, n) \<in> set m. k \<noteq> [] \<and> TrimSpace k = k \<and> 0 < sint n)"
  using assms
proof (induction pairs out rule: quotaLoop.induct)
  case (2 pair pairs out)
  obtain k0 v ok where c: "Cut (CHR ''='') (TrimSpace pair) = (k0, v, ok)" by (cases "Cut (CHR ''='') (TrimSpace pair)")
  then obtain n where n: "TrimSpace k0 \<noteq> []" "ParseInt (TrimSpace v) = Some n" "0 < sint n" "ok"
      "quotaLoop pairs (gm_put (TrimSpace k0) n out) = Inr m"
    using "2.prems"(1) by (auto simp: sle64_def Let_def split: if_splits option.splits)
  have "gm_wf (gm_put (TrimSpace k0) n out)" using "2.prems"(2) by blast
  moreover have "\<forall>(k, x) \<in> set (gm_put (TrimSpace k0) n out). k \<noteq> [] \<and> TrimSpace k = k \<and> 0 < sint x"
    using "2.prems"(2,3) n by (auto simp: gm_in_put)
  ultimately show ?case using "2.IH" [OF c [symmetric] refl refl _ _ n(2)] n by (simp add: sle64_def)
qed simp

text \<open>A tenant name that survives trimming and splitting, and how an operator writes a quota.\<close>

definition tenant_name :: "string \<Rightarrow> bool" where
  "tenant_name k \<longleftrightarrow> k \<noteq> [] \<and> graphic (hd k) \<and> graphic (last k) \<and> CHR '','' \<notin> set k \<and> CHR ''='' \<notin> set k"

definition print_quota :: "string \<times> nat \<Rightarrow> string" where
  "print_quota = (\<lambda>(k, n). k @ CHR ''='' # decimal n)"

lemma decimal_chars: "CHR '','' \<notin> set (decimal n)" "TrimSpace (decimal n) = decimal n" "graphic (last (decimal n))"
proof -
  have g: "graphic c \<and> c \<noteq> CHR '',''" if "c \<in> set (decimal n)" for c
    using decimal_digit [OF that] digit_graphic by blast
  then show "CHR '','' \<notin> set (decimal n)" "graphic (last (decimal n))" by auto
  show "TrimSpace (decimal n) = decimal n" using g by (intro TrimSpace_graphic) simp
qed

lemma print_quota_trim: "tenant_name k \<Longrightarrow> TrimSpace (print_quota (k, n)) = print_quota (k, n)"
  using decimal_chars(3) by (intro TrimSpace_graphic) (auto simp: print_quota_def tenant_name_def)

lemma quotaLoop_print:
  assumes "\<forall>(k, n) \<in> set qs. tenant_name k \<and> 0 < n \<and> n < 2 ^ 63"
  shows "quotaLoop (map print_quota qs) out = Inr (fold (\<lambda>(k, n) m. gm_put k (word_of_nat n) m) qs out)"
  using assms
proof (induction qs arbitrary: out)
  case (Cons q qs)
  obtain k n where q: "q = (k, n)" by (cases q)
  have ok: "tenant_name k" "0 < n" "n < 2 ^ 63" using Cons.prems q by auto
  have "sint (word_of_nat n :: int64) = int n" using ok(3) by (rule sint_small)
  then have pos: "\<not> sle64 (word_of_nat n) 0" using ok(2) by (simp add: sle64_def)
  have "Cut (CHR ''='') (print_quota (k, n)) = (k, decimal n, True)" "TrimSpace k = k" "k \<noteq> []"
    using ok(1) by (simp_all add: print_quota_def Cut_append tenant_name_def TrimSpace_graphic)
  then show ?case
    using Cons pos ok q by (simp add: print_quota_trim decimal_chars ParseInt_decimal)
qed simp

lemma Join_ends:
  assumes "ps \<noteq> []" and "\<forall>p \<in> set ps. p \<noteq> []"
  shows "Join sep ps \<noteq> [] \<and> hd (Join sep ps) = hd (hd ps) \<and> last (Join sep ps) = last (last ps)"
  using assms by (induction sep ps rule: Join.induct) auto

text \<open>
  The quota flag. A list of tenants and positive quotas, printed as \<^verbatim>\<open>tenant=bytes\<close> entries, is
  read back exactly, a later entry of a tenant replacing an earlier one; and whatever is accepted is a map
  from non-empty trimmed names to positive quotas, so a malformed or non-positive entry anywhere fails the
  whole flag.
\<close>

lemma parseTenantQuotas_roundtrip:
  assumes "\<forall>(k, n) \<in> set qs. tenant_name k \<and> 0 < n \<and> n < 2 ^ 63"
  shows "parseTenantQuotas (Join (CHR '','') (map print_quota qs)) = Inr (fold (\<lambda>(k, n) m. gm_put k (word_of_nat n) m) qs []) \<and>
    (\<forall>s m. parseTenantQuotas s = Inr m \<longrightarrow> gm_wf m \<and> (\<forall>(k, n) \<in> set m. k \<noteq> [] \<and> TrimSpace k = k \<and> 0 < sint n))"
proof -
  have sound: "gm_wf m \<and> (\<forall>(k, n) \<in> set m. k \<noteq> [] \<and> TrimSpace k = k \<and> 0 < sint n)" if "parseTenantQuotas s = Inr m" for s m
    using that quotaLoop_sound [of _ "[]" m] by (auto simp: parseTenantQuotas_def Let_def split: if_splits)
  have "parseTenantQuotas (Join (CHR '','') (map print_quota qs)) = Inr (fold (\<lambda>(k, n) m. gm_put k (word_of_nat n) m) qs [])"
  proof (cases "qs = []")
    case True
    then show ?thesis by (simp add: parseTenantQuotas_def)
  next
    case False
    let ?ps = "map print_quota qs"
    have entry: "p \<noteq> [] \<and> graphic (hd p) \<and> graphic (last p) \<and> CHR '','' \<notin> set p" if "p \<in> set ?ps" for p
      using that assms decimal_chars by (fastforce simp: print_quota_def tenant_name_def)
    have ends: "hd ?ps \<in> set ?ps" "last ?ps \<in> set ?ps" "?ps \<noteq> []" using False by (simp_all add: hd_map last_map)
    have "\<forall>p \<in> set ?ps. p \<noteq> []" using entry by blast
    note j = Join_ends [OF ends(3) this, of "CHR '',''"]
    have "TrimSpace (Join (CHR '','') ?ps) = Join (CHR '','') ?ps" "Join (CHR '','') ?ps \<noteq> []"
      using j entry [OF ends(1)] entry [OF ends(2)] by (simp_all add: TrimSpace_graphic)
    moreover have "Split (CHR '','') (Join (CHR '','') ?ps) = ?ps" using Split_Join [OF ends(3)] entry by blast
    ultimately show ?thesis using quotaLoop_print [OF assms, of "[]"] by (simp add: parseTenantQuotas_def)
  qed
  then show ?thesis using sound by blast
qed

section \<open>The node main starts\<close>

lemma buildServer_simps [simp]:
  "sv_store (buildServer f repl store) = store"
  "sv_cold (buildServer f repl store) = (if fl_coldBucket f \<noteq> [] then Some (coldAdapter (s_sink store)) else None)"
  by (simp_all add: buildServer_def Let_def WithColdReader_def WithMetrics_def NewWithReplicator_def server_New_def)

lemma buildStore_options: "\<forall>opt \<in> set ([WithMaxBytes (fl_maxBytes f), WithWatermarks (fl_hiWater f) (fl_loWater f)] @
    (if fl_coldBucket f \<noteq> [] then [WithSpiller s3_spill] else [])). store_option opt"
  unfolding store_option_def by auto

lemma buildStore_config:
  "s_maxBytes (buildStore f p t) = fl_maxBytes f"
  "s_spill (buildStore f p t) = (if fl_coldBucket f \<noteq> [] then Some s3_spill else None)"
  "\<not> badWatermarks f \<Longrightarrow> slt64 0 (fl_maxBytes f) \<Longrightarrow>
     s_hiFrac (buildStore f p t) = fl_hiWater f \<and> s_loFrac (buildStore f p t) = fl_loWater f"
  by (simp_all add: buildStore_def NewStore_def Let_def WithMaxBytes_def WithWatermarks_def WithSpiller_def badWatermarks_def)

lemma startNode_cases:
  assumes "startNode env f = (Inr n, calls)"
  obtains policy reg repl where "\<not> badWatermarks f" "choosePolicy f = Inr policy" "joinCluster env f = (Inr (reg, repl), calls)"
    "no_server n = buildServer f repl (buildStore f policy (s3_start (fl_coldBucket f), env_GetObject env))"
    "no_registration n = reg" "(no_adv n, no_id n) = identity f" "no_evictor n = (fl_ttl f, fl_evictSweep f)"
  using assms that
  by (auto simp: startNode_def NewS3_def newS3WithClient_def Let_def split: if_splits option.splits sum.splits prod.splits)

lemma joinCluster_registration:
  assumes "joinCluster env f = (Inr (reg, repl), calls)"
  shows "case reg of
      None \<Rightarrow> fl_etcd f = [] \<and> calls = []
    | Some r \<Rightarrow> fl_etcd f \<noteq> [] \<and> env_Grant env = Inr (reg_lease r) \<and> \<not> reg_released r \<and>
        PutLeased (memberKey (snd (identity f))) (fst (identity f)) (reg_lease r) None \<in> set calls \<and> leases calls (reg_lease r) = Some Renewed \<and> (\<forall>l e. Revoke l e \<notin> set calls)"
  using assms
  by (auto simp: joinCluster_def Register_def leases_def Let_def split: if_splits option.splits sum.splits prod.splits)

text \<open>
  Property C3: what \<^verbatim>\<open>main\<close> starts is a sound shard. When start-up succeeds, for any flags and any behaviour of
  the services, the store runs with exactly the bound and the watermarks of the flags, the cold tier is behind
  both the evictions and the reads or behind neither, the node is published under its identity with a live
  lease iff etcd was given, and whatever calls are served afterwards, under whichever policy was chosen, the
  store stays consistent with that policy.
\<close>

theorem startNode_sound:
  assumes "startNode env f = (Inr n, calls)"
  shows "s_maxBytes (sv_store (no_server n)) = fl_maxBytes f \<and>
    (slt64 0 (fl_maxBytes f) \<longrightarrow> s_hiFrac (sv_store (no_server n)) = fl_hiWater f \<and> s_loFrac (sv_store (no_server n)) = fl_loWater f) \<and>
    (s_spill (sv_store (no_server n)) \<noteq> None \<longleftrightarrow> sv_cold (no_server n) \<noteq> None) \<and>
    (case no_registration n of
       None \<Rightarrow> fl_etcd f = [] \<and> calls = []
     | Some r \<Rightarrow> fl_etcd f \<noteq> [] \<and> PutLeased (memberKey (no_id n)) (no_adv n) (reg_lease r) None \<in> set calls \<and>
         leases calls (reg_lease r) = Some Renewed \<and> (\<forall>l e. Revoke l e \<notin> set calls)) \<and>
    (\<forall>rpcs. (\<forall>call \<in> set rpcs. \<forall>(h, e) \<in> rpc_entries call (sv_cold (no_server n)). entry_ok any_ok e) \<longrightarrow>
       shard_inv any_tracked any_inv (sv_store (fold (serve AnyPolicy) rpcs (no_server n))))"
proof -
  obtain policy reg repl where b: "\<not> badWatermarks f" "choosePolicy f = Inr policy" "joinCluster env f = (Inr (reg, repl), calls)"
    and n: "no_server n = buildServer f repl (buildStore f policy (s3_start (fl_coldBucket f), env_GetObject env))"
      "no_registration n = reg" "(no_adv n, no_id n) = identity f"
    using startNode_cases [OF assms] by metis
  have id: "no_adv n = fst (identity f)" "no_id n = snd (identity f)" using n(3) by (metis fst_conv, metis snd_conv)
  have inv: "shard_inv any_tracked any_inv (sv_store (no_server n))"
    unfolding n(1) buildServer_simps buildStore_def
    by (rule NewStore_shard_inv [OF buildStore_options]) (use choosePolicy_start [OF b(2)] in simp_all)
  have served: "shard_inv any_tracked any_inv (sv_store (fold (serve AnyPolicy) rpcs (no_server n)))"
    if "\<forall>call \<in> set rpcs. \<forall>(h, e) \<in> rpc_entries call (sv_cold (no_server n)). entry_ok any_ok e" for rpcs
    using any.shard_reachable_inv [OF serve_shard_run [OF that, where q = "[]"] inv] .
  moreover have "case no_registration n of None \<Rightarrow> fl_etcd f = [] \<and> calls = []
     | Some r \<Rightarrow> fl_etcd f \<noteq> [] \<and> PutLeased (memberKey (no_id n)) (no_adv n) (reg_lease r) None \<in> set calls \<and> leases calls (reg_lease r) = Some Renewed \<and> (\<forall>l e. Revoke l e \<notin> set calls)"
    using joinCluster_registration [OF b(3)] n(2) id by (simp split: option.splits)
  ultimately show ?thesis using b(1) by (simp add: n(1) buildStore_config)
qed

text \<open>
  A node registers before it listens, and a failed listen ends the process without releasing the lease: the
  dead node stays published until the lease expires.
\<close>

lemma listen_failure_leaves_lease:
  assumes "startNode env f = (Inl (ListenFailed err), calls)" and "fl_etcd f \<noteq> []"
  shows "\<exists>lease. env_Grant env = Inr lease \<and> PutLeased (memberKey (snd (identity f))) (fst (identity f)) lease None \<in> set calls \<and>
    leases calls lease = Some Renewed"
proof -
  have "\<exists>reg repl. joinCluster env f = (Inr (reg, repl), calls)"
    using assms(1)
    by (auto simp: startNode_def NewS3_def choosePolicy_def joinCluster_def Let_def split: if_splits option.splits sum.splits prod.splits)
  then obtain reg repl where "joinCluster env f = (Inr (reg, repl), calls)" by blast
  from joinCluster_registration [OF this] assms(2) show ?thesis by (cases reg) auto
qed

section \<open>Stopping\<close>

text \<open>Polls that bring no notice pass by.\<close>

lemma stopped_quiet:
  assumes "quiet (seen @ evs)"
  shows "stopped spot seen (map SpotEvent evs @ later) = stopped spot (seen @ evs) later"
  using assms
proof (induction evs arbitrary: seen)
  case (Cons ev evs)
  have "quiet (seen @ [ev])" using Cons.prems by (simp add: quiet_def)
  then have "OnInterrupt \<notin> set (fst (Watch (seen @ [ev])))" using Watch_cases(1) by blast
  then show ?case using Cons.IH [of "seen @ [ev]"] Cons.prems by simp
qed simp

lemma stopped_notice:
  assumes "spot" and "quiet evs" and "polls_notice ev"
  shows "stopped spot [] (map SpotEvent (evs @ [ev]) @ later) = Some later"
proof -
  obtain acts where "Watch (evs @ [ev]) = (acts @ [OnInterrupt], True)" using Watch_cases(3) [OF assms(2,3), of "[]"] by blast
  then show ?thesis using stopped_quiet [of "[]" evs spot "SpotEvent ev # later"] assms(1,2) by simp
qed

lemma runCalls_prefix: "\<exists>rest. cs = runCalls cs evs @ rest"
  by (induction cs evs rule: runCalls.induct) auto

lemma runCalls_all: "ServeFailed \<notin> set evs \<Longrightarrow> runCalls cs evs = cs"
  by (induction cs evs rule: runCalls.induct) auto

text \<open>
  Property C30: a Spot notice drains the node. After any number of failed or quiet polls the node is still
  serving; the first poll after the metadata service has scheduled an interruption makes it leave, exactly once, in
  the order that keeps clients away: first the keepalive ends and the lease is revoked, then the server stops
  gracefully, and only then its connections, its tier and its background loops are closed, whatever happens
  afterwards and whether or not the revocation gets through. Only a failure of the gRPC server cuts this short, and
  then what has been done is a beginning of it. A signal of the operating system takes the same path.
\<close>

theorem spot_notice_drains:
  assumes "startNode env f = (Inr n, calls)" and "fl_etcd f \<noteq> []" and "fl_spot f"
    and "quiet evs" and "imdsv2 tok True imds"
  shows "\<exists>lease. env_Grant env = Inr lease \<and> mainRun rv f n (map SpotEvent evs) = [] \<and>
    (\<forall>later full. full = [EtcdCall (CancelKeepAlive lease), EtcdCall (Revoke lease rv), GracefulStop] @ deferredCalls f n \<longrightarrow>
       (ServeFailed \<notin> set later \<longrightarrow> mainRun rv f n (map SpotEvent (evs @ [Poll imds]) @ later) = full \<and>
          mainRun rv f n (map SpotEvent evs @ OsSignal # later) = full) \<and>
       (\<exists>rest. full = mainRun rv f n (map SpotEvent (evs @ [Poll imds]) @ later) @ rest)) \<and>
    set (deferredCalls f n) \<inter> (insert GracefulStop (range EtcdCall)) = {}"
proof -
  have notice: "polls_notice (Poll imds)" using checkOnce_imdsv2 [OF assms(5)] by (simp add: polls_notice_def)
  obtain reg repl where j: "joinCluster env f = (Inr (reg, repl), calls)" "no_registration n = reg"
    using startNode_cases [OF assms(1)] by metis
  then obtain r where r: "no_registration n = Some r" "env_Grant env = Inr (reg_lease r)" "\<not> reg_released r"
    using joinCluster_registration [OF j(1)] assms(2) by (cases reg) auto
  let ?full = "[EtcdCall (CancelKeepAlive (reg_lease r)), EtcdCall (Revoke (reg_lease r) rv), GracefulStop] @ deferredCalls f n"
  have d: "drainPath rv n @ deferredCalls f n = ?full" using r by (simp add: drainPath_def release_def)
  have "mainRun rv f n (map SpotEvent evs) = []" using stopped_quiet [of "[]" evs "fl_spot f" "[]"] assms(4) by (simp add: mainRun_def)
  moreover have "mainRun rv f n (map SpotEvent (evs @ [Poll imds]) @ later) = runCalls ?full later" for later
    unfolding mainRun_def stopped_notice [OF assms(3,4) notice] d by simp
  moreover have "mainRun rv f n (map SpotEvent evs @ OsSignal # later) = runCalls ?full later" for later
    using stopped_quiet [of "[]" evs "fl_spot f" "OsSignal # later"] assms(4) d by (simp add: mainRun_def)
  moreover have "set (deferredCalls f n) \<inter> (insert GracefulStop (range EtcdCall)) = {}" by (auto simp: deferredCalls_def)
  ultimately show ?thesis using r(2) runCalls_all runCalls_prefix by metis
qed

definition ex_flags :: Flags where
  "ex_flags = \<lparr>fl_addr = '':50051'', fl_advertise = ''n1:50051'', fl_etcd = ''e1:2379, e2:2379'', fl_nodeID = [], fl_leaseTTL = 10, fl_rf = 1,
     fl_maxBytes = 0, fl_hiWater = 0, fl_loWater = 0, fl_ttl = 0, fl_evictSweep = 30, fl_eviction = ''lru'', fl_tenantQuota = [],
     fl_fairnessWeight = 0, fl_coldBucket = [], fl_spot = True, fl_metricsAddr = '':9090''\<rparr>"

definition ex_env :: "nat Env" where
  "ex_env = \<lparr>env_LoadDefaultConfig = None, env_GetObject = \<lambda>_. NoSuchKeyErr, env_Dial = \<lambda>_. None, env_Grant = Inr 77, env_Put = None,
     env_KeepAlive = None, env_Revoke = None, env_Watch = Inr [], env_received = 0, env_sortSlice = sort_key vp_hash, env_newClient = \<lambda>made _. Some (length made),
     env_Listen = \<lambda>_. None\<rparr>"

definition ex_node :: "nat Node" where
  "ex_node = \<lparr>no_server = buildServer ex_flags None (buildStore ex_flags (Inl NewLRU) (s3_start [], \<lambda>_. NoSuchKeyErr)),
     no_evictor = (0, 30), no_metrics = Some '':9090'', no_registration = Some \<lparr>reg_lease = 77, reg_released = False\<rparr>, no_adv = ''n1:50051'', no_id = ''n1:50051''\<rparr>"

lemma ex_startNode: "startNode ex_env ex_flags = (Inr ex_node,
    [Grant 10 (Inr 77), PutLeased (memberKey ''n1:50051'') ''n1:50051'' 77 None, KeepAlive 77 None])"
  by (simp add: startNode_def joinCluster_def identity_def choosePolicy_def Register_def badWatermarks_def slt64_def Let_def metricsEndpoint_def
      newS3WithClient_def ex_env_def ex_flags_def ex_node_def)

theorem startNode_sound_witness:
  "shard_inv any_tracked any_inv (sv_store (fold (serve AnyPolicy) [EvictRPC ''m'' (replicate 32 5)] (no_server ex_node)))"
  by (rule startNode_sound [OF ex_startNode, THEN conjunct2, THEN conjunct2, THEN conjunct2, THEN conjunct2, rule_format])
    (simp add: ex_node_def ex_flags_def readmitted_def)

definition ex_imds :: "bool \<Rightarrow> http_request \<Rightarrow> http_outcome" where
  "ex_imds scheduled req = \<lparr>ho_new = None, ho_do = None,
     ho_status = (if hr_method req = ''PUT'' then 200 else if hr_header req \<noteq> (''X-aws-ec2-metadata-token'', ''tok'') then 401
                  else if scheduled then 200 else 404), ho_body = Inr (if hr_method req = ''PUT'' then ''tok'' else [])\<rparr>"

lemma ex_imdsv2: "imdsv2 ''tok'' scheduled (ex_imds scheduled)"
  by (simp add: imdsv2_def ex_imds_def)

theorem spot_notice_drains_witness:
  "mainRun None ex_flags ex_node (map SpotEvent ([Poll (ex_imds False)] @ [Poll (ex_imds True)]) @ [OsSignal]) =
     [EtcdCall (CancelKeepAlive 77), EtcdCall (Revoke 77 None), GracefulStop, MetricsClosed, EtcdClosed, CtxCancelled]"
proof -
  have "quiet [Poll (ex_imds False)]" by (simp add: quiet_def polls_notice_def checkOnce_imdsv2 [OF ex_imdsv2])
  note drains = spot_notice_drains [OF ex_startNode _ _ this ex_imdsv2, of None]
  have "fl_etcd ex_flags \<noteq> []" "fl_spot ex_flags" by (simp_all add: ex_flags_def)
  from drains [OF this] obtain lease where l: "env_Grant ex_env = Inr lease"
    and all: "\<forall>later full. full = [EtcdCall (CancelKeepAlive lease), EtcdCall (Revoke lease None), GracefulStop] @ deferredCalls ex_flags ex_node \<longrightarrow>
       ServeFailed \<notin> set later \<longrightarrow> mainRun None ex_flags ex_node (map SpotEvent ([Poll (ex_imds False)] @ [Poll (ex_imds True)]) @ later) = full"
    by blast
  have "lease = 77" using l by (simp add: ex_env_def)
  moreover have "deferredCalls ex_flags ex_node = [MetricsClosed, EtcdClosed, CtxCancelled]"
    by (simp add: deferredCalls_def ex_flags_def ex_node_def buildServer_def server_New_def WithColdReader_def WithMetrics_def)
  ultimately show ?thesis using all [rule_format, OF refl, of "[OsSignal]"] by simp
qed

text \<open>
  The tier is closed before the context of the evictor ends. An eviction between the two hands its block to a
  closed tier, and the send on the closed channel panics.
\<close>

lemma shutdown_spill_panics:
  assumes "fl_coldBucket f \<noteq> []" and "s3_Close t = Some t'"
  shows "(\<exists>before. deferredCalls f n = before @ [ColdClosed, CtxCancelled]) \<and> s3_Spill job t' = None"
  using assms by (auto simp: deferredCalls_def s3_Close_def s3_Spill_def split: if_splits)

end
