(* ===== verification/Loadgen.thy ===== *)
theory Loadgen
  imports Block_Hash Membership Replicator
begin

text \<open>
  \<^verbatim>\<open>cmd/loadgen\<close>: the client of the cluster. It cuts prompts into blocks, asks the owner of the first block which
  of them it holds, fetches those and writes the others, failing over to the replica, and with \<^verbatim>\<open>-verify\<close> it
  checks every fetched byte against a pattern derived from the block's hash. The network is a record of
  functions over the state of the world behind it; the pseudo-random generator and the clock are parameters
  as well. Sizes and counts given by flags are natural numbers (a negative one makes \<^verbatim>\<open>make\<close> panic before the
  first request). Printing is not modelled; what is printed is computed.
\<close>

section \<open>The verification pattern\<close>

unbundle bit_operations_syntax

definition verifySeed :: "bytes \<Rightarrow> uint64" where
  "verifySeed h =
     (let x = le_word (take 8 h) XOR le_word (take 8 (drop 8 h)) XOR le_word (take 8 (drop 16 h)) XOR le_word (take 8 (drop 24 h))
      in if x = 0 then 0x9e3779b97f4a7c15 else x)"

definition xorshift :: "uint64 \<Rightarrow> uint64" where
  "xorshift x = (let x1 = x XOR drop_bit 12 x; x2 = x1 XOR push_bit 25 x1 in x2 XOR drop_bit 27 x2)"

text \<open>The \<open>n\<close> bytes still to fill: eight at a time, then the tail.\<close>

function fillLoop :: "nat \<Rightarrow> uint64 \<Rightarrow> bytes" where
  "fillLoop n x =
     (if 8 \<le> n then let x' = xorshift x in le_bytes 8 (x' * 0x2545F4914F6CDD1D) @ fillLoop (n - 8) x'
      else map (\<lambda>j. ucast (drop_bit (8 * (j mod 8)) x)) [0..<n])"
  by pat_completeness auto
termination
  by (relation "measure fst") auto

declare fillLoop.simps [simp del]

definition fillVerifiable :: "bytes \<Rightarrow> bytes \<Rightarrow> bytes" where
  "fillVerifiable buf hash = fillLoop (length buf) (verifySeed hash)"

fun equalLoop :: "bytes \<Rightarrow> bytes \<Rightarrow> bool" where
  "equalLoop (a # as) (b # bs) = (if a \<noteq> b then False else equalLoop as bs)"
| "equalLoop _ _ = True"

definition equalBytes :: "bytes \<Rightarrow> bytes \<Rightarrow> bool" where
  "equalBytes a b = (if length a \<noteq> length b then False else equalLoop a b)"

section \<open>The workload\<close>

definition writeChunkBytes :: nat where
  "writeChunkBytes = 2 ^ 20"

record tenantProfile =
  tp_id :: string
  tp_weight :: f64
  tp_hotPool :: "int32 list list"
  tp_prefixBlocks :: nat
  tp_prefixShare :: f64
  tp_cost :: f64
  tp_bursty :: bool

record traceRecord =
  tr_Conv :: int
  tr_Turn :: int
  tr_Tokens :: "int32 list"

text \<open>The router is shared and changes under the workers; each request sees its current state.\<close>

record workload =
  w_model :: string
  w_blockTokens :: nat
  w_payloadBytes :: nat
  w_prefixShare :: f64
  w_prefixBlocks :: nat
  w_tailBlocks :: nat
  w_hotPrefix :: "int32 list"
  w_verify :: bool
  w_trace :: "traceRecord list option"
  w_tenants :: "tenantProfile list option"

text \<open>\<^verbatim>\<open>math/rand\<close>: a number in the unit interval, and one below a bound.\<close>

record 'g Rand =
  rn_Float64 :: "'g \<Rightarrow> f64 \<times> 'g"
  rn_Intn :: "nat \<Rightarrow> 'g \<Rightarrow> nat \<times> 'g"

fun randomTokens :: "'g Rand \<Rightarrow> nat \<Rightarrow> 'g \<Rightarrow> int32 list \<times> 'g" where
  "randomTokens R 0 g = ([], g)"
| "randomTokens R (Suc n) g =
     (let (t, g1) = rn_Intn R 32000 g; (ts, g2) = randomTokens R n g1 in (word_of_nat t # ts, g2))"

definition buildTokens :: "'g Rand \<Rightarrow> workload \<Rightarrow> 'g \<Rightarrow> int32 list \<times> 'g" where
  "buildTokens R w g =
     (let (x, g1) = rn_Float64 R g;
          (prefix, g2) = (if w_prefixShare w \<le> x then randomTokens R (w_prefixBlocks w * w_blockTokens w) g1
                          else (w_hotPrefix w, g1));
          (tail, g3) = randomTokens R (w_tailBlocks w * w_blockTokens w) g2
      in (prefix @ tail, g3))"

text \<open>
  The shared cursor is the third result. A trace that was loaded is not empty. \<open>deadline\<close> is \<^term>\<open>None\<close> in count
  mode.
\<close>

definition nextTokens :: "'g Rand \<Rightarrow> workload \<Rightarrow> time option \<Rightarrow> 'g \<Rightarrow> nat \<Rightarrow> int32 list option \<times> 'g \<times> nat" where
  "nextTokens R w deadline g cursor =
     (case w_trace w of
        None \<Rightarrow> (let (toks, g') = buildTokens R w g in (Some toks, g', cursor))
      | Some trace \<Rightarrow>
          let n = length trace; idx = cursor
          in case deadline of
               None \<Rightarrow> (if n \<le> idx then None else Some (tr_Tokens (trace ! idx)), g, cursor + 1)
             | Some _ \<Rightarrow> (Some (tr_Tokens (trace ! (idx mod n))), g, cursor + 1))"

text \<open>Seconds are \<open>10 ^ 9\<close> units.\<close>

definition burstActive :: "duration \<Rightarrow> bool" where
  "burstActive sinceStart \<longleftrightarrow> sinceStart mod (6 * 10 ^ 9) < 2 * 10 ^ 9"

fun weightSum :: "bool \<Rightarrow> tenantProfile list \<Rightarrow> f64 \<Rightarrow> f64" where
  "weightSum active [] acc = acc"
| "weightSum active (t # ts) acc =
     (if tp_bursty t \<and> \<not> active then weightSum active ts acc else weightSum active ts (acc + tp_weight t))"

fun pickLoop :: "bool \<Rightarrow> tenantProfile list \<Rightarrow> f64 \<Rightarrow> tenantProfile option" where
  "pickLoop active [] r = None"
| "pickLoop active (t # ts) r =
     (if tp_bursty t \<and> \<not> active then pickLoop active ts r
      else let r' = r - tp_weight t in if r' \<le> 0 then Some t else pickLoop active ts r')"

definition pickTenant :: "'g Rand \<Rightarrow> duration \<Rightarrow> tenantProfile list \<Rightarrow> 'g \<Rightarrow> tenantProfile \<times> 'g" where
  "pickTenant R sinceStart tenants g =
     (let active = burstActive sinceStart; total = weightSum active tenants 0; (x, g') = rn_Float64 R g
      in (case pickLoop active tenants (x * total) of Some t \<Rightarrow> t | None \<Rightarrow> tenants ! 0, g'))"

text \<open>The condition is evaluated from the left: an empty pool draws no number.\<close>

definition buildTenantTokens :: "'g Rand \<Rightarrow> workload \<Rightarrow> tenantProfile \<Rightarrow> 'g \<Rightarrow> int32 list \<times> 'g" where
  "buildTenantTokens R w tp g =
     (let fresh = randomTokens R (tp_prefixBlocks tp * w_blockTokens w);
          (prefix, g1) =
            (if 0 < length (tp_hotPool tp) then
               (let (x, g0) = rn_Float64 R g
                in if x < tp_prefixShare tp
                   then (let (i, g1) = rn_Intn R (length (tp_hotPool tp)) g0 in (tp_hotPool tp ! i, g1))
                   else fresh g0)
             else fresh g);
          (tail, g2) = randomTokens R (w_tailBlocks w * w_blockTokens w) g1
      in (prefix @ tail, g2))"

fun buildPool :: "'g Rand \<Rightarrow> nat \<Rightarrow> nat \<Rightarrow> 'g \<Rightarrow> int32 list list \<times> 'g" where
  "buildPool R 0 len g = ([], g)"
| "buildPool R (Suc k) len g =
     (let (p, g1) = randomTokens R len g; (ps, g2) = buildPool R k len g1 in (p # ps, g2))"

definition mkTenant :: "'g Rand \<Rightarrow> nat \<Rightarrow> string \<Rightarrow> f64 \<Rightarrow> nat \<Rightarrow> nat \<Rightarrow> f64 \<Rightarrow> bool \<Rightarrow> 'g \<Rightarrow> tenantProfile \<times> 'g" where
  "mkTenant R blockTokens ident weight prefixBlocks poolSize share bursty g =
     (let (pool, g') = buildPool R poolSize (prefixBlocks * blockTokens) g
      in (\<lparr>tp_id = ident, tp_weight = weight, tp_hotPool = pool, tp_prefixBlocks = prefixBlocks, tp_prefixShare = share,
           tp_cost = f64_of_int (int (prefixBlocks * blockTokens)), tp_bursty = bursty\<rparr>, g'))"

definition buildTenants :: "'g Rand \<Rightarrow> nat \<Rightarrow> 'g \<Rightarrow> tenantProfile list \<times> 'g" where
  "buildTenants R blockTokens g =
     (let (a, g1) = mkTenant R blockTokens ''A'' (rnd (55 / 100)) 2 40 (rnd (95 / 100)) False g;
          (b, g2) = mkTenant R blockTokens ''B'' (rnd (30 / 100)) 16 20 (rnd (80 / 100)) False g1;
          (c, g3) = mkTenant R blockTokens ''C'' (rnd (15 / 100)) 6 12 (rnd (70 / 100)) True g2
      in ([a, b, c], g3))"

section \<open>Results\<close>

record tenantCounts =
  tc_blocks :: int
  tc_hits :: int
  tc_writes :: int
  tc_requests :: int

record result =
  rs_requests :: int
  rs_blocks :: int
  rs_hits :: int
  rs_writes :: int
  rs_errors :: int
  rs_degraded :: int
  rs_violations :: int
  rs_perShard :: "(string, int) gomap"
  rs_perTenant :: "(string, tenantCounts) gomap"
  rs_latencies :: "duration list"

definition emptyResult :: result where
  "emptyResult = \<lparr>rs_requests = 0, rs_blocks = 0, rs_hits = 0, rs_writes = 0, rs_errors = 0, rs_degraded = 0, rs_violations = 0,
     rs_perShard = [], rs_perTenant = [], rs_latencies = []\<rparr>"

record liveStats =
  lv_requests :: int
  lv_errors :: int
  lv_degraded :: int
  lv_violations :: int

text \<open>What a worker updates as it goes: its own result and the shared live counters, if enabled.\<close>

record progress =
  pg_res :: result
  pg_live :: "liveStats option"

definition violation :: "progress \<Rightarrow> progress" where
  "violation pg = \<lparr>pg_res = (pg_res pg)\<lparr>rs_violations := rs_violations (pg_res pg) + 1\<rparr>,
     pg_live = map_option (\<lambda>l. l\<lparr>lv_violations := lv_violations l + 1\<rparr>) (pg_live pg)\<rparr>"

section \<open>Calls\<close>

datatype rpc_error = RpcNotFound string | RpcError string | IndexPanic

text \<open>A client-streaming call: the errors of opening it and of each send, and the answer to what was sent.\<close>

record write_call =
  wc_open :: "rpc_error option"
  wc_send :: sendErr
  wc_close :: "WriteChunk list \<Rightarrow> rpc_error option"

text \<open>
  The generated client over a connection, as functions of the world behind it. A fetch fails to open, or
  yields the chunks received and the error that ended the stream, if any. For a write the second component
  is the world after the messages sent and the end of the stream.
\<close>

record ('c, 'w) Net =
  net_Lookup :: "'c \<Rightarrow> string \<Rightarrow> bytes list \<Rightarrow> 'w \<Rightarrow> (rpc_error + BlockPresence list) \<times> 'w"
  net_Fetch :: "'c \<Rightarrow> string \<Rightarrow> FetchBlock \<Rightarrow> 'w \<Rightarrow> (rpc_error + KVChunk list \<times> rpc_error option) \<times> 'w"
  net_Write :: "'c \<Rightarrow> 'w \<Rightarrow> write_call \<times> (WriteChunk list \<Rightarrow> recv_end \<Rightarrow> 'w)"

fun missOrErr :: "rpc_error \<Rightarrow> bool \<times> rpc_error option" where
  "missOrErr (RpcNotFound _) = (False, None)"
| "missOrErr err = (False, Some err)"

text \<open>The scratch buffer \<open>expected\<close> is refilled before every use, so only its length matters to later calls.\<close>

definition fetch ::
  "('c, 'w) Net \<Rightarrow> workload \<Rightarrow> 'c \<Rightarrow> Block \<Rightarrow> bytes \<Rightarrow> progress \<Rightarrow> 'w \<Rightarrow> (bool \<times> rpc_error option) \<times> progress \<times> 'w" where
  "fetch net w conn b expected pg world =
     (case net_Fetch net conn (w_model w) \<lparr>fb_BlockHash = Hash b, fb_Version = 0, fb_TokenIds = TokenIDs b\<rparr> world of
        (Inl err, world') \<Rightarrow> (missOrErr err, pg, world')
      | (Inr (frames, fin), world') \<Rightarrow>
          (case fin of
             Some err \<Rightarrow> (missOrErr err, pg, world')
           | None \<Rightarrow>
               let got = concat (map c_Data frames); want = fillVerifiable expected (Hash b)
               in ((True, None),
                   if w_verify w \<and> (length got \<noteq> length want \<or> \<not> equalBytes got want) then violation pg else pg,
                   world')))"

definition writeHeader :: "workload \<Rightarrow> Block \<Rightarrow> bytes \<Rightarrow> bytes \<Rightarrow> string \<Rightarrow> f64 \<Rightarrow> WriteHeader" where
  "writeHeader w b kvbuf rootKey tenant cost =
     \<lparr>wh_ModelId = w_model w, wh_BlockHash = Hash b, wh_TokenIds = TokenIDs b, wh_TenantId = tenant, wh_RecomputeCost = cost,
      wh_TotalSize = word_of_nat (length kvbuf), wh_Version = 0, wh_RoutingKey = rootKey\<rparr>"

definition writeBlock ::
  "('c, 'w) Net \<Rightarrow> workload \<Rightarrow> 'c \<Rightarrow> Block \<Rightarrow> bytes \<Rightarrow> bytes \<Rightarrow> string \<Rightarrow> f64 \<Rightarrow> 'w \<Rightarrow> rpc_error option \<times> 'w" where
  "writeBlock net w conn b buf rootKey tenant cost world =
     (let kvbuf = (if w_verify w then fillVerifiable buf (Hash b) else buf); (call, after) = net_Write net conn world
      in case wc_open call of
           Some err \<Rightarrow> (Some err, world)
         | None \<Rightarrow>
             (case streamSend (wc_send call) (Header (writeHeader w b kvbuf rootKey tenant cost)) [] of
                (Some err, sent) \<Rightarrow> (Some (RpcError err), after sent (RecvError err))
              | (None, sent) \<Rightarrow>
                  (case chunkLoop writeChunkBytes (\<lambda>d l. Chunk \<lparr>c_Data = d, c_Last = l\<rparr>) (wc_send call) kvbuf 0 sent of
                     (Some err, sent') \<Rightarrow> (Some (RpcError err), after sent' (RecvError err))
                   | (None, sent') \<Rightarrow> (wc_close call sent', after sent' EOF))))"

section \<open>One request\<close>

text \<open>
  Fetching the run of blocks the owner reported, from block \<open>i\<close>: the error, the run and what changed. An answer with
  more entries than blocks makes the index panic; here that ends the request as an error, and no server of this
  repository gives such an answer (\<open>shard_lookup_no_panic\<close>).
\<close>

function fetchRun ::
  "('c, 'w) Net \<Rightarrow> workload \<Rightarrow> 'c \<Rightarrow> Block list \<Rightarrow> bytes \<Rightarrow> nat \<Rightarrow> nat \<Rightarrow> progress \<Rightarrow> 'w
     \<Rightarrow> (rpc_error option \<times> nat) \<times> progress \<times> 'w" where
  "fetchRun net w conn blocks expected i run pg world =
     (if i < run then
        if length blocks \<le> i then ((Some IndexPanic, run), pg, world)
        else (case fetch net w conn (blocks ! i) expected pg world of
                ((hit, Some err), pg', world') \<Rightarrow> ((Some err, run), pg', world')
              | ((hit, None), pg', world') \<Rightarrow>
                  if \<not> hit then ((None, i), pg', world')
                  else fetchRun net w conn blocks expected (i + 1) run
                         (pg'\<lparr>pg_res := (pg_res pg')\<lparr>rs_hits := rs_hits (pg_res pg') + 1\<rparr>\<rparr>) world')
      else ((None, run), pg, world))"
  by pat_completeness auto
termination
  by (relation "measure (\<lambda>(net, w, conn, blocks, expected, i, run, pg, world). run - i)") auto

declare fetchRun.simps [simp del]

fun writeMisses ::
  "('c, 'w) Net \<Rightarrow> workload \<Rightarrow> 'c \<Rightarrow> bytes \<Rightarrow> bytes \<Rightarrow> string \<Rightarrow> f64 \<Rightarrow> Block list \<Rightarrow> progress \<Rightarrow> 'w
     \<Rightarrow> rpc_error option \<times> progress \<times> 'w" where
  "writeMisses net w conn kvbuf rootKey tenant cost [] pg world = (None, pg, world)"
| "writeMisses net w conn kvbuf rootKey tenant cost (b # bs) pg world =
     (case writeBlock net w conn b kvbuf rootKey tenant cost world of
        (Some err, world') \<Rightarrow> (Some err, pg, world')
      | (None, world') \<Rightarrow>
          writeMisses net w conn kvbuf rootKey tenant cost bs
            (pg\<lparr>pg_res := (pg_res pg)\<lparr>rs_writes := rs_writes (pg_res pg) + 1\<rparr>\<rparr>) world')"

definition oneRequest ::
  "('c, 'w) Net \<Rightarrow> workload \<Rightarrow> 'c \<Rightarrow> Block list \<Rightarrow> bytes \<Rightarrow> bytes \<Rightarrow> progress \<Rightarrow> bool \<Rightarrow> bytes \<Rightarrow> string \<Rightarrow> f64 \<Rightarrow> 'w
     \<Rightarrow> rpc_error option \<times> progress \<times> 'w" where
  "oneRequest net w conn blocks kvbuf expected pg allowWrites rootKey tenant cost world =
     (case net_Lookup net conn (w_model w) (map Hash blocks) world of
        (Inl err, world1) \<Rightarrow> (Some err, pg, world1)
      | (Inr lookup, world1) \<Rightarrow>
          let run = length (takeWhile bp_HasEntry lookup)
          in case fetchRun net w conn blocks expected 0 run pg world1 of
               ((Some err, _), pg1, world2) \<Rightarrow> (Some err, pg1, world2)
             | ((None, run'), pg1, world2) \<Rightarrow>
                 if \<not> allowWrites then (None, pg1, world2)
                 else writeMisses net w conn kvbuf rootKey tenant cost (drop run' blocks) pg1 world2)"

text \<open>The owners in order, from the \<open>i\<close>-th on, with the last error.\<close>

fun failover ::
  "('c, 'w) Net \<Rightarrow> workload \<Rightarrow> nat \<Rightarrow> 'c list \<Rightarrow> Block list \<Rightarrow> bytes \<Rightarrow> bytes \<Rightarrow> bytes \<Rightarrow> string \<Rightarrow> f64 \<Rightarrow> rpc_error option
     \<Rightarrow> progress \<Rightarrow> 'w \<Rightarrow> rpc_error option \<times> progress \<times> 'w" where
  "failover net w i [] blocks kvbuf expected rootKey tenant cost lastErr pg world = (lastErr, pg, world)"
| "failover net w i (conn # conns) blocks kvbuf expected rootKey tenant cost lastErr pg world =
     (case oneRequest net w conn blocks kvbuf expected pg (i = 0) rootKey tenant cost world of
        (None, pg', world') \<Rightarrow> (None, pg', world')
      | (Some err, pg', world') \<Rightarrow> failover net w (i + 1) conns blocks kvbuf expected rootKey tenant cost (Some err) pg' world')"

definition oneRequestWithFailover ::
  "('c, 'w) Net \<Rightarrow> workload \<Rightarrow> 'c list \<Rightarrow> Block list \<Rightarrow> bytes \<Rightarrow> bytes \<Rightarrow> bytes \<Rightarrow> string \<Rightarrow> f64
     \<Rightarrow> progress \<Rightarrow> 'w \<Rightarrow> rpc_error option \<times> progress \<times> 'w" where
  "oneRequestWithFailover net w conns blocks kvbuf expected rootKey tenant cost pg world =
     failover net w 0 conns blocks kvbuf expected rootKey tenant cost None pg world"

section \<open>A worker\<close>

text \<open>What an iteration reads from outside: the clock, the time since the start, the latency it measures, the router.\<close>

record 'c tick =
  tk_now :: time
  tk_since :: duration
  tk_latency :: duration
  tk_router :: "'c Router"

record ('g, 'w) runState =
  ru_pg :: progress
  ru_rng :: 'g
  ru_cursor :: nat
  ru_world :: 'w

definition gm_incr :: "'k \<Rightarrow> ('k, int) gomap \<Rightarrow> ('k, int) gomap" where
  "gm_incr k m = gm_put k ((case gm_get m k of None \<Rightarrow> 0 | Some v \<Rightarrow> v) + 1) m"

definition live_upd :: "(liveStats \<Rightarrow> liveStats) \<Rightarrow> progress \<Rightarrow> progress" where
  "live_upd f pg = pg\<lparr>pg_live := map_option f (pg_live pg)\<rparr>"

definition res_upd :: "(result \<Rightarrow> result) \<Rightarrow> progress \<Rightarrow> progress" where
  "res_upd f pg = pg\<lparr>pg_res := f (pg_res pg)\<rparr>"

text \<open>The tenant's share of a request, from the totals before and after it.\<close>

definition addTenant :: "string \<Rightarrow> nat \<Rightarrow> result \<Rightarrow> result \<Rightarrow> result" where
  "addTenant tenant nblocks pre res =
     (let tc = (case gm_get (rs_perTenant res) tenant of
                  Some tc \<Rightarrow> tc
                | None \<Rightarrow> \<lparr>tc_blocks = 0, tc_hits = 0, tc_writes = 0, tc_requests = 0\<rparr>)
      in res\<lparr>rs_perTenant := gm_put tenant
           \<lparr>tc_blocks = tc_blocks tc + int nblocks, tc_hits = tc_hits tc + (rs_hits res - rs_hits pre),
            tc_writes = tc_writes tc + (rs_writes res - rs_writes pre), tc_requests = tc_requests tc + 1\<rparr> (rs_perTenant res)\<rparr>)"

definition request ::
  "('c, 'w) Net \<Rightarrow> workload \<Rightarrow> 'c tick \<Rightarrow> tenantProfile option \<Rightarrow> Block list \<Rightarrow> progress \<Rightarrow> 'w \<Rightarrow> progress \<times> 'w" where
  "request net w tick tp blocks pg0 world =
     (let (tenantID, cost) = (case tp of Some t \<Rightarrow> (tp_id t, tp_cost t) | None \<Rightarrow> ([], 0));
          kvbuf = replicate (w_payloadBytes w) 0; expected = (if w_verify w then replicate (w_payloadBytes w) 0 else []);
          pg1 = res_upd (\<lambda>r. r\<lparr>rs_requests := rs_requests r + 1\<rparr>) pg0;
          rootKey = Hash (blocks ! 0);
          owner = fst (Owner rootKey (tk_router tick));
          conns = OwnerConns rootKey 2 (tk_router tick)
      in if conns = [] then
           (live_upd (\<lambda>l. l\<lparr>lv_degraded := lv_degraded l + 1\<rparr>) (res_upd (\<lambda>r. r\<lparr>rs_degraded := rs_degraded r + 1\<rparr>) pg1), world)
         else
           let pg2 = res_upd (\<lambda>r. r\<lparr>rs_perShard := gm_incr owner (rs_perShard r)\<rparr>) pg1;
               (err, pg3, world') = oneRequestWithFailover net w conns blocks kvbuf expected rootKey tenantID cost pg2 world;
               pg4 = res_upd (\<lambda>r. r\<lparr>rs_latencies := rs_latencies r @ [tk_latency tick], rs_blocks := rs_blocks r + int (length blocks)\<rparr>) pg3;
               pg5 = (case tp of None \<Rightarrow> pg4 | Some _ \<Rightarrow> res_upd (addTenant tenantID (length blocks) (pg_res pg2)) pg4);
               pg6 = live_upd (\<lambda>l. l\<lparr>lv_requests := lv_requests l + 1\<rparr>) pg5
           in (if err \<noteq> None
               then live_upd (\<lambda>l. l\<lparr>lv_errors := lv_errors l + 1\<rparr>) (res_upd (\<lambda>r. r\<lparr>rs_errors := rs_errors r + 1\<rparr>) pg6)
               else pg6, world'))"

text \<open>One iteration of the loop: \<^term>\<open>Inl\<close> when it leaves the loop.\<close>

definition runIter ::
  "('c, 'w) Net \<Rightarrow> 'g Rand \<Rightarrow> workload \<Rightarrow> nat \<Rightarrow> time option \<Rightarrow> 'c tick \<Rightarrow> nat \<Rightarrow> ('g, 'w) runState
     \<Rightarrow> ('g, 'w) runState + ('g, 'w) runState" where
  "runIter net R w n deadline tick i st =
     (if (case deadline of Some d \<Rightarrow> \<not> tk_now tick < d | None \<Rightarrow> w_trace w = None \<and> n \<le> i) then Inl st
      else let (tp, tokens, g, cursor) =
             (case w_tenants w of
                Some tenants \<Rightarrow>
                  let (t, g1) = pickTenant R (tk_since tick) tenants (ru_rng st); (toks, g2) = buildTenantTokens R w t g1
                  in (Some t, Some toks, g2, ru_cursor st)
              | None \<Rightarrow> let (toks, g1, c) = nextTokens R w deadline (ru_rng st) (ru_cursor st) in (None, toks, g1, c));
             st1 = st\<lparr>ru_rng := g, ru_cursor := cursor\<rparr>
           in case tokens of
                None \<Rightarrow> Inl st1
              | Some toks \<Rightarrow>
                  (case ChainBlocks (w_model w) toks (int (w_blockTokens w)) of
                     None \<Rightarrow> Inr st1
                   | Some blocks \<Rightarrow>
                       if blocks = [] then Inr st1
                       else let (pg, world) = request net w tick tp blocks (ru_pg st1) (ru_world st1)
                            in Inr (st1\<lparr>ru_pg := pg, ru_world := world\<rparr>)))"

partial_function (option) runLoop ::
  "('c, 'w) Net \<Rightarrow> 'g Rand \<Rightarrow> workload \<Rightarrow> nat \<Rightarrow> time option \<Rightarrow> (nat \<Rightarrow> 'c tick) \<Rightarrow> nat \<Rightarrow> ('g, 'w) runState
     \<Rightarrow> ('g, 'w) runState option" where
  "runLoop net R w n deadline ticks i st =
     (case runIter net R w n deadline (ticks i) i st of
        Inl st' \<Rightarrow> Some st'
      | Inr st' \<Rightarrow> runLoop net R w n deadline ticks (i + 1) st')"

definition run ::
  "('c, 'w) Net \<Rightarrow> 'g Rand \<Rightarrow> workload \<Rightarrow> nat \<Rightarrow> time option \<Rightarrow> (nat \<Rightarrow> 'c tick) \<Rightarrow> liveStats option \<Rightarrow> 'g \<Rightarrow> nat \<Rightarrow> 'w
     \<Rightarrow> ('g, 'w) runState option" where
  "run net R w n deadline ticks live g cursor world =
     runLoop net R w n deadline ticks 0
       \<lparr>ru_pg = \<lparr>pg_res = emptyResult, pg_live = live\<rparr>, ru_rng = g, ru_cursor = cursor, ru_world = world\<rparr>"

section \<open>The report\<close>

definition addCounts :: "tenantCounts \<Rightarrow> tenantCounts \<Rightarrow> tenantCounts" where
  "addCounts a tc = \<lparr>tc_blocks = tc_blocks a + tc_blocks tc, tc_hits = tc_hits a + tc_hits tc,
     tc_writes = tc_writes a + tc_writes tc, tc_requests = tc_requests a + tc_requests tc\<rparr>"

definition addResult :: "result \<Rightarrow> result \<Rightarrow> result" where
  "addResult r t =
     \<lparr>rs_requests = rs_requests t + rs_requests r, rs_blocks = rs_blocks t + rs_blocks r, rs_hits = rs_hits t + rs_hits r,
      rs_writes = rs_writes t + rs_writes r, rs_errors = rs_errors t + rs_errors r, rs_degraded = rs_degraded t + rs_degraded r,
      rs_violations = rs_violations t + rs_violations r,
      rs_perShard = fold (\<lambda>(node, c) m. gm_put node ((case gm_get m node of None \<Rightarrow> 0 | Some v \<Rightarrow> v) + c) m) (rs_perShard r) (rs_perShard t),
      rs_perTenant = fold (\<lambda>(ident, tc) m. gm_put ident (addCounts (case gm_get m ident of
          Some agg \<Rightarrow> agg
        | None \<Rightarrow> \<lparr>tc_blocks = 0, tc_hits = 0, tc_writes = 0, tc_requests = 0\<rparr>) tc) m) (rs_perTenant r) (rs_perTenant t),
      rs_latencies = rs_latencies t @ rs_latencies r\<rparr>"

text \<open>A panic (an index below 0) is \<^term>\<open>None\<close>.\<close>

definition percentile :: "duration list \<Rightarrow> f64 \<Rightarrow> duration option" where
  "percentile lats p =
     (if length lats = 0 then Some 0
      else let idx0 = sint (int64_of_f64 (p * f64_of_int (int (length lats))));
               idx = (if int (length lats) \<le> idx0 then int (length lats) - 1 else idx0)
           in if idx < 0 then None else Some (lats ! nat idx))"

definition rate :: "int \<Rightarrow> int \<Rightarrow> f64" where
  "rate part whole = (if 0 < whole then f64_of_int part / f64_of_int whole * Fin 100 else 0)"

text \<open>What is printed: the totals with sorted latencies, the hit rate, the percentiles, the shares of shards and tenants.\<close>

record report =
  rp_totals :: result
  rp_hitRate :: f64
  rp_percentiles :: "duration option list"
  rp_shards :: "(string \<times> int \<times> f64) list"
  rp_tenants :: "(string \<times> int \<times> int \<times> f64) list"

definition reportDistribution :: "(string list \<Rightarrow> string list) \<Rightarrow> (string, int) gomap \<Rightarrow> int \<Rightarrow> (string \<times> int \<times> f64) list" where
  "reportDistribution sortStrings perShard reqs =
     map (\<lambda>n. let c = the (gm_get perShard n) in (n, c, rate c reqs)) (sortStrings (map fst perShard))"

definition reportTenants :: "(string list \<Rightarrow> string list) \<Rightarrow> (string, tenantCounts) gomap \<Rightarrow> (string \<times> int \<times> int \<times> f64) list" where
  "reportTenants sortStrings perTenant =
     map (\<lambda>ident. let tc = the (gm_get perTenant ident) in (ident, tc_requests tc, tc_blocks tc, rate (tc_hits tc) (tc_blocks tc)))
       (sortStrings (map fst perTenant))"

text \<open>The second result is the number of violations.\<close>

definition report :: "(string list \<Rightarrow> string list) \<Rightarrow> result list \<Rightarrow> report \<times> int" where
  "report sortStrings results =
     (let t = fold addResult results emptyResult; lats = sort (rs_latencies t)
      in (\<lparr>rp_totals = t\<lparr>rs_latencies := lats\<rparr>, rp_hitRate = rate (rs_hits t) (rs_blocks t),
           rp_percentiles = map (percentile lats) [rnd (50 / 100), rnd (95 / 100), rnd (99 / 100)],
           rp_shards = reportDistribution sortStrings (rs_perShard t) (rs_requests t),
           rp_tenants = reportTenants sortStrings (rs_perTenant t)\<rparr>,
          rs_violations t))"

text \<open>The exit code of a run.\<close>

definition exitCode :: "bool \<Rightarrow> int \<Rightarrow> int" where
  "exitCode verify violations = (if verify \<and> 0 < violations then 1 else 0)"

section \<open>Traces and membership\<close>

datatype trace_error = OpenTrace string | TraceLine nat string | ReadTrace string

text \<open>The lines the scanner yields, with the error it ended with; \<open>unmarshal\<close> is \<^verbatim>\<open>json.Unmarshal\<close>.\<close>

fun scanTrace :: "(string \<Rightarrow> string + traceRecord) \<Rightarrow> nat \<Rightarrow> string list \<Rightarrow> traceRecord list \<Rightarrow> trace_error + traceRecord list" where
  "scanTrace unmarshal line [] recs = Inr recs"
| "scanTrace unmarshal line (b # bs) recs =
     (if b = [] then scanTrace unmarshal (line + 1) bs recs
      else case unmarshal b of
             Inl err \<Rightarrow> Inl (TraceLine (line + 1) err)
           | Inr r \<Rightarrow> scanTrace unmarshal (line + 1) bs (if 0 < length (tr_Tokens r) then recs @ [r] else recs))"

definition loadTrace :: "(string \<Rightarrow> string + traceRecord) \<Rightarrow> string option \<Rightarrow> string list \<Rightarrow> string option \<Rightarrow> trace_error + traceRecord list" where
  "loadTrace unmarshal open_err lines scan_err =
     (case open_err of
        Some err \<Rightarrow> Inl (OpenTrace err)
      | None \<Rightarrow>
          (case scanTrace unmarshal 0 lines [] of
             Inl err \<Rightarrow> Inl err
           | Inr recs \<Rightarrow> (case scan_err of Some err \<Rightarrow> Inl (ReadTrace err) | None \<Rightarrow> Inr recs)))"

definition splitMembers :: "string \<Rightarrow> string list" where
  "splitMembers s = filter (\<lambda>a. a \<noteq> []) (map TrimSpace (Split (CHR '','') s))"

definition staticMembers :: "string list \<Rightarrow> Member list" where
  "staticMembers addrs = map (\<lambda>a. \<lparr>mem_ID = a, mem_Addr = a\<rparr>) addrs"

datatype join_error = JoinDial string | JoinWatch coord_error | JoinClosed | JoinTimeout

text \<open>
  Applying snapshots until the first that is not empty, on the events of the wait: \<^term>\<open>Some snap\<close>, \<^term>\<open>None\<close> for a
  closed channel, the end of the list for the timeout. The snapshots left are for the background driver.
\<close>

fun awaitMembers ::
  "(vpoint list \<Rightarrow> vpoint list) \<Rightarrow> ('c list \<Rightarrow> string \<Rightarrow> 'c option) \<Rightarrow> Member list option list \<Rightarrow> 'c Router
     \<Rightarrow> (join_error + Member list option list) \<times> 'c Router" where
  "awaitMembers sortSlice newClient [] r = (Inl JoinTimeout, r)"
| "awaitMembers sortSlice newClient (None # evs) r = (Inl JoinClosed, r)"
| "awaitMembers sortSlice newClient (Some snap # evs) r =
     (let r' = SetMembers sortSlice newClient snap r
      in if 0 < length snap then (Inr evs, r') else awaitMembers sortSlice newClient evs r')"

definition startEtcdMembership ::
  "(vpoint list \<Rightarrow> vpoint list) \<Rightarrow> ('c list \<Rightarrow> string \<Rightarrow> 'c option) \<Rightarrow> (string list \<Rightarrow> string option) \<Rightarrow> coord_error option
     \<Rightarrow> Member list option list \<Rightarrow> string \<Rightarrow> 'c Router \<Rightarrow> (join_error + Member list option list) \<times> 'c Router" where
  "startEtcdMembership sortSlice newClient dial watch evs endpoints r =
     (case dial (splitMembers endpoints) of
        Some err \<Rightarrow> (Inl (JoinDial err), r)
      | None \<Rightarrow> (case watch of Some err \<Rightarrow> (Inl (JoinWatch err), r) | None \<Rightarrow> awaitMembers sortSlice newClient evs r))"

section \<open>The cold-tier check\<close>

datatype verify_fatal = NoFullBlock | NoOwner bytes | WriteFailed bytes rpc_error

fun promptBlocks :: "'g Rand \<Rightarrow> string \<Rightarrow> nat \<Rightarrow> nat \<Rightarrow> 'g \<Rightarrow> (verify_fatal + Block list) \<times> 'g" where
  "promptBlocks R model blockTokens 0 g = (Inr [], g)"
| "promptBlocks R model blockTokens (Suc k) g =
     (let (toks, g1) = randomTokens R blockTokens g
      in case ChainBlocks model toks (int blockTokens) of
           Some (b # bs) \<Rightarrow>
             (case promptBlocks R model blockTokens k g1 of
                (Inl err, g2) \<Rightarrow> (Inl err, g2)
              | (Inr blocks, g2) \<Rightarrow> (Inr (b # blocks), g2))
         | _ \<Rightarrow> (Inl NoFullBlock, g1))"

fun writeAll :: "('c, 'w) Net \<Rightarrow> workload \<Rightarrow> 'c Router \<Rightarrow> Block list \<Rightarrow> 'w \<Rightarrow> verify_fatal option \<times> 'w" where
  "writeAll net w router [] world = (None, world)"
| "writeAll net w router (b # bs) world =
     (case OwnerConns (Hash b) 1 router of
        [] \<Rightarrow> (Some (NoOwner (Hash b)), world)
      | conn # _ \<Rightarrow>
          (case writeBlock net w conn b (replicate (w_payloadBytes w) 0) (Hash b) [] 0 world of
             (Some err, world') \<Rightarrow> (Some (WriteFailed (Hash b) err), world')
           | (None, world') \<Rightarrow> writeAll net w router bs world'))"

text \<open>The owners of a block in turn, up to the first that answers.\<close>

fun fetchAny :: "('c, 'w) Net \<Rightarrow> workload \<Rightarrow> 'c list \<Rightarrow> Block \<Rightarrow> progress \<Rightarrow> 'w \<Rightarrow> bool \<times> progress \<times> 'w" where
  "fetchAny net w [] b pg world = (False, pg, world)"
| "fetchAny net w (conn # conns) b pg world =
     (case fetch net w conn b (replicate (w_payloadBytes w) 0) pg world of
        ((hit, Some err), pg', world') \<Rightarrow> fetchAny net w conns b pg' world'
      | ((hit, None), pg', world') \<Rightarrow> (hit, pg', world'))"

fun fetchAll :: "('c, 'w) Net \<Rightarrow> workload \<Rightarrow> 'c Router \<Rightarrow> Block list \<Rightarrow> nat \<Rightarrow> progress \<Rightarrow> 'w \<Rightarrow> nat \<times> progress \<times> 'w" where
  "fetchAll net w router [] served pg world = (served, pg, world)"
| "fetchAll net w router (b # bs) served pg world =
     (case fetchAny net w (OwnerConns (Hash b) 2 router) b pg world of
        (got, pg', world') \<Rightarrow> fetchAll net w router bs (if got then served + 1 else served) pg' world')"

text \<open>The exit code, or the fatal error. \<open>settle\<close> is what happens in the world during the pause.\<close>

definition runColdtierVerify ::
  "('c, 'w) Net \<Rightarrow> 'g Rand \<Rightarrow> ('w \<Rightarrow> 'w) \<Rightarrow> 'c Router \<Rightarrow> string \<Rightarrow> nat \<Rightarrow> nat \<Rightarrow> nat \<Rightarrow> 'g \<Rightarrow> 'w \<Rightarrow> (verify_fatal + int) \<times> 'w" where
  "runColdtierVerify net R settle router model blockTokens payloadBytes nBlocks g world =
     (let w = \<lparr>w_model = model, w_blockTokens = blockTokens, w_payloadBytes = payloadBytes, w_prefixShare = 0, w_prefixBlocks = 0,
               w_tailBlocks = 0, w_hotPrefix = [], w_verify = True, w_trace = None, w_tenants = None\<rparr>
      in case promptBlocks R model blockTokens nBlocks g of
           (Inl err, _) \<Rightarrow> (Inl err, world)
         | (Inr blocks, _) \<Rightarrow>
             (case writeAll net w router blocks world of
                (Some err, world1) \<Rightarrow> (Inl err, world1)
              | (None, world1) \<Rightarrow>
                  (case fetchAll net w router blocks 0 \<lparr>pg_res = emptyResult, pg_live = None\<rparr> (settle world1) of
                     (served, pg, world2) \<Rightarrow>
                       (Inr (if served \<noteq> length blocks \<or> 0 < rs_violations (pg_res pg) then 1 else 0), world2))))"

end
