(* ===== verification/Loadgen_Correct.thy ===== *)
theory Loadgen_Correct
  imports Loadgen Provenance
begin

text \<open>
  What the load generator shows and how far it can be trusted: which blocks its byte pattern tells apart, that
  a run against the modelled shards never reports a violation, that it returns, and how its counters add up.
\<close>

section \<open>The pattern\<close>

unbundle bit_operations_syntax

lemma xor_shift_right_inj:
  fixes x y :: uint64
  assumes "0 < k" and "x XOR drop_bit k x = y XOR drop_bit k y"
  shows "x = y"
proof (rule bit_word_eqI)
  have step: "(bit x i = bit y i) = (bit x (i + k) = bit y (i + k))" for i
    using arg_cong [OF assms(2), of "\<lambda>z. bit z i"] by (simp add: bit_xor_iff bit_drop_bit_eq add.commute) blast
  have all: "(bit x i = bit y i) = (bit x (i + j * k) = bit y (i + j * k))" for i j
  proof (induction j)
    case (Suc j)
    have "i + Suc j * k = (i + j * k) + k" by simp
    then show ?case using Suc step [of "i + j * k"] by (simp only:)
  qed simp
  fix i :: nat assume "i < LENGTH(64)"
  have "64 \<le> i + 64 * k" using assms(1) by (cases k) simp_all
  then have "\<not> bit x (i + 64 * k)" "\<not> bit y (i + 64 * k)" using bit_imp_le_length by fastforce+
  then show "bit x i = bit y i" using all [of i 64] by simp
qed

lemma xor_shift_left_inj:
  fixes x y :: uint64
  assumes "0 < k" and "x XOR push_bit k x = y XOR push_bit k y"
  shows "x = y"
proof (rule bit_word_eqI)
  fix i :: nat assume "i < LENGTH(64)"
  then show "bit x i = bit y i"
  proof (induction i rule: less_induct)
    case (less i)
    have "(bit x i \<noteq> (k \<le> i \<and> bit x (i - k))) = (bit y i \<noteq> (k \<le> i \<and> bit y (i - k)))"
      using arg_cong [OF assms(2), of "\<lambda>z. bit z i"] less.prems by (simp add: bit_xor_iff bit_push_bit_iff)
    moreover have "bit x (i - k) = bit y (i - k)" if "k \<le> i" using less that assms(1) by simp
    ultimately show ?case by blast
  qed
qed

lemma xorshift_inj: "xorshift x = xorshift y \<longleftrightarrow> x = y"
proof
  assume "xorshift x = xorshift y"
  then have "(x XOR drop_bit 12 x) XOR push_bit 25 (x XOR drop_bit 12 x) = (y XOR drop_bit 12 y) XOR push_bit 25 (y XOR drop_bit 12 y)"
    unfolding xorshift_def Let_def by (rule xor_shift_right_inj [rotated]) simp
  then have "x XOR drop_bit 12 x = y XOR drop_bit 12 y" by (rule xor_shift_left_inj [rotated]) simp
  then show "x = y" by (rule xor_shift_right_inj [rotated]) simp
qed simp

text \<open>The multiplier is odd, hence invertible.\<close>

lemma scramble_inj: "(x :: uint64) * 0x2545F4914F6CDD1D = y * 0x2545F4914F6CDD1D \<longleftrightarrow> x = y"
proof
  have "(0x2545F4914F6CDD1D :: uint64) * 0x59071d96d81ecd35 = 1" by simp
  then have cancel: "z * 0x2545F4914F6CDD1D * 0x59071d96d81ecd35 = z" for z :: uint64 by (simp only: mult.assoc mult_1_right)
  assume "x * 0x2545F4914F6CDD1D = y * 0x2545F4914F6CDD1D"
  then have "x * 0x2545F4914F6CDD1D * 0x59071d96d81ecd35 = y * 0x2545F4914F6CDD1D * 0x59071d96d81ecd35" by (rule arg_cong)
  then show "x = y" unfolding cancel .
qed simp

lemma length_fillLoop [simp]: "length (fillLoop n x) = n"
proof (induction n arbitrary: x rule: less_induct)
  case (less n)
  show ?case
  proof (cases "8 \<le> n")
    case True
    then have "length (fillLoop (n - 8) (xorshift x)) = n - 8" by (intro less.IH) simp
    then show ?thesis using True by (subst fillLoop.simps) (simp add: Let_def)
  qed (subst fillLoop.simps, simp)
qed

lemma fillLoop_inj: "8 \<le> n \<Longrightarrow> fillLoop n x = fillLoop n y \<longleftrightarrow> x = y"
proof
  assume n: "8 \<le> n" and eq: "fillLoop n x = fillLoop n y"
  have "take 8 (fillLoop n z) = le_bytes 8 (xorshift z * 0x2545F4914F6CDD1D)" for z
    using n by (subst fillLoop.simps) (simp add: Let_def)
  then have "le_bytes 8 (xorshift x * 0x2545F4914F6CDD1D) = le_bytes 8 (xorshift y * 0x2545F4914F6CDD1D)" using eq by metis
  then have "xorshift x * 0x2545F4914F6CDD1D = xorshift y * 0x2545F4914F6CDD1D" by (metis le_u64_roundtrip)
  then show "x = y" by (simp only: scramble_inj xorshift_inj)
qed simp

lemma equalLoop_eq: "length a = length b \<Longrightarrow> equalLoop a b \<longleftrightarrow> a = b"
  by (induction a b rule: equalLoop.induct) auto

lemma equalBytes_eq: "equalBytes a b \<longleftrightarrow> a = b"
  by (auto simp: equalBytes_def equalLoop_eq)

text \<open>
  What the verification pattern can tell apart. It fills exactly the buffer, and for blocks of at
  least eight bytes the contents of two blocks are equal exactly when the seeds folded from their hashes are, so
  serving one block for another is detected unless the four words of the two hashes fold to the same seed.
\<close>

lemma fillVerifiable_distinguishes:
  "length (fillVerifiable buf h) = length buf \<and>
   (8 \<le> length buf \<longrightarrow> (equalBytes (fillVerifiable buf h) (fillVerifiable buf h') \<longleftrightarrow> verifySeed h = verifySeed h'))"
  by (simp add: fillVerifiable_def equalBytes_eq fillLoop_inj)

text \<open>Permuting the words of a hash keeps the seed, so different blocks can have the same content.\<close>

lemma fillVerifiable_collides:
  "let a = [1] @ replicate 31 0; b = replicate 8 0 @ [1] @ replicate 23 0
   in length a = 32 \<and> length b = 32 \<and> a \<noteq> b \<and> fillVerifiable buf a = fillVerifiable buf b"
  by (simp add: fillVerifiable_def verifySeed_def Let_def numeral_eq_Suc)

section \<open>A service that stores the pattern\<close>

text \<open>The content of a block of \<open>n\<close> bytes; the buffer it is written into does not matter.\<close>

definition pattern :: "nat \<Rightarrow> bytes \<Rightarrow> bytes" where
  "pattern n h = fillLoop n (verifySeed h)"

lemma fillVerifiable_pattern: "fillVerifiable buf h = pattern (length buf) h"
  by (simp add: fillVerifiable_def pattern_def)

text \<open>A verifying worker with blocks of \<open>n\<close> bytes that use the keys \<open>A\<close>.\<close>

definition asks :: "(string \<times> bytes) set \<Rightarrow> nat \<Rightarrow> workload \<Rightarrow> Block list \<Rightarrow> bool" where
  "asks A n w blocks \<longleftrightarrow> w_verify w \<and> w_payloadBytes w = n \<and> (\<forall>b \<in> set blocks. (w_model w, Hash b) \<in> A \<and> length (TokenIDs b) < 2 ^ 32)"

text \<open>The blocks an iteration asks for: those of the prompt it draws in this state, or none.\<close>

definition drawn :: "'g Rand \<Rightarrow> workload \<Rightarrow> nat \<Rightarrow> time option \<Rightarrow> 'c tick \<Rightarrow> nat \<Rightarrow> ('g, 'w) runState \<Rightarrow> Block list" where
  "drawn R w k deadline tick i st =
     (if (case deadline of Some d \<Rightarrow> \<not> tk_now tick < d | None \<Rightarrow> w_trace w = None \<and> k \<le> i) then []
      else case (case w_tenants w of
                   Some tenants \<Rightarrow> let (t, g) = pickTenant R (tk_since tick) tenants (ru_rng st) in Some (fst (buildTenantTokens R w t g))
                 | None \<Rightarrow> fst (nextTokens R w deadline (ru_rng st) (ru_cursor st))) of
             None \<Rightarrow> []
           | Some toks \<Rightarrow> (case ChainBlocks (w_model w) toks (int (w_blockTokens w)) of None \<Rightarrow> [] | Some blocks \<Rightarrow> blocks))"

text \<open>
  \<open>A\<close> are the keys in use and \<open>n\<close> the size of a block. As long as only patterns are written under them, only
  patterns are read.
\<close>

locale pattern_service =
  fixes net :: "('c, 'w) Net" and inv :: "'w \<Rightarrow> bool" and A :: "(string \<times> bytes) set" and n :: nat
  assumes lookup_law: "inv w \<Longrightarrow> inv (snd (net_Lookup net c model hs w))"
    and fetch_inv: "inv w \<Longrightarrow> inv (snd (net_Fetch net c model req w))"
    and fetch_law: "inv w \<Longrightarrow> (model, fb_BlockHash req) \<in> A \<Longrightarrow> fst (net_Fetch net c model req w) = Inr (frames, None) \<Longrightarrow>
      concat (map c_Data frames) = pattern n (fb_BlockHash req)"
    and write_law: "inv w \<Longrightarrow> (wh_ModelId hdr, wh_BlockHash hdr) \<in> A \<Longrightarrow> length (wh_TokenIds hdr) < 2 ^ 32 \<Longrightarrow>
      concat (map c_Data cs) = pattern n (wh_BlockHash hdr) \<Longrightarrow> inv (snd (net_Write net c w) (Header hdr # map Chunk cs) EOF)"
    and abort_law: "inv w \<Longrightarrow> inv (snd (net_Write net c w) msgs (RecvError e))"
begin

lemma fetch_ok:
  assumes "inv world" and "asks A n w [b]" and "length expected = n" and "fetch net w conn b expected pg world = (r, pg', world')"
  shows "inv world' \<and> pg' = pg"
proof -
  let ?req = "\<lparr>fb_BlockHash = Hash b, fb_Version = 0, fb_TokenIds = TokenIDs b\<rparr>"
  obtain res world1 where f: "net_Fetch net conn (w_model w) ?req world = (res, world1)" by (cases "net_Fetch net conn (w_model w) ?req world")
  have i: "inv world1" using fetch_inv [OF assms(1), of conn "w_model w" ?req] f by simp
  have "concat (map c_Data frames) = pattern n (Hash b)" if "res = Inr (frames, None)" for frames
    using fetch_law [OF assms(1), of "w_model w" ?req conn frames] f that assms(2) by (simp add: asks_def)
  then show ?thesis
    using assms(3,4) f i by (auto simp: fetch_def Let_def fillVerifiable_pattern equalBytes_eq split: sum.splits option.splits)
qed

lemma write_ok:
  assumes "inv world" and "asks A n w [b]" and "length buf = n" and "writeBlock net w conn b buf rk tenant cost world = (e, world')"
  shows "inv world'"
proof -
  obtain call after where nw: "net_Write net conn world = (call, after)" by (cases "net_Write net conn world")
  let ?kv = "pattern n (Hash b)" and ?mk = "\<lambda>d l. Chunk \<lparr>c_Data = d, c_Last = l\<rparr>"
  let ?hdr = "writeHeader w b ?kv rk tenant cost"
  have kv: "(if w_verify w then fillVerifiable buf (Hash b) else buf) = ?kv"
    using assms(2,3) by (simp add: asks_def fillVerifiable_pattern)
  have hdr: "(wh_ModelId ?hdr, wh_BlockHash ?hdr) \<in> A" "length (wh_TokenIds ?hdr) < 2 ^ 32" "wh_BlockHash ?hdr = Hash b"
    using assms(2) by (simp_all add: writeHeader_def asks_def)
  have ab: "inv (after msgs (RecvError x))" for msgs x using abort_law [OF assms(1), of conn msgs x] nw by simp
  have "inv (after sent' EOF)" if "chunkLoop writeChunkBytes ?mk (wc_send call) ?kv 0 [Header ?hdr] = (None, sent')" for sent'
  proof -
    define cs where "cs = (if ?kv = [] then [] else map (\<lambda>(d, l). \<lparr>c_Data = d, c_Last = l\<rparr>) (pieces writeChunkBytes ?kv))"
    have "sent' = Header ?hdr # map Chunk cs"
    proof (cases "?kv = []")
      case True
      then show ?thesis using that by (simp add: chunkLoop.simps cs_def)
    next
      case False
      then show ?thesis
        using that chunkLoop_prefix [of writeChunkBytes 0 ?kv ?mk "wc_send call" "[Header ?hdr]"]
        by (simp add: cs_def writeChunkBytes_def split_def o_def)
    qed
    moreover have "concat (map c_Data cs) = ?kv"
      using pieces_data [of writeChunkBytes ?kv] by (simp add: cs_def o_def split_def)
    ultimately show ?thesis using write_law [OF assms(1) hdr(1,2), of cs conn] hdr(3) nw by simp
  qed
  then show ?thesis
    using assms(1,4) nw kv ab
    by (auto simp: writeBlock_def Let_def streamSend_def split: option.splits prod.splits)
qed

lemma asks_nth: "asks A n w blocks \<Longrightarrow> i < length blocks \<Longrightarrow> asks A n w [blocks ! i]"
  by (simp add: asks_def)

lemma fetchRun_ok:
  assumes "inv world" and "asks A n w blocks" and "length expected = n" and "fetchRun net w conn blocks expected i k pg world = (r, pg', world')"
  shows "inv world' \<and> rs_violations (pg_res pg') = rs_violations (pg_res pg)"
  using assms(1,4)
proof (induction "k - i" arbitrary: i pg world rule: less_induct)
  case less
  show ?case
  proof (cases "i < k \<and> i < length blocks")
    case True
    obtain hit e pg1 world1 where f: "fetch net w conn (blocks ! i) expected pg world = ((hit, e), pg1, world1)"
      by (cases "fetch net w conn (blocks ! i) expected pg world") auto
    have ok: "inv world1" "pg1 = pg" using fetch_ok [OF less.prems(1) asks_nth [OF assms(2)] assms(3) f] True by simp_all
    let ?pg = "pg1\<lparr>pg_res := (pg_res pg1)\<lparr>rs_hits := rs_hits (pg_res pg1) + 1\<rparr>\<rparr>"
    show ?thesis
    proof (cases "e = None \<and> hit")
      case hit: True
      then have "fetchRun net w conn blocks expected (i + 1) k ?pg world1 = (r, pg', world')"
        using less.prems(2) True f by (subst (asm) fetchRun.simps) simp
      moreover have "k - (i + 1) < k - i" using True by linarith
      ultimately show ?thesis using less.hyps ok by fastforce
    next
      case False
      then show ?thesis
        using less.prems(2) True f ok by (subst (asm) fetchRun.simps) (auto split: option.splits)
    qed
  next
    case False
    then show ?thesis using less.prems by (subst (asm) fetchRun.simps) (auto split: if_splits)
  qed
qed

lemma writeMisses_ok:
  assumes "inv world" and "asks A n w bs" and "length buf = n" and "writeMisses net w conn buf rk tenant cost bs pg world = (e, pg', world')"
  shows "inv world' \<and> rs_violations (pg_res pg') = rs_violations (pg_res pg)"
  using assms(1,2,4)
proof (induction bs arbitrary: pg world)
  case (Cons b bs)
  have a: "asks A n w [b]" "asks A n w bs" using Cons.prems(2) by (simp_all add: asks_def)
  obtain e1 world1 where f: "writeBlock net w conn b buf rk tenant cost world = (e1, world1)"
    by (cases "writeBlock net w conn b buf rk tenant cost world")
  have i: "inv world1" by (rule write_ok [OF Cons.prems(1) a(1) assms(3) f])
  show ?case using Cons.IH [OF i a(2)] Cons.prems(3) f i by (cases e1) fastforce+
qed simp

lemma oneRequest_ok:
  assumes "inv world" and "asks A n w blocks" and "length buf = n" and "length expected = n"
    and "oneRequest net w conn blocks buf expected pg allow rk tenant cost world = (e, pg', world')"
  shows "inv world' \<and> rs_violations (pg_res pg') = rs_violations (pg_res pg)"
proof -
  obtain l world1 where lk: "net_Lookup net conn (w_model w) (map Hash blocks) world = (l, world1)"
    by (cases "net_Lookup net conn (w_model w) (map Hash blocks) world")
  have i1: "inv world1" using lookup_law [OF assms(1), of conn "w_model w" "map Hash blocks"] lk by simp
  show ?thesis
  proof (cases l)
    case (Inl err)
    then show ?thesis using assms(5) lk i1 by (simp add: oneRequest_def)
  next
    case (Inr bps)
    let ?run = "length (takeWhile bp_HasEntry bps)"
    obtain e1 k pg1 world2 where f: "fetchRun net w conn blocks expected 0 ?run pg world1 = ((e1, k), pg1, world2)"
      by (cases "fetchRun net w conn blocks expected 0 ?run pg world1") auto
    have ok: "inv world2" "rs_violations (pg_res pg1) = rs_violations (pg_res pg)"
      using fetchRun_ok [OF i1 assms(2,4) f] by simp_all
    have a: "asks A n w (drop k blocks)" using assms(2) in_set_dropD by (fastforce simp: asks_def)
    show ?thesis
    proof (cases "e1 = None \<and> allow")
      case True
      then have "writeMisses net w conn buf rk tenant cost (drop k blocks) pg1 world2 = (e, pg', world')"
        using assms(5) lk Inr f by (simp add: oneRequest_def)
      from writeMisses_ok [OF ok(1) a assms(3) this] ok(2) show ?thesis by simp
    next
      case False
      then show ?thesis using assms(5) lk Inr f ok by (auto simp: oneRequest_def split: option.splits)
    qed
  qed
qed

lemma failover_ok:
  assumes "inv world" and "asks A n w blocks" and "length buf = n" and "length expected = n"
    and "failover net w i conns blocks buf expected rk tenant cost lastErr pg world = (e, pg', world')"
  shows "inv world' \<and> rs_violations (pg_res pg') = rs_violations (pg_res pg)"
  using assms(1,5)
proof (induction conns arbitrary: i lastErr pg world)
  case (Cons conn conns)
  obtain e1 pg1 world1 where f: "oneRequest net w conn blocks buf expected pg (i = 0) rk tenant cost world = (e1, pg1, world1)"
    by (cases "oneRequest net w conn blocks buf expected pg (i = 0) rk tenant cost world")
  have ok: "inv world1" "rs_violations (pg_res pg1) = rs_violations (pg_res pg)"
    using oneRequest_ok [OF Cons.prems(1) assms(2-4) f] by simp_all
  show ?case using Cons.IH [OF ok(1)] Cons.prems(2) f ok by (cases e1) fastforce+
qed simp

lemma request_ok:
  assumes "inv world" and "asks A n w blocks" and "request net w tick tp blocks pg world = (pg', world')"
  shows "inv world' \<and> rs_violations (pg_res pg') = rs_violations (pg_res pg)"
proof (cases "OwnerConns (Hash (blocks ! 0)) 2 (tk_router tick) = []")
  case True
  then show ?thesis
    using assms(1,3) by (auto simp: request_def Let_def res_upd_def live_upd_def split: prod.splits)
next
  case False
  let ?conns = "OwnerConns (Hash (blocks ! 0)) 2 (tk_router tick)" and ?rk = "Hash (blocks ! 0)"
  let ?b = "replicate (w_payloadBytes w) 0" and ?e = "if w_verify w then replicate (w_payloadBytes w) 0 else []"
  let ?pg2 = "res_upd (\<lambda>r. r\<lparr>rs_perShard := gm_incr (fst (Owner ?rk (tk_router tick))) (rs_perShard r)\<rparr>)
      (res_upd (\<lambda>r. r\<lparr>rs_requests := rs_requests r + 1\<rparr>) pg)"
  obtain tenant cost where t: "(case tp of Some t \<Rightarrow> (tp_id t, tp_cost t) | None \<Rightarrow> ([], 0)) = (tenant, cost)" by fastforce
  obtain e pg3 world3 where f: "oneRequestWithFailover net w ?conns blocks ?b ?e ?rk tenant cost ?pg2 world = (e, pg3, world3)"
    by (cases "oneRequestWithFailover net w ?conns blocks ?b ?e ?rk tenant cost ?pg2 world")
  have len: "length ?b = n" "length ?e = n" using assms(2) by (simp_all add: asks_def)
  have ok: "inv world3" "rs_violations (pg_res pg3) = rs_violations (pg_res pg)"
    using failover_ok [OF assms(1,2) len f [unfolded oneRequestWithFailover_def]] by (simp_all add: res_upd_def)
  have "world' = world3 \<and> rs_violations (pg_res pg') = rs_violations (pg_res pg3)"
    using assms(3) False t f unfolding request_def
    by (auto simp: Let_def res_upd_def live_upd_def addTenant_def split: option.splits if_splits)
  then show ?thesis using ok by simp
qed

definition state_ok :: "('g, 'w) runState \<Rightarrow> bool" where
  "state_ok st \<longleftrightarrow> inv (ru_world st) \<and> rs_violations (pg_res (ru_pg st)) = 0"

lemma runIter_ok:
  assumes "state_ok st" and "asks A n w (drawn R w k deadline tick i st)"
  shows "case runIter net R w k deadline tick i st of Inl st' \<Rightarrow> state_ok st' | Inr st' \<Rightarrow> state_ok st'"
proof -
  have served: "inv (snd (request net w tick tp blocks (ru_pg st) (ru_world st)))"
      "rs_violations (pg_res (fst (request net w tick tp blocks (ru_pg st) (ru_world st)))) = 0" if "asks A n w blocks" for tp blocks
    using request_ok [of "ru_world st" w blocks tick tp "ru_pg st"] that assms(1)
    by (cases "request net w tick tp blocks (ru_pg st) (ru_world st)", simp add: state_ok_def)+
  define stop where "stop \<longleftrightarrow> (case deadline of Some d \<Rightarrow> \<not> tk_now tick < d | None \<Rightarrow> w_trace w = None \<and> k \<le> i)"
  note iter = runIter_def [of net R w k deadline tick i st, folded stop_def]
    and drawn = drawn_def [of R w k deadline tick i st, folded stop_def]
  show ?thesis
    using assms unfolding drawn
    by (cases "w_tenants w") (auto simp: iter Let_def split_def state_ok_def served split: option.splits if_splits)
qed

end

section \<open>The modelled shards behind the network\<close>

text \<open>No two of the keys collide under SHA-256, and the blocks verifying clients write under them.\<close>

definition collision_free :: "(string \<times> bytes) set \<Rightarrow> bool" where
  "collision_free A \<longleftrightarrow> (\<forall>(m, h) \<in> A. \<forall>(m', h') \<in> A. \<not> key_collision m h m' h')"

definition verified :: "(string \<times> bytes) set \<Rightarrow> nat \<Rightarrow> written set" where
  "verified A n = {(m, h, toks, kv). (m, h) \<in> A \<and> length toks < 2 ^ 32 \<and> kv = pattern n h}"

text \<open>
  The circumstances of the \<open>t\<close>-th call: what happened on the shards since the last one, whether the call reaches
  its shard, the clock there, and the errors of the streams.
\<close>

record ('c, 'p, 'q) circumstances =
  ci_between :: "nat \<Rightarrow> ('c \<Rightarrow> ('p, s3_sink, 'q) Server) \<Rightarrow> 'c \<Rightarrow> ('p, s3_sink, 'q) Server"
  ci_fault :: "nat \<Rightarrow> 'c \<Rightarrow> rpc_error option"
  ci_now :: "nat \<Rightarrow> time"
  ci_send :: "nat \<Rightarrow> sendErr"
  ci_ack :: "nat \<Rightarrow> string option"

fun rpc_of :: "srv_error \<Rightarrow> rpc_error" where
  "rpc_of (NotFound msg) = RpcNotFound msg"
| "rpc_of _ = RpcError []"

definition shard_net ::
  "'p EvictionPolicy \<Rightarrow> ('c, 'p, 'q) circumstances \<Rightarrow> ('c, nat \<times> ('c \<Rightarrow> ('p, s3_sink, 'q) Server)) Net" where
  "shard_net P ci =
     \<lparr>net_Lookup = (\<lambda>c model hs (t, S0).
        let S = ci_between ci t S0
        in case ci_fault ci t c of
             Some e \<Rightarrow> (Inl e, (t + 1, S))
           | None \<Rightarrow> let (bps, s) = srv_Lookup model hs (attach s3_get (S c)) in (Inr bps, (t + 1, S(c := s)))),
      net_Fetch = (\<lambda>c model req (t, S0).
        let S = ci_between ci t S0
        in case ci_fault ci t c of
             Some e \<Rightarrow> (Inl e, (t + 1, S))
           | None \<Rightarrow> let ((err, frames), s) = srv_Fetch P (ci_now ci t) (ci_send ci t) model req (attach s3_get (S c))
                     in (Inr (frames, map_option rpc_of err), (t + 1, S(c := s)))),
      net_Write = (\<lambda>c (t, S0).
        let S = ci_between ci t S0
        in (\<lparr>wc_open = ci_fault ci t c, wc_send = ci_send ci t,
             wc_close = (\<lambda>msgs. case fst (srv_Write P (ci_now ci t) msgs EOF (ci_ack ci t) (attach s3_get (S c))) of
                                  Inl e \<Rightarrow> Some (rpc_of e) | Inr _ \<Rightarrow> None)\<rparr>,
            \<lambda>msgs fin. (t + 1, S(c := snd (srv_Write P (ci_now ci t) msgs fin (ci_ack ci t) (attach s3_get (S c)))))))\<rparr>"

text \<open>
  In between, every shard takes steps of its own: evictions, spills, uploads and calls of any other clients and
  peers that write no other contents under these keys.
\<close>

definition circumstances_ok :: "'p EvictionPolicy \<Rightarrow> (string \<times> bytes) set \<Rightarrow> nat \<Rightarrow> ('c, 'p, 'q) circumstances \<Rightarrow> bool" where
  "circumstances_ok P A n ci \<longleftrightarrow> (\<forall>t S c. \<exists>q q' W'.
     (sys_step P s3_get s3_background)\<^sup>*\<^sup>* (S c, q, verified A n) (ci_between ci t S c, q', W') \<and> W' \<subseteq> verified A n)"

definition shards_inv :: "(string \<times> bytes) set \<Rightarrow> nat \<Rightarrow> nat \<times> ('c \<Rightarrow> ('p, s3_sink, 'q) Server) \<Rightarrow> bool" where
  "shards_inv A n = (\<lambda>(t, S). \<forall>c. s3_sink.sys_inv (verified A n) (S c))"

lemma between_inv:
  assumes "circumstances_ok P A n ci" and "shards_inv A n (t, S)"
  shows "s3_sink.sys_inv (verified A n) (ci_between ci t S c)"
proof -
  obtain q q' W' where s: "(sys_step P s3_get s3_background)\<^sup>*\<^sup>* (S c, q, verified A n) (ci_between ci t S c, q', W')" "W' \<subseteq> verified A n"
    using assms(1) unfolding circumstances_ok_def by blast
  have "s3_sink.sys_inv W' (ci_between ci t S c)" using s3_sink.sys_reachable_inv [OF s(1)] assms(2) by (simp add: shards_inv_def)
  then show ?thesis using s3_sink.sys_inv_mono s(2) by blast
qed

lemma serve_verified:
  assumes "s3_sink.sys_inv (verified A n) s" and "rpc_writes c \<subseteq> verified A n"
  shows "s3_sink.sys_inv (verified A n) (serve P c (attach s3_get s))"
proof -
  have "\<forall>(m, h, toks, kv) \<in> rpc_writes c. length toks < 2 ^ 32" using assms(2) by (auto simp: verified_def)
  from s3_sink.call_inv [OF assms(1) this, of P] have "s3_sink.sys_inv (verified A n \<union> rpc_writes c) (serve P c (attach s3_get s))" .
  then show ?thesis using assms(2) by (simp add: Un_absorb2)
qed

lemma recvLoop_aborted: "\<exists>e. recvLoop ms (RecvError x) buf = Inl e"
  by (induction ms "RecvError x" buf rule: recvLoop.induct) auto

lemma streamed_aborted: "streamed msgs (RecvError x) = {}"
proof -
  have "\<exists>e. assembleBlock msgs (RecvError x) = Inl e"
  proof (cases msgs)
    case (Cons m ms)
    then show ?thesis using recvLoop_aborted [of ms x "[]"] by (cases m) (auto simp: assembleBlock_def)
  qed (simp add: assembleBlock_def)
  then show ?thesis by (auto simp: streamed_def)
qed

lemma streamed_complete: "streamed (Header hdr # map Chunk cs) EOF \<subseteq> {(wh_BlockHash hdr, header_entry hdr (concat (map c_Data cs)))}"
  by (auto simp: streamed_def assembleBlock_def recvLoop_chunks split: if_splits)

lemma shard_net_service:
  fixes P :: "'p EvictionPolicy" and ci :: "('c, 'p, 'q) circumstances"
  assumes "collision_free A" and "circumstances_ok P A n ci"
  shows "pattern_service (shard_net P ci) (shards_inv A n) A n"
proof
  fix w :: "nat \<times> ('c \<Rightarrow> ('p, s3_sink, 'q) Server)" and c :: 'c and model hs and req :: FetchBlock and frames hdr and cs :: "KVChunk list" and msgs e
  assume inv: "shards_inv A n w"
  obtain t S0 where w: "w = (t, S0)" by (cases w)
  let ?S = "ci_between ci t S0"
  have S: "s3_sink.sys_inv (verified A n) (?S c)" for c using between_inv [OF assms(2)] inv w by simp
  have upd: "shards_inv A n (t', ?S(c := s))" if "s3_sink.sys_inv (verified A n) s" for t' c s
    using S that by (simp add: shards_inv_def)
  have same: "shards_inv A n (t', ?S)" for t' using S by (simp add: shards_inv_def)
  show "shards_inv A n (snd (net_Lookup (shard_net P ci) c model hs w))"
    using same upd [OF serve_verified [OF S, of "LookupRPC model hs"]]
    by (simp add: w shard_net_def Let_def split_def split: option.split)
  show "shards_inv A n (snd (net_Fetch (shard_net P ci) c model req w))"
    using same upd [OF serve_verified [OF S, of "FetchRPC (ci_now ci t) (ci_send ci t) model req"]]
    by (simp add: w shard_net_def Let_def split_def split: option.split)
  show "concat (map c_Data frames) = pattern n (fb_BlockHash req)"
    if "(model, fb_BlockHash req) \<in> A" "fst (net_Fetch (shard_net P ci) c model req w) = Inr (frames, None)"
  proof -
    have "fst (srv_Fetch P (ci_now ci t) (ci_send ci t) model req (attach s3_get (?S c))) = (None, frames)"
      using that(2) by (auto simp: w shard_net_def Let_def split_def prod_eq_iff split: option.splits)
    from s3_sink.fetch_genuine [OF S this] show ?thesis
      using assms(1) that(1) by (fastforce simp: verified_def collision_free_def)
  qed
  show "shards_inv A n (snd (net_Write (shard_net P ci) c w) (Header hdr # map Chunk cs) EOF)"
    if "(wh_ModelId hdr, wh_BlockHash hdr) \<in> A" "length (wh_TokenIds hdr) < 2 ^ 32" "concat (map c_Data cs) = pattern n (wh_BlockHash hdr)"
  proof -
    have "rpc_writes (WriteRPC (ci_now ci t) (Header hdr # map Chunk cs) EOF (ci_ack ci t)) \<subseteq> verified A n"
      using streamed_complete [of hdr cs] that by (auto simp: verified_def block_of_def header_entry_def newEntry_def)
    from upd [OF serve_verified [OF S this]] show ?thesis by (simp add: w shard_net_def Let_def)
  qed
  have "rpc_writes (WriteRPC (ci_now ci t) msgs (RecvError e) (ci_ack ci t)) \<subseteq> verified A n" by (simp add: streamed_aborted)
  from upd [OF serve_verified [OF S this]] show "shards_inv A n (snd (net_Write (shard_net P ci) c w) msgs (RecvError e))"
    by (simp add: w shard_net_def Let_def)
qed

text \<open>A server answers one presence for each hash, so the run a worker fetches never leaves its list of blocks.\<close>

lemma Lookup_length:
  fixes s :: "('p, 'x, 'q) Server"
  shows "length (fst (srv_Lookup model hs s)) = length hs"
proof -
  have "length (fst (fold (\<lambda>hb (blocks, s). let (bp, s') = lookupOne model hb s in (blocks @ [bp], s')) hs (bs, s))) = length bs + length hs"
    for bs and s :: "('p, 'x, 'q) Server"
    by (induction hs arbitrary: bs s) (simp_all add: split_def Let_def)
  then show ?thesis by (simp add: srv_Lookup_def)
qed

lemma shard_lookup_no_panic:
  assumes "fst (net_Lookup (shard_net P ci) c model (map Hash blocks) world) = Inr bps"
  shows "length (takeWhile bp_HasEntry bps) \<le> length blocks"
proof -
  have "length bps = length blocks"
    using assms by (cases world) (auto simp: shard_net_def Lookup_length Let_def split_def split: option.splits)
  then show ?thesis using length_takeWhile_le [of bp_HasEntry bps] by simp
qed

text \<open>A cluster that nobody else uses.\<close>

definition quiet_ci :: "('c, 'p, 'q) circumstances" where
  "quiet_ci = \<lparr>ci_between = \<lambda>t S. S, ci_fault = \<lambda>t c. None, ci_now = int, ci_send = \<lambda>t k. None, ci_ack = \<lambda>t. None\<rparr>"

lemma quiet_ci_ok: "circumstances_ok P A n quiet_ci"
  unfolding circumstances_ok_def by (auto simp: quiet_ci_def)

interpretation alone: pattern_service "shard_net P quiet_ci" "shards_inv {(m, h)} n" "{(m, h)}" n for P m h n
  by (rule shard_net_service [OF _ quiet_ci_ok]) (simp add: collision_free_def key_collision_def)

section \<open>A run returns\<close>

lemma runLoop_bounded:
  assumes "\<And>i st st'. runIter net R w k deadline (ticks i) i st = Inr st' \<Longrightarrow> (m i st :: nat) > m (i + 1) st'"
  shows "\<exists>st'. runLoop net R w k deadline ticks i st = Some st'"
proof (induction "m i st" arbitrary: i st rule: less_induct)
  case less
  then show ?case using assms [of i st] by (subst runLoop.simps) (auto split: sum.split)
qed

lemma runLoop_diverges:
  assumes "\<And>i st. \<exists>st'. runIter net R w k deadline (ticks i) i st = Inr st'"
  shows "runLoop net R w k deadline ticks i st = None"
proof (rule ccontr)
  assume "runLoop net R w k deadline ticks i st \<noteq> None"
  then obtain y where y: "runLoop net R w k deadline ticks i st = Some y" by blast
  have "\<not> (net' = net \<and> R' = R \<and> w' = w \<and> k' = k \<and> d' = deadline \<and> t' = ticks)"
    if "runLoop net' R' w' k' d' t' i st = Some y" for net' R' w' k' d' t'
  proof (rule runLoop.raw_induct [OF _ that, where P = "\<lambda>net' R' w' k' d' t' i st y.
      \<not> (net' = net \<and> R' = R \<and> w' = w \<and> k' = k \<and> d' = deadline \<and> t' = ticks)"])
    fix loop net' R' w' k' d' t' and i :: nat and st y
    assume IH: "\<And>net' R' w' k' d' t' i st y. loop net' R' w' k' d' t' i st = Some y \<Longrightarrow>
        \<not> (net' = net \<and> R' = R \<and> w' = w \<and> k' = k \<and> d' = deadline \<and> t' = ticks)"
      and eq: "(case runIter net' R' w' k' d' (t' i) i st of Inl st' \<Rightarrow> Some st' | Inr st' \<Rightarrow> loop net' R' w' k' d' t' (i + 1) st') = Some y"
    show "\<not> (net' = net \<and> R' = R \<and> w' = w \<and> k' = k \<and> d' = deadline \<and> t' = ticks)"
    proof
      assume same: "net' = net \<and> R' = R \<and> w' = w \<and> k' = k \<and> d' = deadline \<and> t' = ticks"
      obtain st' where "runIter net R w k deadline (ticks i) i st = Inr st'" using assms by blast
      then have "loop net R w k deadline ticks (i + 1) st' = Some y" using eq same by simp
      from IH [OF this] show False by simp
    qed
  qed
  then show False using y by blast
qed

lemma runIter_count: "w_trace w = None \<Longrightarrow> runIter net R w k None tick i st = Inr st' \<Longrightarrow> i < k"
  by (simp add: runIter_def split: if_splits)

lemma runIter_duration: "runIter net R w k (Some d) tick i st = Inr st' \<Longrightarrow> tk_now tick < d"
  by (simp add: runIter_def split: if_splits)

lemma runIter_trace:
  assumes "w_trace w = Some trace" and "w_tenants w = None" and "runIter net R w k None tick i st = Inr st'"
  shows "ru_cursor st < length trace \<and> ru_cursor st' = ru_cursor st + 1"
  using assms by (auto simp: runIter_def nextTokens_def Let_def split_def split: if_splits option.splits)

lemma runLoop_trace:
  assumes "w_trace w = Some trace" and "w_tenants w = None"
  shows "\<exists>st'. runLoop net R w k None ticks i st = Some st'"
proof -
  have "runIter net R w k None (ticks i) i st = Inr st' \<Longrightarrow> length trace - ru_cursor st > length trace - ru_cursor st'" for i st st'
    using runIter_trace [OF assms, of net R k "ticks i" i st st'] by fastforce
  then show ?thesis using runLoop_bounded [of net R w k None ticks "\<lambda>i st. length trace - ru_cursor st"] by blast
qed

lemma runIter_endless:
  assumes "w_trace w = Some trace" and "w_tenants w = Some tenants"
  shows "\<exists>st'. runIter net R w k None tick i st = Inr st'"
  using assms by (auto simp: runIter_def Let_def split_def split: option.split)

text \<open>
  Property C33: a worker returns exactly when it should. With a deadline the clock passes, or a request count, or a
  trace to replay, every run returns; the one combination that does not is a trace together with tenants and no
  deadline, where neither the count nor the end of the trace stops the loop.
\<close>

theorem run_returns_iff:
  assumes "\<forall>d. deadline = Some d \<longrightarrow> (\<exists>j. d \<le> tk_now (ticks j)) \<and> mono (\<lambda>j. tk_now (ticks j))"
  shows "(\<exists>st. run net R w k deadline ticks live g cursor world = Some st) \<longleftrightarrow>
    \<not> (deadline = None \<and> w_trace w \<noteq> None \<and> w_tenants w \<noteq> None)"
proof (cases deadline)
  case (Some d)
  then obtain j where j: "d \<le> tk_now (ticks j)" and mono: "mono (\<lambda>j. tk_now (ticks j))" using assms by blast
  have "i < j" if "tk_now (ticks i) < d" for i
    using that j monoD [OF mono, of j i] by (meson not_le order.strict_trans2 order_less_le_trans)
  then have "runIter net R w k (Some d) (ticks i) i st = Inr st' \<Longrightarrow> j - i > j - (i + 1)" for i st st'
    using runIter_duration [of net R w k d "ticks i" i st st'] by fastforce
  then show ?thesis
    unfolding Some run_def using runLoop_bounded [of net R w k "Some d" ticks "\<lambda>i st. j - i"] by blast
next
  case None
  show ?thesis
  proof (cases "w_trace w")
    case notrace: None
    then have "runIter net R w k None (ticks i) i st = Inr st' \<Longrightarrow> k - i > k - (i + 1)" for i st st'
      using runIter_count [of w net R k "ticks i" i st st'] by fastforce
    then show ?thesis
      unfolding None run_def using runLoop_bounded [of net R w k None ticks "\<lambda>i st. k - i"] notrace by blast
  next
    case (Some trace)
    show ?thesis
    proof (cases "w_tenants w")
      case notenants: None
      then show ?thesis unfolding None run_def using runLoop_trace [OF Some] by blast
    next
      case (Some tenants)
      then show ?thesis
        unfolding None run_def using runLoop_diverges [OF runIter_endless [OF \<open>w_trace w = Some trace\<close> Some]] \<open>w_trace w = Some trace\<close> by simp
    qed
  qed
qed

section \<open>A small cluster\<close>

text \<open>A worker that replays one prompt of one block against a single shard.\<close>

definition ex_workload :: workload where
  "ex_workload = \<lparr>w_model = ''m'', w_blockTokens = 1, w_payloadBytes = 8, w_prefixShare = 0, w_prefixBlocks = 0, w_tailBlocks = 0,
     w_hotPrefix = [], w_verify = True, w_trace = Some [\<lparr>tr_Conv = 0, tr_Turn = 0, tr_Tokens = [7]\<rparr>], w_tenants = None\<rparr>"

definition ex_rand :: "unit Rand" where
  "ex_rand = \<lparr>rn_Float64 = \<lambda>g. (0, g), rn_Intn = \<lambda>n g. (0, g)\<rparr>"

definition ex_blockHash :: bytes where
  "ex_blockHash = sha256 (sha256 (seedPrefix @ str_bytes ''m'') @ encodeTokens [7])"

definition ex_tick :: "nat \<Rightarrow> nat tick" where
  "ex_tick i = \<lparr>tk_now = int i, tk_since = int i, tk_latency = 1, tk_router =
     \<lparr>rt_ring = \<lparr>r_vnodes = 1, r_points = [\<lparr>vp_hash = 0, vp_node = ''n''\<rparr>], r_members = [(''n'', ())]\<rparr>,
      rt_pool = [(''n'', 0)], rt_made = [0], rt_closed = []\<rparr>\<rparr>"

definition ex_shards :: "nat \<Rightarrow> (LRUPolicy, s3_sink, unit) Server" where
  "ex_shards c = s3_shard NewLRU ''b'' () (\<lambda>_. NoSuchKeyErr) 0"

lemma ex_blocks: "ChainBlocks ''m'' [7] 1 = Some [\<lparr>Hash = ex_blockHash, TokenIDs = [7]\<rparr>]"
  by (simp add: ChainBlocks_def chainLoop.simps ex_blockHash_def Let_def)

lemma ex_collision_free: "collision_free {(''m'', ex_blockHash)}"
  by (simp add: collision_free_def key_collision_def)

theorem run_returns_iff_witness:
  "\<exists>st. run (shard_net LRU quiet_ci) ex_rand ex_workload 1 (Some 5) ex_tick None () 0 (0, ex_shards) = Some st"
proof -
  have "(\<exists>j. 5 \<le> tk_now (ex_tick j)) \<and> mono (\<lambda>j. tk_now (ex_tick j))" by (auto simp: ex_tick_def mono_def intro: exI [of _ 5])
  then show ?thesis using run_returns_iff [of "Some 5" ex_tick "shard_net LRU quiet_ci" ex_rand ex_workload 1 None "()" 0 "(0, ex_shards)"] by simp
qed

section \<open>Counters\<close>

lemma fetchRun_hits:
  assumes "fetchRun net w conn blocks expected i k pg world = ((None, k'), pg', world')" and "i \<le> k" and "k \<le> length blocks"
  shows "i \<le> k' \<and> k' \<le> k \<and> rs_hits (pg_res pg') = rs_hits (pg_res pg) + int (k' - i) \<and> rs_writes (pg_res pg') = rs_writes (pg_res pg)"
  using assms(1,2)
proof (induction "k - i" arbitrary: i pg world rule: less_induct)
  case less
  have keep: "rs_hits (pg_res pg1) = rs_hits (pg_res pg) \<and> rs_writes (pg_res pg1) = rs_writes (pg_res pg)"
    if "fetch net w conn b expected pg world = (r, pg1, world1)" for b r pg1 world1
    using that by (auto simp: fetch_def violation_def Let_def split: sum.splits option.splits prod.splits if_splits)
  show ?case
  proof (cases "i < k")
    case True
    obtain hit e pg1 world1 where f: "fetch net w conn (blocks ! i) expected pg world = ((hit, e), pg1, world1)"
      by (cases "fetch net w conn (blocks ! i) expected pg world") auto
    let ?pg = "pg1\<lparr>pg_res := (pg_res pg1)\<lparr>rs_hits := rs_hits (pg_res pg1) + 1\<rparr>\<rparr>"
    have e: "e = None" using less.prems True f assms(3) by (subst (asm) fetchRun.simps) (auto split: option.splits)
    show ?thesis
    proof (cases hit)
      case hit: True
      then have "fetchRun net w conn blocks expected (i + 1) k ?pg world1 = ((None, k'), pg', world')"
        using less.prems(1) True f e assms(3) by (subst (asm) fetchRun.simps) (simp split: if_splits)
      moreover have "k - (i + 1) < k - i" "i + 1 \<le> k" using True by linarith+
      ultimately have "i + 1 \<le> k' \<and> k' \<le> k \<and> rs_hits (pg_res pg') = rs_hits (pg_res ?pg) + int (k' - (i + 1)) \<and> rs_writes (pg_res pg') = rs_writes (pg_res ?pg)"
        using less.hyps by blast
      then show ?thesis using keep [OF f] by simp
    next
      case False
      then show ?thesis using less.prems True f e keep [OF f] assms(3) by (subst (asm) fetchRun.simps) (auto split: if_splits)
    qed
  next
    case False
    then show ?thesis using less.prems by (subst (asm) fetchRun.simps) auto
  qed
qed

lemma writeMisses_count:
  "writeMisses net w conn buf rk tenant cost bs pg world = (None, pg', world') \<Longrightarrow>
   rs_hits (pg_res pg') = rs_hits (pg_res pg) \<and> rs_writes (pg_res pg') = rs_writes (pg_res pg) + int (length bs)"
  by (induction bs arbitrary: pg world) (fastforce split: prod.splits option.splits)+

text \<open>
  A request is accounted for block by block. When the primary serves a request without an error, and
  reports presence for at most the blocks it was asked about, every block is counted once, as a hit or as a write.
\<close>

lemma oneRequest_accounts:
  assumes "oneRequest net w conn blocks buf expected pg True rk tenant cost world = (None, pg', world')"
    and "\<And>bps. fst (net_Lookup net conn (w_model w) (map Hash blocks) world) = Inr bps \<Longrightarrow> length bps \<le> length blocks"
  shows "rs_hits (pg_res pg') + rs_writes (pg_res pg') = rs_hits (pg_res pg) + rs_writes (pg_res pg) + int (length blocks)"
proof -
  obtain bps world1 where lk: "net_Lookup net conn (w_model w) (map Hash blocks) world = (Inr bps, world1)"
    using assms(1) by (auto simp: oneRequest_def split: sum.splits prod.splits)
  let ?run = "length (takeWhile bp_HasEntry bps)"
  obtain e k pg1 world2 where f: "fetchRun net w conn blocks expected 0 ?run pg world1 = ((e, k), pg1, world2)"
    by (cases "fetchRun net w conn blocks expected 0 ?run pg world1") auto
  have e: "e = None" and wm: "writeMisses net w conn buf rk tenant cost (drop k blocks) pg1 world2 = (None, pg', world')"
    using assms(1) lk f by (auto simp: oneRequest_def split: option.splits)
  have run: "?run \<le> length blocks" using assms(2) lk length_takeWhile_le [of bp_HasEntry bps] by fastforce
  show ?thesis
    using fetchRun_hits [OF f [unfolded e] _ run] writeMisses_count [OF wm] run by auto
qed

text \<open>
  Over connection 0 the second fetch fails, over connection 1 nothing does; both hold every block. The world counts
  the fetches.
\<close>

definition ex_net :: "(nat, nat) Net" where
  "ex_net = \<lparr>net_Lookup = \<lambda>c model hs t. (Inr (map (\<lambda>_. \<lparr>bp_HasEntry = True, bp_Version = 1, bp_SizeBytes = 1\<rparr>) hs), t),
     net_Fetch = \<lambda>c model req t. (if c = 0 \<and> t = 1 then Inl (RpcError ''unavailable'') else Inr ([\<lparr>c_Data = [9], c_Last = True\<rparr>], None), t + 1),
     net_Write = \<lambda>c t. (\<lparr>wc_open = None, wc_send = \<lambda>_. None, wc_close = \<lambda>_. None\<rparr>, \<lambda>msgs fin. t)\<rparr>"

definition ex_two :: "Block list" where
  "ex_two = [\<lparr>Hash = replicate 32 1, TokenIDs = [1]\<rparr>, \<lparr>Hash = replicate 32 2, TokenIDs = [2]\<rparr>]"

definition ex_progress :: progress where
  "ex_progress = \<lparr>pg_res = emptyResult, pg_live = None\<rparr>"

text \<open>
  Across a failover the same block is counted again: the hits of the failed primary stay, so a request for two
  blocks can count three hits.
\<close>

lemma failover_counts_hits_twice:
  "\<exists>pg' world'. oneRequestWithFailover ex_net (ex_workload\<lparr>w_verify := False\<rparr>) [0, 1] ex_two [] [] [] [] 0 ex_progress 0 = (None, pg', world') \<and>
     rs_hits (pg_res pg') = int (length ex_two) + 1"
  by (simp add: oneRequestWithFailover_def oneRequest_def fetchRun.simps fetch_def ex_net_def ex_two_def ex_workload_def ex_progress_def emptyResult_def Let_def)

text \<open>The percentile takes the element after the nearest rank: the median of two latencies is the larger one.\<close>

lemma percentile_above_rank: "percentile [1, 2] (Fin (1 / 2)) = Some 2"
proof -
  have "Fin (1 / 2) * f64_of_int 2 = Fin 1" by (simp add: f64_of_int_def times_f64_def)
  then show ?thesis by (simp add: percentile_def Let_def int64_of_f64_def trunc_rat_def)
qed

end
