(* ===== verification/Loadgen_Main.thy ===== *)
theory Loadgen_Main
  imports Loadgen_Correct Go_Flags
begin

text \<open>
  \<^verbatim>\<open>main\<close> of \<^verbatim>\<open>cmd/loadgen\<close>: flags, membership, the preparation of the workload, the concurrent workers and the exit
  code. The workers share the router, the cursor of the trace, the live counters and the cluster; a schedule says
  which of them runs its next iteration and when a membership snapshot arrives, so every order of iterations is
  covered. The exit code is the verdict the chaos run reads: shown here is that a verifying run against shards of
  this repository ends with 0 whatever the schedule, and that the workers replay a trace exactly once.
\<close>

section \<open>Flags\<close>

record loadFlags =
  lf_members :: string
  lf_etcd :: string
  lf_payloadBytes :: int
  lf_blockTokens :: int
  lf_prefixShare :: f64
  lf_concurrency :: int
  lf_requests :: int
  lf_duration :: duration
  lf_statsEvery :: duration
  lf_verify :: bool
  lf_prefixBlocks :: int
  lf_tailBlocks :: int
  lf_model :: string
  lf_seed :: int64
  lf_trace :: string
  lf_multitenant :: bool
  lf_verifyColdtier :: bool
  lf_coldtierBlocks :: int
  lf_coldtierSettle :: duration

definition loadgenFlags :: "loadFlags formal list" where
  "loadgenFlags =
     [StringVar ''members'' lf_members_update, StringVar ''etcd'' lf_etcd_update, IntVar ''payload-bytes'' lf_payloadBytes_update,
      IntVar ''block-tokens'' lf_blockTokens_update, Float64Var ''prefix-share'' lf_prefixShare_update,
      IntVar ''concurrency'' lf_concurrency_update, IntVar ''requests'' lf_requests_update, DurationVar ''duration'' lf_duration_update,
      DurationVar ''stats-every'' lf_statsEvery_update, BoolVar ''verify'' lf_verify_update, IntVar ''prefix-blocks'' lf_prefixBlocks_update,
      IntVar ''tail-blocks'' lf_tailBlocks_update, StringVar ''model'' lf_model_update, Int64Var ''seed'' lf_seed_update,
      StringVar ''trace'' lf_trace_update, BoolVar ''multitenant'' lf_multitenant_update, BoolVar ''verify-coldtier'' lf_verifyColdtier_update,
      IntVar ''coldtier-blocks'' lf_coldtierBlocks_update, DurationVar ''coldtier-settle'' lf_coldtierSettle_update]"

definition defaultLoad :: loadFlags where
  "defaultLoad =
     \<lparr>lf_members = ''localhost:50051'', lf_etcd = [], lf_payloadBytes = 2 * 2 ^ 20, lf_blockTokens = 16, lf_prefixShare = rnd (8 / 10),
      lf_concurrency = 8, lf_requests = 200, lf_duration = 0, lf_statsEvery = 0, lf_verify = False, lf_prefixBlocks = 8, lf_tailBlocks = 2,
      lf_model = ''tinyllama-1.1b'', lf_seed = 1, lf_trace = [], lf_multitenant = False, lf_verifyColdtier = False, lf_coldtierBlocks = 0,
      lf_coldtierSettle = 3 * 10 ^ 9\<rparr>"

definition loadRingVnodes :: int where
  "loadRingVnodes = 128"

section \<open>The workers\<close>

record 'g worker =
  wk_res :: result
  wk_rng :: 'g
  wk_i :: nat
  wk_done :: bool

text \<open>A panic in any goroutine ends the process.\<close>

record ('c, 'g, 'w) loadState =
  ld_workers :: "'g worker list"
  ld_live :: "liveStats option"
  ld_cursor :: nat
  ld_router :: "'c Router"
  ld_world :: 'w
  ld_crashed :: bool

text \<open>
  A membership snapshot reaches the router, or worker \<open>j\<close> runs an iteration, with the clock, the time since the start
  and the latency it reads.
\<close>

datatype load_event = Snapshot "Member list" | Iterate nat time duration duration

text \<open>What the workers share and never change. \<open>lc_panics\<close> says that building synthetic tokens panics.\<close>

record ('c, 'g, 'w) loadConfig =
  lc_net :: "('c, 'w) Net"
  lc_rand :: "'g Rand"
  lc_sortSlice :: "vpoint list \<Rightarrow> vpoint list"
  lc_newClient :: "'c list \<Rightarrow> string \<Rightarrow> 'c option"
  lc_workload :: workload
  lc_requests :: nat
  lc_deadline :: "time option"
  lc_panics :: bool

text \<open>The loop test of a worker says to go on.\<close>

definition goesOn :: "('c, 'g, 'w) loadConfig \<Rightarrow> time \<Rightarrow> nat \<Rightarrow> bool" where
  "goesOn cf now i \<longleftrightarrow> (case lc_deadline cf of Some d \<Rightarrow> now < d | None \<Rightarrow> w_trace (lc_workload cf) \<noteq> None \<or> i < lc_requests cf)"

definition iterate :: "('c, 'g, 'w) loadConfig \<Rightarrow> nat \<Rightarrow> time \<Rightarrow> duration \<Rightarrow> duration \<Rightarrow> ('c, 'g, 'w) loadState \<Rightarrow> ('c, 'g, 'w) loadState" where
  "iterate cf j now since lat st =
     (let wk = ld_workers st ! j; w = lc_workload cf
      in if lc_panics cf \<and> goesOn cf now (wk_i wk) \<and> (w_trace w = None \<or> w_tenants w \<noteq> None) then st\<lparr>ld_crashed := True\<rparr>
         else let r = runIter (lc_net cf) (lc_rand cf) w (lc_requests cf) (lc_deadline cf)
                    \<lparr>tk_now = now, tk_since = since, tk_latency = lat, tk_router = ld_router st\<rparr> (wk_i wk)
                    \<lparr>ru_pg = \<lparr>pg_res = wk_res wk, pg_live = ld_live st\<rparr>, ru_rng = wk_rng wk, ru_cursor = ld_cursor st, ru_world = ld_world st\<rparr>;
                  rs = (case r of Inl rs \<Rightarrow> rs | Inr rs \<Rightarrow> rs)
              in st\<lparr>ld_workers := (ld_workers st)[j :=
                      \<lparr>wk_res = pg_res (ru_pg rs), wk_rng = ru_rng rs, wk_i = wk_i wk + 1, wk_done = (case r of Inl _ \<Rightarrow> True | Inr _ \<Rightarrow> False)\<rparr>],
                    ld_live := pg_live (ru_pg rs), ld_cursor := ru_cursor rs, ld_world := ru_world rs\<rparr>)"

fun load_step :: "('c, 'g, 'w) loadConfig \<Rightarrow> load_event \<Rightarrow> ('c, 'g, 'w) loadState \<Rightarrow> ('c, 'g, 'w) loadState" where
  "load_step cf (Snapshot ms) st = st\<lparr>ld_router := SetMembers (lc_sortSlice cf) (lc_newClient cf) ms (ld_router st)\<rparr>"
| "load_step cf (Iterate j now since lat) st =
     (if ld_crashed st \<or> length (ld_workers st) \<le> j \<or> wk_done (ld_workers st ! j) then st else iterate cf j now since lat st)"

definition finished :: "('c, 'g, 'w) loadState \<Rightarrow> bool" where
  "finished st \<longleftrightarrow> list_all wk_done (ld_workers st)"

section \<open>The live ticker\<close>

text \<open>A line of the ticker: rate, requests, errors, errors since the last line, degraded, violations.\<close>

record statLine =
  sl_rate :: f64
  sl_reqs :: int
  sl_errs :: int
  sl_dErr :: int
  sl_degraded :: int
  sl_violations :: int

text \<open>\<^verbatim>\<open>interval.Seconds()\<close> is an argument; the list holds the counters read at each tick.\<close>

fun printLoop :: "f64 \<Rightarrow> int \<Rightarrow> int \<Rightarrow> liveStats list \<Rightarrow> statLine list" where
  "printLoop secs prevReq prevErr [] = []"
| "printLoop secs prevReq prevErr (l # ls) =
     \<lparr>sl_rate = f64_of_int (lv_requests l - prevReq) / secs, sl_reqs = lv_requests l, sl_errs = lv_errors l, sl_dErr = lv_errors l - prevErr,
      sl_degraded = lv_degraded l, sl_violations = lv_violations l\<rparr> # printLoop secs (lv_requests l) (lv_errors l) ls"

section \<open>Main\<close>

text \<open>
  What surrounds the process: the network, the generator and its seeding, the outcome of joining the etcd watch, the
  trace file, the clock at the start and the pause of the cold-tier check.
\<close>

record ('c, 'g, 'w) loadEnv =
  le_net :: "('c, 'w) Net"
  le_rand :: "'g Rand"
  le_newSource :: "int64 \<Rightarrow> 'g"
  le_sortSlice :: "vpoint list \<Rightarrow> vpoint list"
  le_newClient :: "'c list \<Rightarrow> string \<Rightarrow> 'c option"
  le_dial :: "string list \<Rightarrow> string option"
  le_watch :: "coord_error option"
  le_snaps :: "Member list option list"
  le_loadTrace :: "string \<Rightarrow> trace_error + traceRecord list"
  le_sortStrings :: "string list \<Rightarrow> string list"
  le_now :: time
  le_settle :: "'w \<Rightarrow> 'w"

text \<open>The two drivers of the membership; \<^term>\<open>None\<close> is a fatal error.\<close>

definition joinMembers :: "('c, 'g, 'w) loadEnv \<Rightarrow> loadFlags \<Rightarrow> 'c Router \<Rightarrow> 'c Router option" where
  "joinMembers env f router =
     (if lf_etcd f \<noteq> [] then
        (case startEtcdMembership (le_sortSlice env) (le_newClient env) (le_dial env) (le_watch env) (le_snaps env) (lf_etcd f) router of
           (Inl err, _) \<Rightarrow> None
         | (Inr rest, router') \<Rightarrow> Some router')
      else let addrs = splitMembers (lf_members f)
           in if length addrs = 0 then None
              else Some (SetMembers (le_sortSlice env) (le_newClient env) (staticMembers addrs) router))"

text \<open>
  The cold-tier mode. The prompts are drawn before the payload is allocated, and a negative size makes an
  allocation panic (exit code 2).
\<close>

definition coldtierMode :: "('c, 'g, 'w) loadEnv \<Rightarrow> loadFlags \<Rightarrow> 'c Router \<Rightarrow> 'w \<Rightarrow> int" where
  "coldtierMode env f router world =
     (if lf_coldtierBlocks f \<le> 0 then 1
      else if lf_blockTokens f < 0 \<or> 0 < lf_blockTokens f \<and> lf_payloadBytes f < 0 then 2
      else (case fst (runColdtierVerify (le_net env) (le_rand env) (le_settle env) router (lf_model f) (nat (lf_blockTokens f))
                        (nat (lf_payloadBytes f)) (nat (lf_coldtierBlocks f)) (le_newSource env (lf_seed f)) world) of
              Inl err \<Rightarrow> 1
            | Inr code \<Rightarrow> code))"

text \<open>
  The workload. With a block size below 1 no prompt has a block and nothing is ever sent, so such sizes are read as 0
  here; \<open>prepare\<close> keeps the panics they cause.
\<close>

definition baseWorkload :: "('c, 'g, 'w) loadEnv \<Rightarrow> loadFlags \<Rightarrow> workload" where
  "baseWorkload env f =
     \<lparr>w_model = lf_model f, w_blockTokens = nat (lf_blockTokens f), w_payloadBytes = nat (lf_payloadBytes f),
      w_prefixShare = lf_prefixShare f, w_prefixBlocks = nat (lf_prefixBlocks f), w_tailBlocks = nat (lf_tailBlocks f),
      w_hotPrefix = fst (randomTokens (le_rand env) (nat (lf_prefixBlocks f) * nat (lf_blockTokens f)) (le_newSource env (lf_seed f))),
      w_verify = lf_verify f, w_trace = None,
      w_tenants = (if lf_multitenant f
                   then Some (fst (buildTenants (le_rand env) (nat (lf_blockTokens f)) (le_newSource env (lf_seed f)))) else None)\<rparr>"

definition startConfig :: "('c, 'g, 'w) loadEnv \<Rightarrow> loadFlags \<Rightarrow> traceRecord list option \<Rightarrow> ('c, 'g, 'w) loadConfig" where
  "startConfig env f trace =
     \<lparr>lc_net = le_net env, lc_rand = le_rand env, lc_sortSlice = le_sortSlice env, lc_newClient = le_newClient env,
      lc_workload = (baseWorkload env f)\<lparr>w_trace := trace\<rparr>, lc_requests = nat (lf_requests f),
      lc_deadline = (if 0 < lf_duration f then Some (le_now env + lf_duration f) else None),
      lc_panics = (lf_tailBlocks f * lf_blockTokens f < 0)\<rparr>"

definition startState :: "('c, 'g, 'w) loadEnv \<Rightarrow> loadFlags \<Rightarrow> 'c Router \<Rightarrow> 'w \<Rightarrow> ('c, 'g, 'w) loadState" where
  "startState env f router world =
     \<lparr>ld_workers = map (\<lambda>c. \<lparr>wk_res = emptyResult, wk_rng = le_newSource env (lf_seed f + word_of_nat c + 1),
                             wk_i = 0, wk_done = False\<rparr>) [0..<nat (lf_concurrency f)],
      ld_live = (if 0 < lf_statsEvery f then Some \<lparr>lv_requests = 0, lv_errors = 0, lv_degraded = 0, lv_violations = 0\<rparr> else None),
      ld_cursor = 0, ld_router = router, ld_world = world, ld_crashed = False\<rparr>"

text \<open>\<^term>\<open>Inl\<close> is the exit code of a process that ends before its workers start.\<close>

definition prepare ::
  "('c, 'g, 'w) loadEnv \<Rightarrow> loadFlags \<Rightarrow> 'c Router \<Rightarrow> 'w \<Rightarrow> int + ('c, 'g, 'w) loadConfig \<times> ('c, 'g, 'w) loadState" where
  "prepare env f router world =
     (if lf_verifyColdtier f then Inl (coldtierMode env f router world)
      else if lf_prefixBlocks f * lf_blockTokens f < 0 \<or> lf_multitenant f \<and> lf_blockTokens f < 0 then Inl 2
      else case (if lf_trace f \<noteq> [] then (case le_loadTrace env (lf_trace f) of
                                            Inl err \<Rightarrow> None
                                          | Inr recs \<Rightarrow> if length recs = 0 then None else Some (Some recs))
                 else Some None) of
             None \<Rightarrow> Inl 1
           | Some trace \<Rightarrow>
               if lf_concurrency f < 0 \<or> 0 < lf_concurrency f \<and> (lf_requests f < 0 \<or> lf_payloadBytes f < 0) then Inl 2
               else Inr (startConfig env f trace, startState env f router world))"

text \<open>The exit code after a schedule, or \<^term>\<open>None\<close> while workers are still running.\<close>

definition verdict :: "('c, 'g, 'w) loadEnv \<Rightarrow> loadFlags \<Rightarrow> ('c, 'g, 'w) loadState \<Rightarrow> int option" where
  "verdict env f st =
     (if ld_crashed st then Some 2
      else if finished st then Some (exitCode (lf_verify f) (snd (report (le_sortStrings env) (map wk_res (ld_workers st)))))
      else None)"

definition loadgenRun :: "('c, 'g, 'w) loadEnv \<Rightarrow> loadFlags \<Rightarrow> load_event list \<Rightarrow> 'w \<Rightarrow> int option" where
  "loadgenRun env f events world =
     (case router_New loadRingVnodes of
        None \<Rightarrow> Some 2
      | Some router \<Rightarrow>
          (case joinMembers env f router of
             None \<Rightarrow> Some 1
           | Some router' \<Rightarrow>
               (case prepare env f router' world of
                  Inl code \<Rightarrow> Some code
                | Inr (cf, st) \<Rightarrow> verdict env f (fold (load_step cf) events st))))"

definition loadgenMain :: "('c, 'g, 'w) loadEnv \<Rightarrow> string list \<Rightarrow> load_event list \<Rightarrow> 'w \<Rightarrow> int option" where
  "loadgenMain env args events world =
     (case parseFlags loadgenFlags args defaultLoad of
        Inl err \<Rightarrow> Some (flagExit err)
      | Inr f \<Rightarrow> loadgenRun env f events world)"

section \<open>A verified run exits with 0\<close>

text \<open>
  The blocks a schedule asks for, in order: those each iteration draws in the state it starts from. Their keys are
  the keys in use.
\<close>

definition worker_state :: "nat \<Rightarrow> ('c, 'g, 'w) loadState \<Rightarrow> ('g, 'w) runState" where
  "worker_state j st =
     \<lparr>ru_pg = \<lparr>pg_res = wk_res (ld_workers st ! j), pg_live = ld_live st\<rparr>, ru_rng = wk_rng (ld_workers st ! j),
      ru_cursor = ld_cursor st, ru_world = ld_world st\<rparr>"

fun event_blocks :: "('c, 'g, 'w) loadConfig \<Rightarrow> load_event \<Rightarrow> ('c, 'g, 'w) loadState \<Rightarrow> Block list" where
  "event_blocks cf (Snapshot ms) st = []"
| "event_blocks cf (Iterate j now since lat) st =
     (if ld_crashed st \<or> length (ld_workers st) \<le> j \<or> wk_done (ld_workers st ! j) then []
      else drawn (lc_rand cf) (lc_workload cf) (lc_requests cf) (lc_deadline cf)
             \<lparr>tk_now = now, tk_since = since, tk_latency = lat, tk_router = ld_router st\<rparr> (wk_i (ld_workers st ! j)) (worker_state j st))"

primrec run_blocks :: "('c, 'g, 'w) loadConfig \<Rightarrow> load_event list \<Rightarrow> ('c, 'g, 'w) loadState \<Rightarrow> Block list" where
  "run_blocks cf [] st = []"
| "run_blocks cf (ev # evs) st = event_blocks cf ev st @ run_blocks cf evs (load_step cf ev st)"

definition keys_used :: "('c, 'g, 'w) loadConfig \<Rightarrow> load_event list \<Rightarrow> ('c, 'g, 'w) loadState \<Rightarrow> (string \<times> bytes) set" where
  "keys_used cf events st = (\<lambda>b. (w_model (lc_workload cf), Hash b)) ` set (run_blocks cf events st)"

lemma ChainBlocks_token_length:
  assumes "ChainBlocks model toks (int bt) = Some blocks" and "b \<in> set blocks"
  shows "length (TokenIDs b) \<le> bt"
  using assms by (auto simp: ChainBlocks_eq specBlock_def tokenBlock_def split: if_splits)

lemma drawn_token_length: "b \<in> set (drawn R w k deadline tick i st) \<Longrightarrow> length (TokenIDs b) \<le> w_blockTokens w"
  by (auto simp: drawn_def split: if_splits option.splits dest: ChainBlocks_token_length [OF sym])

lemma run_token_length: "b \<in> set (run_blocks cf events st) \<Longrightarrow> length (TokenIDs b) \<le> w_blockTokens (lc_workload cf)"
proof (induction events arbitrary: st)
  case (Cons ev events)
  have "length (TokenIDs b) \<le> w_blockTokens (lc_workload cf)" if "b \<in> set (event_blocks cf ev st)"
    using that by (cases ev) (auto split: if_splits dest: drawn_token_length)
  then show ?case using Cons by auto
qed simp

lemma run_asks:
  assumes "keys_used cf events st \<subseteq> A" and "w_verify (lc_workload cf)" and "w_payloadBytes (lc_workload cf) = n"
    and "w_blockTokens (lc_workload cf) < 2 ^ 32"
  shows "asks A n (lc_workload cf) (run_blocks cf events st)"
  using assms run_token_length [of _ cf events st] by (fastforce simp: asks_def keys_used_def)

context pattern_service
begin

definition load_ok :: "('d, 'g, 'w) loadState \<Rightarrow> bool" where
  "load_ok st \<longleftrightarrow> inv (ld_world st) \<and> (\<forall>wk \<in> set (ld_workers st). rs_violations (wk_res wk) = 0)"

lemma iterate_ok:
  assumes "load_ok st" and "j < length (ld_workers st)" and "lc_net cf = net"
    and "asks A n (lc_workload cf) (drawn (lc_rand cf) (lc_workload cf) (lc_requests cf) (lc_deadline cf)
      \<lparr>tk_now = now, tk_since = since, tk_latency = lat, tk_router = ld_router st\<rparr> (wk_i (ld_workers st ! j)) (worker_state j st))"
  shows "load_ok (iterate cf j now since lat st)"
proof -
  have "state_ok (worker_state j st)" using assms(1,2) by (simp add: state_ok_def load_ok_def worker_state_def)
  from runIter_ok [OF this assms(4)] show ?thesis
    using assms(1-3)
    by (auto simp: iterate_def worker_state_def Let_def load_ok_def state_ok_def split: sum.splits
      dest!: subsetD [OF set_update_subset_insert])
qed

lemma load_run_ok:
  assumes "load_ok st" and "lc_net cf = net" and "asks A n (lc_workload cf) (run_blocks cf events st)"
  shows "load_ok (fold (load_step cf) events st)"
  using assms(1,3)
proof (induction events arbitrary: st)
  case (Cons ev events)
  have a: "asks A n (lc_workload cf) (event_blocks cf ev st)" "asks A n (lc_workload cf) (run_blocks cf events (load_step cf ev st))"
    using Cons.prems(2) by (auto simp: asks_def)
  have "load_ok (load_step cf ev st)"
  proof (cases ev)
    case (Snapshot ms)
    then show ?thesis using Cons.prems by (simp add: load_ok_def)
  next
    case (Iterate j now since lat)
    then show ?thesis
      using Cons.prems(1) a(1) iterate_ok [OF Cons.prems(1) _ assms(2), of j now since lat] by (auto split: if_splits)
  qed
  then show ?case using Cons.IH a(2) by simp
qed simp

end

lemma sum_list_all_zero: "\<forall>x \<in> set xs. f x = (0 :: int) \<Longrightarrow> sum_list (map f xs) = 0"
  by (induction xs) simp_all

lemma sum_list_upd: "k < length xs \<Longrightarrow> sum_list (xs[k := x]) = sum_list xs + x - (xs ! k :: int)"
  by (induction xs arbitrary: k) (auto split: nat.splits)

lemma report_violations: "snd (report srt rs) = sum_list (map rs_violations rs)"
proof -
  have "rs_violations (fold addResult rs t) = rs_violations t + sum_list (map rs_violations rs)" for t
    by (induction rs arbitrary: t) (simp_all add: addResult_def)
  then show ?thesis by (simp add: report_def Let_def emptyResult_def)
qed

lemma crash_only_on_panic:
  assumes "\<not> lc_panics cf" and "\<not> ld_crashed st"
  shows "\<not> ld_crashed (fold (load_step cf) events st)"
  using assms(2)
proof (induction events arbitrary: st)
  case (Cons ev events)
  have "\<not> ld_crashed (load_step cf ev st)"
    using Cons.prems assms(1) by (cases ev) (auto simp: iterate_def Let_def)
  then show ?case using Cons.IH by simp
qed simp

lemma prepare_cases:
  assumes "prepare env f router world = Inr (cf, st)"
  obtains trace where "cf = startConfig env f trace" "st = startState env f router world" "\<not> lf_verifyColdtier f"
    "lf_trace f = [] \<longrightarrow> trace = None" "0 \<le> lf_concurrency f" "0 < lf_concurrency f \<longrightarrow> 0 \<le> lf_requests f"
  using assms by (auto simp: prepare_def split: if_splits option.splits sum.splits)

lemma prepare_start:
  assumes "prepare env f router world = Inr (cf, st)"
  shows "lc_net cf = le_net env" "ld_world st = world" "\<not> ld_crashed st" "ld_cursor st = 0"
    "\<forall>wk \<in> set (ld_workers st). wk_res wk = emptyResult \<and> wk_i wk = 0 \<and> \<not> wk_done wk" "length (ld_workers st) = nat (lf_concurrency f)"
    "lc_panics cf \<longleftrightarrow> lf_tailBlocks f * lf_blockTokens f < 0"
proof -
  obtain trace where "cf = startConfig env f trace" "st = startState env f router world" using prepare_cases [OF assms] by metis
  then show "lc_net cf = le_net env" "ld_world st = world" "\<not> ld_crashed st" "ld_cursor st = 0"
    "\<forall>wk \<in> set (ld_workers st). wk_res wk = emptyResult \<and> wk_i wk = 0 \<and> \<not> wk_done wk" "length (ld_workers st) = nat (lf_concurrency f)"
    "lc_panics cf \<longleftrightarrow> lf_tailBlocks f * lf_blockTokens f < 0"
    by (auto simp: startConfig_def startState_def)
qed

text \<open>
  Property C2: the oracle stays silent on a correct cluster. A load generator that verifies, with synthetic, replayed
  or multi-tenant prompts, any number of workers in any order of iterations, while members come and go, against shards
  of this repository that start empty and evict, spill, upload, replicate and serve other verifying clients (with keys
  \<open>K\<close>) in between, with calls and streams failing at any point, counts no violation in any worker and can only exit
  with 0, unless two of the keys that this very run and the other clients use collide under SHA-256.
\<close>

theorem verified_load_exits_zero:
  assumes "A = keys_used cf events st \<union> K" and "circumstances_ok P A (nat (lf_payloadBytes f)) ci" and "serves_objects Map.empty g"
    and "\<forall>c. S c = s3_shard (p c) (bucket c) (q c) g (maxBytes c)"
    and "le_net env = shard_net P ci" and "prepare env f router (0, S) = Inr (cf, st)"
    and "lf_verify f" and "lf_blockTokens f < 2 ^ 32" and "0 \<le> lf_tailBlocks f * lf_blockTokens f"
  shows "(\<exists>(m, h) \<in> A. \<exists>(m', h') \<in> A. key_collision m h m' h') \<or>
    (\<forall>wk \<in> set (ld_workers (fold (load_step cf) events st)). rs_violations (wk_res wk) = 0) \<and>
    verdict env f (fold (load_step cf) events st) \<in> {None, Some 0}"
proof (cases "collision_free A")
  case False
  then have "\<exists>(m, h) \<in> A. \<exists>(m', h') \<in> A. key_collision m h m' h'" by (simp add: collision_free_def split_def)
  then show ?thesis ..
next
  case True
  let ?n = "nat (lf_payloadBytes f)" and ?st = "fold (load_step cf) events st"
  note service = shard_net_service [OF True assms(2)] and start = prepare_start [OF assms(6)]
  obtain trace where "cf = startConfig env f trace" using prepare_cases [OF assms(6)] by blast
  then have w: "w_verify (lc_workload cf)" "w_payloadBytes (lc_workload cf) = ?n" "w_blockTokens (lc_workload cf) < 2 ^ 32"
    using assms(7,8) by (simp_all add: startConfig_def baseWorkload_def)
  have "s3_sink.sys_inv (verified A ?n) (s3_shard (p c) (bucket c) (q c) g (maxBytes c))" for c
    by (rule s3_sink.sys_inv_mono [OF s3_shard_inv [OF assms(3)] empty_subsetI])
  then have "shards_inv A ?n (0, S)" using assms(4) by (simp add: shards_inv_def)
  then have "pattern_service.load_ok (shards_inv A ?n) st"
    using start by (simp add: pattern_service.load_ok_def [OF service] emptyResult_def)
  moreover have "asks A ?n (lc_workload cf) (run_blocks cf events st)" using assms(1) by (intro run_asks w) blast
  ultimately have "pattern_service.load_ok (shards_inv A ?n) ?st"
    using pattern_service.load_run_ok [OF service] start(1) assms(5) by simp
  then have v: "\<forall>wk \<in> set (ld_workers ?st). rs_violations (wk_res wk) = 0"
    by (simp add: pattern_service.load_ok_def [OF service])
  then have "sum_list (map (rs_violations \<circ> wk_res) (ld_workers ?st)) = 0" by (simp add: sum_list_all_zero)
  moreover have "\<not> ld_crashed ?st" using crash_only_on_panic start(3,7) assms(9) by (metis not_le)
  ultimately show ?thesis using v by (simp add: verdict_def report_violations exitCode_def)
qed

section \<open>A trace is replayed exactly once\<close>

text \<open>What every part of a request keeps: it counts no request of its own, and violations are only added.\<close>

definition grows :: "progress \<Rightarrow> progress \<Rightarrow> bool" where
  "grows pg pg' \<longleftrightarrow> rs_requests (pg_res pg') = rs_requests (pg_res pg) \<and> rs_violations (pg_res pg) \<le> rs_violations (pg_res pg')"

lemma grows_refl [simp]: "grows pg pg"
  by (simp add: grows_def)

lemma grows_trans: "grows pg pg1 \<Longrightarrow> grows pg1 pg2 \<Longrightarrow> grows pg pg2"
  by (simp add: grows_def)

lemma grows_upd [simp]:
  "grows (pg\<lparr>pg_res := (pg_res pg)\<lparr>rs_hits := h\<rparr>\<rparr>) pg' = grows pg pg'"
  "grows (pg\<lparr>pg_res := (pg_res pg)\<lparr>rs_writes := h\<rparr>\<rparr>) pg' = grows pg pg'"
  by (simp_all add: grows_def)

lemma fetch_grows: "fetch net w conn b expected pg world = (r, pg', world') \<Longrightarrow> grows pg pg'"
  by (auto simp: fetch_def violation_def grows_def Let_def split: sum.splits option.splits prod.splits if_splits)

lemma fetchRun_grows: "fetchRun net w conn blocks expected i k pg world = (r, pg', world') \<Longrightarrow> grows pg pg'"
proof (induction "k - i" arbitrary: i pg world rule: less_induct)
  case less
  show ?case
  proof (cases "i < k \<and> i < length blocks")
    case True
    obtain hit e pg1 world1 where f: "fetch net w conn (blocks ! i) expected pg world = ((hit, e), pg1, world1)"
      by (cases "fetch net w conn (blocks ! i) expected pg world") auto
    let ?pg = "pg1\<lparr>pg_res := (pg_res pg1)\<lparr>rs_hits := rs_hits (pg_res pg1) + 1\<rparr>\<rparr>"
    show ?thesis
    proof (cases "e = None \<and> hit")
      case hit: True
      then have "fetchRun net w conn blocks expected (i + 1) k ?pg world1 = (r, pg', world')"
        using less.prems True f by (subst (asm) fetchRun.simps) simp
      moreover have "k - (i + 1) < k - i" using True by linarith
      ultimately have "grows ?pg pg'" using less.hyps by blast
      then show ?thesis using grows_trans [OF fetch_grows [OF f]] by simp
    next
      case False
      then show ?thesis using less.prems True f fetch_grows [OF f] by (subst (asm) fetchRun.simps) (auto split: option.splits)
    qed
  next
    case False
    then show ?thesis using less.prems by (subst (asm) fetchRun.simps) (auto split: if_splits)
  qed
qed

lemma writeMisses_grows: "writeMisses net w conn buf rk tenant cost bs pg world = (e, pg', world') \<Longrightarrow> grows pg pg'"
  by (induction bs arbitrary: pg world) (fastforce split: prod.splits option.splits)+

lemma oneRequest_grows:
  assumes "oneRequest net w conn blocks buf expected pg allow rk tenant cost world = (e, pg', world')"
  shows "grows pg pg'"
  using assms
  by (auto simp: oneRequest_def Let_def split: sum.splits prod.splits option.splits if_splits
      dest!: fetchRun_grows writeMisses_grows intro: grows_trans)

lemma failover_grows:
  "failover net w i conns blocks buf expected rk tenant cost lastErr pg world = (e, pg', world') \<Longrightarrow> grows pg pg'"
proof (induction conns arbitrary: i lastErr pg world)
  case (Cons conn conns)
  obtain e1 pg1 world1 where f: "oneRequest net w conn blocks buf expected pg (i = 0) rk tenant cost world = (e1, pg1, world1)"
    by (cases "oneRequest net w conn blocks buf expected pg (i = 0) rk tenant cost world")
  show ?case using Cons f grows_trans [OF oneRequest_grows [OF f]] oneRequest_grows [OF f] by (cases e1) fastforce+
qed simp

lemma request_counts:
  "rs_requests (pg_res (fst (request net w tick tp blocks pg world))) = rs_requests (pg_res pg) + 1"
  "rs_violations (pg_res pg) \<le> rs_violations (pg_res (fst (request net w tick tp blocks pg world)))"
proof -
  have "rs_requests (pg_res pg3) = rs_requests (pg_res pg2) \<and> rs_violations (pg_res pg2) \<le> rs_violations (pg_res pg3)"
    if "oneRequestWithFailover net w conns blocks buf expected rk tenant cost pg2 world = (e, pg3, world3)"
    for conns buf expected rk tenant cost pg2 e pg3 world3
    using failover_grows [OF that [unfolded oneRequestWithFailover_def]] by (simp add: grows_def)
  then show "rs_requests (pg_res (fst (request net w tick tp blocks pg world))) = rs_requests (pg_res pg) + 1"
    "rs_violations (pg_res pg) \<le> rs_violations (pg_res (fst (request net w tick tp blocks pg world)))"
    by (auto simp: request_def Let_def res_upd_def live_upd_def addTenant_def split: prod.splits option.splits dest!: spec) fastforce+
qed

text \<open>A record that yields a request: its tokens fill at least one block.\<close>

definition usable :: "workload \<Rightarrow> traceRecord \<Rightarrow> bool" where
  "usable w rec = (case ChainBlocks (w_model w) (tr_Tokens rec) (int (w_blockTokens w)) of None \<Rightarrow> False | Some bs \<Rightarrow> bs \<noteq> [])"

lemma runIter_replay:
  assumes "w_trace w = Some trace" and "w_tenants w = None"
  shows "case runIter net R w k None tick i st of
      Inl st' \<Rightarrow> length trace \<le> ru_cursor st \<and> ru_cursor st' = ru_cursor st + 1 \<and> ru_pg st' = ru_pg st
    | Inr st' \<Rightarrow> ru_cursor st < length trace \<and> ru_cursor st' = ru_cursor st + 1 \<and>
        rs_requests (pg_res (ru_pg st')) = rs_requests (pg_res (ru_pg st)) + (if usable w (trace ! ru_cursor st) then 1 else 0)"
proof (cases "ru_cursor st < length trace")
  case False
  then have "runIter net R w k None tick i st = Inl (st\<lparr>ru_rng := ru_rng st, ru_cursor := ru_cursor st + 1\<rparr>)"
    using assms by (simp add: runIter_def nextTokens_def Let_def)
  then show ?thesis using False by simp
next
  case True
  let ?rec = "trace ! ru_cursor st" and ?st1 = "st\<lparr>ru_rng := ru_rng st, ru_cursor := ru_cursor st + 1\<rparr>"
  have r: "runIter net R w k None tick i st =
      (case ChainBlocks (w_model w) (tr_Tokens ?rec) (int (w_blockTokens w)) of
         None \<Rightarrow> Inr ?st1
       | Some blocks \<Rightarrow> if blocks = [] then Inr ?st1
           else Inr (?st1\<lparr>ru_pg := fst (request net w tick None blocks (ru_pg st) (ru_world st)),
                          ru_world := snd (request net w tick None blocks (ru_pg st) (ru_world st))\<rparr>))"
    using assms True by (simp add: runIter_def nextTokens_def Let_def split_def split: option.splits)
  show ?thesis
    unfolding r using True by (auto simp: usable_def request_counts split: option.splits)
qed

text \<open>
  What holds at any moment of a replay: the requests made are those of the records handed out, a worker that goes on
  has had no more turns than records were handed out, and one that ended found the trace used up.
\<close>

definition requests_made :: "('c, 'g, 'w) loadState \<Rightarrow> int" where
  "requests_made st = sum_list (map (rs_requests \<circ> wk_res) (ld_workers st))"

definition replay_inv :: "workload \<Rightarrow> traceRecord list \<Rightarrow> ('c, 'g, 'w) loadState \<Rightarrow> bool" where
  "replay_inv w trace st \<longleftrightarrow>
     requests_made st = int (length (filter (usable w) (take (ld_cursor st) trace))) \<and> \<not> ld_crashed st \<and>
     (\<forall>wk \<in> set (ld_workers st). if wk_done wk then length trace \<le> ld_cursor st
        else wk_i wk \<le> ld_cursor st \<and> wk_i wk \<le> length trace)"

definition replays :: "('c, 'g, 'w) loadConfig \<Rightarrow> traceRecord list \<Rightarrow> bool" where
  "replays cf trace \<longleftrightarrow> w_trace (lc_workload cf) = Some trace \<and> w_tenants (lc_workload cf) = None \<and> lc_deadline cf = None"

lemma iterate_replay:
  assumes "replays cf trace" and "replay_inv (lc_workload cf) trace st" and "j < length (ld_workers st)" and "\<not> wk_done (ld_workers st ! j)"
  shows "replay_inv (lc_workload cf) trace (iterate cf j now since lat st)"
    and "wk_done (ld_workers (iterate cf j now since lat st) ! j) \<or> wk_i (ld_workers (iterate cf j now since lat st) ! j) = wk_i (ld_workers st ! j) + 1"
    and "length (ld_workers (iterate cf j now since lat st)) = length (ld_workers st)"
    and "i < length (ld_workers st) \<Longrightarrow> i \<noteq> j \<Longrightarrow> ld_workers (iterate cf j now since lat st) ! i = ld_workers st ! i"
proof -
  let ?w = "lc_workload cf" and ?wk = "ld_workers st ! j" and ?ws = "ld_workers st"
  let ?tick = "\<lparr>tk_now = now, tk_since = since, tk_latency = lat, tk_router = ld_router st\<rparr>"
  let ?rs = "\<lparr>ru_pg = \<lparr>pg_res = wk_res ?wk, pg_live = ld_live st\<rparr>, ru_rng = wk_rng ?wk, ru_cursor = ld_cursor st, ru_world = ld_world st\<rparr>"
  let ?r = "runIter (lc_net cf) (lc_rand cf) ?w (lc_requests cf) None ?tick (wk_i ?wk) ?rs"
  define rs where "rs = (case ?r of Inl rs \<Rightarrow> rs | Inr rs \<Rightarrow> rs)"
  define wk where "wk = \<lparr>wk_res = pg_res (ru_pg rs), wk_rng = ru_rng rs, wk_i = wk_i ?wk + 1, wk_done = (case ?r of Inl _ \<Rightarrow> True | Inr _ \<Rightarrow> False)\<rparr>"
  have mode: "w_trace ?w = Some trace" "w_tenants ?w = None" "lc_deadline cf = None" using assms(1) by (simp_all add: replays_def)
  have it: "iterate cf j now since lat st = st\<lparr>ld_workers := ?ws[j := wk], ld_live := pg_live (ru_pg rs), ld_cursor := ru_cursor rs, ld_world := ru_world rs\<rparr>"
    using mode by (simp add: iterate_def Let_def rs_def wk_def)
  have wkm: "?wk \<in> set ?ws" using assms(3) by simp
  have old: "wk_i ?wk \<le> ld_cursor st" "wk_i ?wk \<le> length trace" using assms(2,4) wkm unfolding replay_inv_def by force+
  have step: "ru_cursor rs = ld_cursor st + 1"
    "if wk_done wk then length trace \<le> ld_cursor st \<and> rs_requests (wk_res wk) = rs_requests (wk_res ?wk)
     else ld_cursor st < length trace \<and> rs_requests (wk_res wk) = rs_requests (wk_res ?wk) + (if usable ?w (trace ! ld_cursor st) then 1 else 0)"
    using runIter_replay [OF mode(1,2), of ?rs "lc_net cf" "lc_rand cf" "lc_requests cf" ?tick "wk_i ?wk"]
    by (auto simp: rs_def wk_def split: sum.splits)
  have sum: "requests_made (iterate cf j now since lat st) = requests_made st + rs_requests (wk_res wk) - rs_requests (wk_res ?wk)"
    using assms(3) by (simp add: it requests_made_def map_update sum_list_upd)
  have taken: "length (filter (usable ?w) (take (ld_cursor st + 1) trace)) =
      length (filter (usable ?w) (take (ld_cursor st) trace)) +
      (if ld_cursor st < length trace \<and> usable ?w (trace ! ld_cursor st) then 1 else 0)"
    by (cases "ld_cursor st < length trace") (simp_all add: take_Suc_conv_app_nth)
  have "requests_made (iterate cf j now since lat st) = int (length (filter (usable ?w) (take (ru_cursor rs) trace)))"
    using sum taken step assms(2) by (auto simp: replay_inv_def split: if_splits)
  moreover have "if wk_done x then length trace \<le> ru_cursor rs else wk_i x \<le> ru_cursor rs \<and> wk_i x \<le> length trace"
    if "x \<in> set (?ws[j := wk])" for x
  proof (cases "x = wk")
    case True
    then show ?thesis using step old by (auto simp: wk_def split: if_splits)
  next
    case False
    then have "x \<in> set ?ws" using that set_update_subset_insert [of ?ws j wk] by blast
    then have "if wk_done x then length trace \<le> ld_cursor st else wk_i x \<le> ld_cursor st \<and> wk_i x \<le> length trace"
      using assms(2) unfolding replay_inv_def by blast
    then show ?thesis using step(1) by (auto split: if_splits)
  qed
  ultimately show "replay_inv ?w trace (iterate cf j now since lat st)"
    using assms(2) unfolding replay_inv_def it by simp
  show "wk_done (ld_workers (iterate cf j now since lat st) ! j) \<or> wk_i (ld_workers (iterate cf j now since lat st) ! j) = wk_i ?wk + 1"
    "length (ld_workers (iterate cf j now since lat st)) = length ?ws"
    "i < length ?ws \<Longrightarrow> i \<noteq> j \<Longrightarrow> ld_workers (iterate cf j now since lat st) ! i = ?ws ! i"
    using assms(3) by (simp_all add: it wk_def)
qed

definition turns :: "nat \<Rightarrow> load_event list \<Rightarrow> nat" where
  "turns j events = length (filter (\<lambda>ev. case ev of Iterate k _ _ _ \<Rightarrow> k = j | Snapshot _ \<Rightarrow> False) events)"

lemma replay_step:
  assumes "replays cf trace" and "replay_inv (lc_workload cf) trace st"
  shows "replay_inv (lc_workload cf) trace (load_step cf ev st) \<and>
    length (ld_workers (load_step cf ev st)) = length (ld_workers st) \<and>
    (\<forall>j < length (ld_workers st). (wk_done (ld_workers st ! j) \<longrightarrow> wk_done (ld_workers (load_step cf ev st) ! j)) \<and>
       (wk_done (ld_workers (load_step cf ev st) ! j) \<or>
        wk_i (ld_workers (load_step cf ev st) ! j) = wk_i (ld_workers st ! j) + turns j [ev]))"
proof (cases ev)
  case (Snapshot ms)
  then show ?thesis using assms(2) by (simp add: replay_inv_def requests_made_def turns_def)
next
  case (Iterate k now since lat)
  have crash: "\<not> ld_crashed st" using assms(2) by (simp add: replay_inv_def)
  show ?thesis
  proof (cases "k < length (ld_workers st) \<and> \<not> wk_done (ld_workers st ! k)")
    case True
    then have step: "load_step cf ev st = iterate cf k now since lat st" using Iterate crash by simp
    note it = iterate_replay [OF assms True [THEN conjunct1] True [THEN conjunct2], where now = now and since = since and lat = lat]
    have "(wk_done (ld_workers st ! j) \<longrightarrow> wk_done (ld_workers (iterate cf k now since lat st) ! j)) \<and>
        (wk_done (ld_workers (iterate cf k now since lat st) ! j) \<or>
         wk_i (ld_workers (iterate cf k now since lat st) ! j) = wk_i (ld_workers st ! j) + turns j [ev])"
      if "j < length (ld_workers st)" for j
      using it(2) it(4) [OF that] True by (cases "j = k") (auto simp: turns_def Iterate)
    then show ?thesis unfolding step using it(1,3) by simp
  next
    case False
    then have "load_step cf ev st = st" using Iterate by auto
    then show ?thesis using assms(2) False by (auto simp: turns_def Iterate)
  qed
qed

lemma replay_run:
  assumes "replays cf trace" and "replay_inv (lc_workload cf) trace st"
  shows "replay_inv (lc_workload cf) trace (fold (load_step cf) events st) \<and>
    length (ld_workers (fold (load_step cf) events st)) = length (ld_workers st) \<and>
    (\<forall>j < length (ld_workers st). (wk_done (ld_workers st ! j) \<longrightarrow> wk_done (ld_workers (fold (load_step cf) events st) ! j)) \<and>
       (wk_done (ld_workers (fold (load_step cf) events st) ! j) \<or>
        wk_i (ld_workers (fold (load_step cf) events st) ! j) = wk_i (ld_workers st ! j) + turns j events))"
  using assms(2)
proof (induction events arbitrary: st)
  case (Cons ev events)
  note s = replay_step [OF assms(1) Cons.prems, of ev]
  note ih = Cons.IH [OF s [THEN conjunct1]]
  have t: "turns j (ev # events) = turns j [ev] + turns j events" for j by (simp add: turns_def)
  have "(wk_done (ld_workers st ! j) \<longrightarrow> wk_done (ld_workers (fold (load_step cf) (ev # events) st) ! j)) \<and>
      (wk_done (ld_workers (fold (load_step cf) (ev # events) st) ! j) \<or>
       wk_i (ld_workers (fold (load_step cf) (ev # events) st) ! j) = wk_i (ld_workers st ! j) + turns j (ev # events))"
    if "j < length (ld_workers st)" for j
  proof -
    have "j < length (ld_workers (load_step cf ev st))" using s that by simp
    from ih [THEN conjunct2, THEN conjunct2, rule_format, OF this] s [THEN conjunct2, THEN conjunct2, rule_format, OF that]
    show ?thesis unfolding t fold_simps by linarith
  qed
  then show ?case using ih s by simp
qed (simp add: turns_def)

lemma report_requests: "rs_requests (rp_totals (fst (report srt rs))) = sum_list (map rs_requests rs)"
proof -
  have "rs_requests (fold addResult rs t) = rs_requests t + sum_list (map rs_requests rs)" for t
    by (induction rs arbitrary: t) (simp_all add: addResult_def)
  then show ?thesis by (simp add: report_def Let_def emptyResult_def)
qed

lemma replay_start:
  assumes "prepare env f router world = Inr (cf, st)"
  shows "replay_inv w trace st"
proof -
  note start = prepare_start [OF assms]
  have "requests_made st = 0" unfolding requests_made_def using start(5) by (simp add: sum_list_all_zero emptyResult_def)
  then show ?thesis using start by (simp add: replay_inv_def)
qed

lemma replay_finishes:
  assumes "prepare env f router world = Inr (cf, st)" and "replays cf trace" and "0 < lf_concurrency f"
    and "\<forall>j < nat (lf_concurrency f). length trace < turns j events"
  shows "finished (fold (load_step cf) events st) \<and> length trace \<le> ld_cursor (fold (load_step cf) events st)"
proof -
  let ?st = "fold (load_step cf) events st"
  note start = prepare_start [OF assms(1)] and run = replay_run [OF assms(2) replay_start [OF assms(1)], of events]
  have len: "length (ld_workers ?st) = nat (lf_concurrency f)" "0 < nat (lf_concurrency f)" using run start(6) assms(3) by simp_all
  have d: "wk_done (ld_workers ?st ! j)" if j: "j < nat (lf_concurrency f)" for j
  proof (rule ccontr)
    assume nd: "\<not> wk_done (ld_workers ?st ! j)"
    have m: "ld_workers ?st ! j \<in> set (ld_workers ?st)" "ld_workers st ! j \<in> set (ld_workers st)" using j len start(6) by simp_all
    have "wk_i (ld_workers ?st ! j) = turns j events" using run nd j start(5,6) m(2) by auto
    moreover have "wk_i (ld_workers ?st ! j) \<le> length trace" using run m(1) nd unfolding replay_inv_def by force
    ultimately show False using assms(4) j by force
  qed
  then have "\<forall>wk \<in> set (ld_workers ?st). wk_done wk" using len(1) by (metis in_set_conv_nth)
  moreover have "ld_workers ?st ! 0 \<in> set (ld_workers ?st)" using len by simp
  ultimately show ?thesis using run by (auto simp: finished_def list_all_iff replay_inv_def)
qed

text \<open>
  Property C34: concurrent workers replay a trace exactly once. In count mode the workers draw their requests from one
  cursor. At any moment of any schedule the requests made are those of the records handed out so far, one each;
  and once every worker has had more turns than the trace has records, all workers have returned and the report
  counts exactly one request for each record of the trace that fills a block: none is lost or replayed twice.
\<close>

theorem trace_replayed_once:
  assumes "prepare env f router world = Inr (cf, st)" and "replays cf trace" and "0 < lf_concurrency f"
  shows "requests_made (fold (load_step cf) events st) =
      int (length (filter (usable (lc_workload cf)) (take (ld_cursor (fold (load_step cf) events st)) trace))) \<and>
    ((\<forall>j < nat (lf_concurrency f). length trace < turns j events) \<longrightarrow>
       finished (fold (load_step cf) events st) \<and>
       rs_requests (rp_totals (fst (report srt (map wk_res (ld_workers (fold (load_step cf) events st)))))) =
         int (length (filter (usable (lc_workload cf)) trace)))"
proof -
  let ?st = "fold (load_step cf) events st"
  have "requests_made ?st = int (length (filter (usable (lc_workload cf)) (take (ld_cursor ?st) trace)))"
    using replay_run [OF assms(2) replay_start [OF assms(1)], of events] by (simp add: replay_inv_def)
  then show ?thesis using replay_finishes [OF assms, of events] by (auto simp: requests_made_def report_requests)
qed

text \<open>Two workers that replay a trace of one prompt against a single shard.\<close>

definition ex_loadFlags :: loadFlags where
  "ex_loadFlags = defaultLoad\<lparr>lf_model := ''m'', lf_blockTokens := 1, lf_payloadBytes := 8, lf_prefixBlocks := 0, lf_tailBlocks := 0,
     lf_concurrency := 2, lf_verify := True, lf_trace := ''t''\<rparr>"

definition ex_trace :: "traceRecord list" where
  "ex_trace = [\<lparr>tr_Conv = 0, tr_Turn = 0, tr_Tokens = [7]\<rparr>]"

definition ex_loadEnv :: "(nat, unit, nat \<times> (nat \<Rightarrow> (LRUPolicy, s3_sink, unit) Server)) loadEnv" where
  "ex_loadEnv = \<lparr>le_net = shard_net LRU quiet_ci, le_rand = ex_rand, le_newSource = \<lambda>_. (), le_sortSlice = sort_key vp_hash,
     le_newClient = \<lambda>made _. Some (length made), le_dial = \<lambda>_. None, le_watch = None, le_snaps = [], le_loadTrace = \<lambda>_. Inr ex_trace,
     le_sortStrings = id, le_now = 0, le_settle = id\<rparr>"

definition ex_router :: "nat Router" where
  "ex_router = tk_router (ex_tick 0)"

definition ex_cf :: "(nat, unit, nat \<times> (nat \<Rightarrow> (LRUPolicy, s3_sink, unit) Server)) loadConfig" where
  "ex_cf = startConfig ex_loadEnv ex_loadFlags (Some ex_trace)"

lemma ex_trace_simps: "length ex_trace = 1" "tr_Tokens (ex_trace ! 0) = [7]"
  by (simp_all add: ex_trace_def)

lemma ex_prepare: "prepare ex_loadEnv ex_loadFlags ex_router (0, ex_shards) =
    Inr (ex_cf, startState ex_loadEnv ex_loadFlags ex_router (0, ex_shards))"
  by (simp add: prepare_def ex_cf_def ex_loadFlags_def defaultLoad_def ex_loadEnv_def ex_trace_def)

lemma ex_workload_start: "w_trace (lc_workload ex_cf) = Some ex_trace"
  "w_tenants (lc_workload ex_cf) = None"
  "w_model (lc_workload ex_cf) = ''m''"
  "w_blockTokens (lc_workload ex_cf) = 1"
  "w_payloadBytes (lc_workload ex_cf) = 8"
  "w_verify (lc_workload ex_cf)"
  "lc_deadline ex_cf = None"
  by (simp_all add: ex_cf_def startConfig_def baseWorkload_def ex_loadFlags_def defaultLoad_def)

lemma verdict_finished: "finished st \<Longrightarrow> verdict env f st \<in> {None, Some code} \<Longrightarrow> verdict env f st = Some code"
  by (auto simp: verdict_def)

lemma ex_replays: "replays ex_cf ex_trace"
  by (simp add: replays_def ex_workload_start)

theorem trace_replayed_once_witness:
  "rs_requests (rp_totals (fst (report id (map wk_res (ld_workers (fold (load_step ex_cf)
     [Iterate 0 1 1 1, Iterate 1 1 1 1, Iterate 1 2 2 1, Iterate 0 3 3 1]
     (startState ex_loadEnv ex_loadFlags ex_router (0, ex_shards)))))))) = 1"
proof -
  have c: "0 < lf_concurrency ex_loadFlags" "nat (lf_concurrency ex_loadFlags) = 2" by (simp_all add: ex_loadFlags_def)
  have t: "\<forall>j < nat (lf_concurrency ex_loadFlags). length ex_trace < turns j [Iterate 0 1 1 1, Iterate 1 1 1 1, Iterate 1 2 2 1, Iterate 0 3 3 1]"
    using less_2_cases by (auto simp: c turns_def ex_trace_def)
  have "filter (usable (lc_workload ex_cf)) ex_trace = ex_trace" by (simp add: ex_trace_def usable_def ex_workload_start ex_blocks)
  then show ?thesis
    using trace_replayed_once [OF ex_prepare ex_replays c(1), THEN conjunct2, rule_format, OF t [rule_format], THEN conjunct2]
    by (simp add: ex_trace_def)
qed

section \<open>A busy cluster\<close>

text \<open>Once a worker looks at the clock after the deadline it is done, and it stays done.\<close>

lemma load_step_deadline:
  assumes "lc_deadline cf = Some d" and "\<not> lc_panics cf" and "\<not> ld_crashed st"
  shows "length (ld_workers (load_step cf ev st)) = length (ld_workers st) \<and> \<not> ld_crashed (load_step cf ev st)"
    and "j < length (ld_workers st) \<Longrightarrow> wk_done (ld_workers st ! j) \<or> (\<exists>now since lat. ev = Iterate j now since lat \<and> d \<le> now) \<Longrightarrow>
      wk_done (ld_workers (load_step cf ev st) ! j)"
  using assms by (cases ev; auto simp: iterate_def runIter_def Let_def nth_list_update)+

lemma deadline_finishes:
  assumes "lc_deadline cf = Some d" and "\<not> lc_panics cf" and "\<not> ld_crashed st"
    and "\<forall>j < length (ld_workers st). \<exists>now since lat. Iterate j now since lat \<in> set events \<and> d \<le> now"
  shows "finished (fold (load_step cf) events st)"
proof -
  have "length (ld_workers (fold (load_step cf) events st)) = length (ld_workers st) \<and>
      (\<forall>j < length (ld_workers st). wk_done (ld_workers st ! j) \<or> (\<exists>now since lat. Iterate j now since lat \<in> set events \<and> d \<le> now) \<longrightarrow>
         wk_done (ld_workers (fold (load_step cf) events st) ! j))"
    using assms(3)
  proof (induction events arbitrary: st)
    case (Cons ev events)
    note step = load_step_deadline [OF assms(1,2) Cons.prems, where ev = ev]
    have ih: "length (ld_workers (fold (load_step cf) events (load_step cf ev st))) = length (ld_workers (load_step cf ev st))"
      "j < length (ld_workers (load_step cf ev st)) \<Longrightarrow> wk_done (ld_workers (load_step cf ev st) ! j) \<or>
         (\<exists>now since lat. Iterate j now since lat \<in> set events \<and> d \<le> now) \<Longrightarrow>
       wk_done (ld_workers (fold (load_step cf) events (load_step cf ev st)) ! j)" for j
      using Cons.IH [of "load_step cf ev st"] step(1) by blast+
    have "wk_done (ld_workers (fold (load_step cf) (ev # events) st) ! j)"
      if "j < length (ld_workers st)"
        "wk_done (ld_workers st ! j) \<or> (\<exists>now since lat. Iterate j now since lat \<in> set (ev # events) \<and> d \<le> now)" for j
      using that ih(2) [of j] step by auto
    then show ?case using ih(1) step(1) by simp
  qed simp
  then show ?thesis using assms(4) by (auto simp: finished_def list_all_length)
qed

text \<open>
  Two workers with multi-tenant prompts until a deadline. Their prompts have two chained blocks; between their
  calls another client evicts the first one, one call does not reach its shard and one stream is reset.
\<close>

definition ex_first :: bytes where
  "ex_first = [146, 225, 83, 166, 139, 200, 41, 17, 36, 22, 74, 101, 186, 71, 8, 127, 151, 207, 210, 14, 68, 249, 2, 219, 251, 187, 24, 116, 173, 250, 121, 42]"

definition ex_second :: bytes where
  "ex_second = [12, 201, 142, 172, 43, 228, 253, 172, 209, 247, 17, 199, 16, 115, 202, 116, 216, 44, 102, 92, 99, 89, 87, 33, 237, 113, 244, 123, 164, 166, 73, 151]"

definition ex_busy_ci :: "(nat, LRUPolicy, unit) circumstances" where
  "ex_busy_ci = \<lparr>ci_between = \<lambda>t S c. if odd t then serve LRU (EvictRPC ''m'' ex_first) (attach s3_get (S c)) else S c,
     ci_fault = \<lambda>t c. if t = 3 then Some (RpcError ''unavailable'') else None, ci_now = int,
     ci_send = \<lambda>t k. if t = 5 then Some ''reset'' else None, ci_ack = \<lambda>t. None\<rparr>"

definition ex_busyFlags :: loadFlags where
  "ex_busyFlags = defaultLoad\<lparr>lf_model := ''m'', lf_blockTokens := 1, lf_payloadBytes := 8, lf_prefixBlocks := 0, lf_tailBlocks := 0,
     lf_concurrency := 2, lf_verify := True, lf_multitenant := True, lf_duration := 10\<rparr>"

definition ex_busyEnv :: "(nat, unit, nat \<times> (nat \<Rightarrow> (LRUPolicy, s3_sink, unit) Server)) loadEnv" where
  "ex_busyEnv = ex_loadEnv\<lparr>le_net := shard_net LRU ex_busy_ci\<rparr>"

definition ex_tenants :: "tenantProfile list" where
  "ex_tenants = fst (buildTenants ex_rand 1 ())"

definition ex_busy :: "(nat, unit, nat \<times> (nat \<Rightarrow> (LRUPolicy, s3_sink, unit) Server)) loadConfig" where
  "ex_busy = startConfig ex_busyEnv ex_busyFlags None"

lemma ex_busy_ci_ok: "circumstances_ok LRU A n ex_busy_ci"
proof -
  have step: "sys_step LRU s3_get s3_background (s, q, W) (serve LRU (EvictRPC ''m'' ex_first) (attach s3_get s), q, W)"
    for s :: "(LRUPolicy, s3_sink, unit) Server" and q W
    using sys_step.call [where c = "EvictRPC ''m'' ex_first" and P = LRU and s = s and q = q and W = W] by simp
  have "(sys_step LRU s3_get s3_background)\<^sup>*\<^sup>* (S c, [], W) (ci_between ex_busy_ci t S c, [], W)" for t S c W
    using r_into_rtranclp [of "sys_step LRU s3_get s3_background", OF step] by (simp add: ex_busy_ci_def)
  then show ?thesis unfolding circumstances_ok_def by blast
qed

lemma ex_tokens: "randomTokens ex_rand k g = (replicate k 0, ())"
  by (induction k arbitrary: g) (simp_all add: ex_rand_def)

lemma ex_pool: "buildPool ex_rand k len g = (replicate k (replicate len 0), ())"
  by (induction k arbitrary: g) (simp_all add: ex_tokens)

lemma pickLoop_NaN: "pickLoop active ts NaN = None"
  by (induction ts) (auto simp: f64_ops)

lemma ex_pick:
  assumes "0 \<le> tp_weight t" and "\<not> tp_bursty t"
  shows "fst (pickTenant ex_rand since (t # ts) g) = t"
proof -
  let ?a = "burstActive since"
  have pos: "0 - tp_weight t \<le> 0"
  proof (cases "tp_weight t")
    case (Fin x)
    then have "0 \<le> x" using assms(1) by simp
    then show ?thesis using Fin rnd_mono [of "- x" 0] by (simp add: minus_f64_def zero_f64_def)
  qed (use assms(1) in \<open>simp_all add: f64_ops zero_f64_def\<close>)
  have "0 * weightSum ?a (t # ts) 0 \<in> {0, NaN}"
    by (cases "weightSum ?a (t # ts) 0") (simp_all add: times_f64_def zero_f64_def)
  then have "pickLoop ?a (t # ts) (0 * weightSum ?a (t # ts) 0) \<in> {Some t, None}"
    using pos assms(2) pickLoop_NaN [of ?a "t # ts"] by auto
  then show ?thesis by (auto simp: pickTenant_def ex_rand_def Let_def split: option.split)
qed

text \<open>The digests of the prompt's chain and of the two store keys, evaluated.\<close>

lemma ex_seed: "sha256 (seedPrefix @ str_bytes ''m'') =
    [250, 235, 10, 32, 94, 88, 223, 126, 74, 236, 151, 162, 150, 221, 170, 102, 36, 194, 111, 27, 115, 24, 111, 219, 48, 191, 26, 69, 172, 53, 92, 136]"
  by code_simp

lemma ex_hash_1: "sha256 ([250, 235, 10, 32, 94, 88, 223, 126, 74, 236, 151, 162, 150, 221, 170, 102, 36, 194, 111, 27, 115, 24, 111, 219, 48, 191, 26, 69, 172, 53, 92, 136] @ encodeTokens [0]) = ex_first"
  by code_simp

lemma ex_hash_2: "sha256 (ex_first @ encodeTokens [0]) = ex_second"
  by code_simp

lemma ex_store_1: "storeKey ''m'' ex_first =
    [138, 205, 181, 130, 110, 129, 70, 150, 238, 216, 250, 68, 129, 112, 240, 16, 198, 87, 65, 70, 118, 169, 5, 168, 250, 33, 234, 32, 246, 149, 93, 14]"
  by code_simp

lemma ex_store_2: "storeKey ''m'' ex_second =
    [34, 106, 165, 214, 25, 216, 1, 179, 251, 167, 132, 161, 56, 213, 18, 222, 77, 241, 63, 237, 142, 204, 38, 126, 1, 139, 141, 193, 85, 142, 57, 196]"
  by code_simp

lemma ex_chain: "ChainBlocks ''m'' [0, 0] 1 = Some [\<lparr>Hash = ex_first, TokenIDs = [0]\<rparr>, \<lparr>Hash = ex_second, TokenIDs = [0]\<rparr>]"
  by (simp add: ChainBlocks_def chainLoop.simps Let_def ex_seed ex_hash_1 ex_hash_2 del: append.simps)

lemma ex_no_collision: "\<not> (\<exists>(m, h) \<in> {(''m'', ex_first), (''m'', ex_second)}. \<exists>(m', h') \<in> {(''m'', ex_first), (''m'', ex_second)}. key_collision m h m' h')"
  by (simp add: key_collision_def ex_store_1 [unfolded storeKey_def] ex_store_2 [unfolded storeKey_def])

lemma ex_busy_workload:
  "w_model (lc_workload ex_busy) = ''m''" "w_blockTokens (lc_workload ex_busy) = 1" "w_tailBlocks (lc_workload ex_busy) = 0"
  "w_tenants (lc_workload ex_busy) = Some ex_tenants"
  by (simp_all add: ex_tenants_def ex_busy_def startConfig_def baseWorkload_def ex_busyFlags_def ex_busyEnv_def ex_loadEnv_def)

lemma ex_busy_config: "lc_deadline ex_busy = Some 10" "\<not> lc_panics ex_busy"
  by (simp_all add: ex_busy_def startConfig_def ex_busyFlags_def ex_busyEnv_def ex_loadEnv_def)

lemma ex_tenant_tokens:
  "fst (buildTenantTokens ex_rand (lc_workload ex_busy) (fst (pickTenant ex_rand since ex_tenants g)) g') = [0, 0]"
proof -
  let ?A = "\<lparr>tp_id = ''A'', tp_weight = rnd (55 / 100), tp_hotPool = replicate 40 [0, 0], tp_prefixBlocks = 2,
    tp_prefixShare = rnd (95 / 100), tp_cost = f64_of_int 2, tp_bursty = False\<rparr>"
  obtain ts where ts: "ex_tenants = ?A # ts"
    by (simp add: ex_tenants_def buildTenants_def mkTenant_def ex_pool Let_def split_def numeral_2_eq_2)
  have "fst (pickTenant ex_rand since (?A # ts) g) = ?A" by (rule ex_pick) (simp_all add: rnd_nonneg)
  moreover have "fst (buildTenantTokens ex_rand (lc_workload ex_busy) ?A g') = [0, 0]"
    by (simp add: buildTenantTokens_def ex_tokens ex_busy_workload Let_def split_def numeral_2_eq_2) (simp add: ex_rand_def)
  ultimately show ?thesis unfolding ts by simp
qed

lemma ex_drawn:
  "set (drawn ex_rand (lc_workload ex_busy) k deadline tick i st) \<subseteq>
     {\<lparr>Hash = ex_first, TokenIDs = [0]\<rparr>, \<lparr>Hash = ex_second, TokenIDs = [0]\<rparr>}"
  by (simp add: drawn_def ex_busy_workload ex_tenant_tokens ex_chain Let_def split_def)

lemma ex_keys_used: "keys_used ex_busy events st \<subseteq> {(''m'', ex_first), (''m'', ex_second)}"
proof -
  have rand: "lc_rand ex_busy = ex_rand" by (simp add: ex_busy_def startConfig_def ex_busyEnv_def ex_loadEnv_def)
  have "set (event_blocks ex_busy ev st) \<subseteq> {\<lparr>Hash = ex_first, TokenIDs = [0]\<rparr>, \<lparr>Hash = ex_second, TokenIDs = [0]\<rparr>}" for ev st
    by (cases ev) (simp_all add: rand ex_drawn)
  then have "set (run_blocks ex_busy events st) \<subseteq> {\<lparr>Hash = ex_first, TokenIDs = [0]\<rparr>, \<lparr>Hash = ex_second, TokenIDs = [0]\<rparr>}"
    by (induction events arbitrary: st) simp_all
  then show ?thesis by (auto simp: keys_used_def ex_busy_workload)
qed

lemma ex_busy_prepare: "prepare ex_busyEnv ex_busyFlags ex_router (0, ex_shards) =
    Inr (ex_busy, startState ex_busyEnv ex_busyFlags ex_router (0, ex_shards))"
  by (simp add: prepare_def ex_busy_def ex_busyFlags_def defaultLoad_def)

theorem verified_load_exits_zero_witness:
  "verdict ex_busyEnv ex_busyFlags (fold (load_step ex_busy)
     [Iterate 0 1 1 1, Iterate 1 2 2 1, Snapshot [\<lparr>mem_ID = ''n'', mem_Addr = ''n''\<rparr>], Iterate 0 3 3 1, Iterate 1 10 10 1, Iterate 0 11 11 1]
     (startState ex_busyEnv ex_busyFlags ex_router (0, ex_shards))) = Some 0" (is "verdict _ _ (fold _ ?events ?st) = _")
proof -
  let ?K = "{(''m'', ex_first), (''m'', ex_second)}"
  have pick: R if "P \<or> Q \<and> R" "\<not> P" for P Q R using that by blast
  have A: "?K = keys_used ex_busy ?events ?st \<union> ?K" using ex_keys_used by blast
  have g: "serves_objects Map.empty (\<lambda>_. NoSuchKeyErr)" by (simp add: serves_objects_def)
  have s: "\<forall>c. ex_shards c = s3_shard ((\<lambda>c. NewLRU) c) ((\<lambda>c. ''b'') c) ((\<lambda>c. ()) c) (\<lambda>_. NoSuchKeyErr) ((\<lambda>c. 0) c)" by (simp add: ex_shards_def)
  have net: "le_net ex_busyEnv = shard_net LRU ex_busy_ci" by (simp add: ex_busyEnv_def)
  have f: "lf_verify ex_busyFlags" "lf_blockTokens ex_busyFlags < 2 ^ 32" "0 \<le> lf_tailBlocks ex_busyFlags * lf_blockTokens ex_busyFlags"
    by (simp_all add: ex_busyFlags_def)
  have two: "length (ld_workers ?st) = 2" "\<not> ld_crashed ?st" by (simp_all add: startState_def ex_busyFlags_def)
  have "\<exists>now since lat. Iterate j now since lat \<in> set ?events \<and> 10 \<le> now" if "j < 2" for j
  proof (cases "j = 0")
    case True
    then show ?thesis by (intro exI [of _ 11] exI [of _ 11] exI [of _ 1]) simp
  next
    case False
    then have "j = 1" using that by simp
    then show ?thesis by (intro exI [of _ 10] exI [of _ 10] exI [of _ 1]) simp
  qed
  then have "\<forall>j < length (ld_workers ?st). \<exists>now since lat. Iterate j now since lat \<in> set ?events \<and> 10 \<le> now"
    unfolding two by (intro allI impI)
  then have "finished (fold (load_step ex_busy) ?events ?st)" by (rule deadline_finishes [OF ex_busy_config two(2)])
  moreover have "verdict ex_busyEnv ex_busyFlags (fold (load_step ex_busy) ?events ?st) \<in> {None, Some 0}"
    by (rule pick [OF verified_load_exits_zero [OF A ex_busy_ci_ok g s net ex_busy_prepare f] ex_no_collision])
  ultimately show ?thesis by (rule verdict_finished)
qed

text \<open>The ticker loses nothing: its error deltas add up to the counter at the last tick.\<close>

lemma printLoop_deltas: "ls \<noteq> [] \<Longrightarrow> sum_list (map sl_dErr (printLoop secs r e ls)) = lv_errors (last ls) - e"
  by (induction secs r e ls rule: printLoop.induct) auto

section \<open>Exit code 0 means no violation\<close>

lemma runIter_violations:
  "case runIter net R w k deadline tick i st of
     Inl st' \<Rightarrow> rs_violations (pg_res (ru_pg st')) = rs_violations (pg_res (ru_pg st))
   | Inr st' \<Rightarrow> rs_violations (pg_res (ru_pg st)) \<le> rs_violations (pg_res (ru_pg st'))"
proof -
  define stop where "stop \<longleftrightarrow> (case deadline of Some d \<Rightarrow> \<not> tk_now tick < d | None \<Rightarrow> w_trace w = None \<and> k \<le> i)"
  note iter = runIter_def [of net R w k deadline tick i st, folded stop_def]
  show ?thesis
    by (cases "w_tenants w") (auto simp: iter Let_def split_def request_counts split: option.splits)
qed

lemma load_violations_nonneg:
  assumes "\<forall>wk \<in> set (ld_workers st). 0 \<le> rs_violations (wk_res wk)"
  shows "\<forall>wk \<in> set (ld_workers (fold (load_step cf) events st)). 0 \<le> rs_violations (wk_res wk)"
  using assms
proof (induction events arbitrary: st)
  case (Cons ev events)
  have "\<forall>wk \<in> set (ld_workers (load_step cf ev st)). 0 \<le> rs_violations (wk_res wk)"
  proof (cases ev)
    case (Iterate j now since lat)
    let ?rs = "\<lparr>ru_pg = \<lparr>pg_res = wk_res (ld_workers st ! j), pg_live = ld_live st\<rparr>, ru_rng = wk_rng (ld_workers st ! j),
      ru_cursor = ld_cursor st, ru_world = ld_world st\<rparr>"
    note v = runIter_violations [of ?rs "lc_net cf" "lc_rand cf" "lc_workload cf" "lc_requests cf" "lc_deadline cf"
        "\<lparr>tk_now = now, tk_since = since, tk_latency = lat, tk_router = ld_router st\<rparr>" "wk_i (ld_workers st ! j)"]
    have "\<forall>wk \<in> set (ld_workers (iterate cf j now since lat st)). 0 \<le> rs_violations (wk_res wk)" if "j < length (ld_workers st)"
    proof -
      have "0 \<le> rs_violations (wk_res (ld_workers st ! j))" using Cons.prems that by simp
      then show ?thesis
        using Cons.prems v
        by (auto simp: iterate_def Let_def split: sum.splits dest!: subsetD [OF set_update_subset_insert])
    qed
    then show ?thesis using Cons.prems Iterate by simp
  qed (use Cons.prems in simp)
  then show ?case using Cons.IH by simp
qed simp

text \<open>The oracle is not silent by accident: a run of verifying workers exits with 0 only if none of them counted a violation.\<close>

lemma exit_zero_sound:
  assumes "prepare env f router world = Inr (cf, st)" and "lf_verify f"
    and "verdict env f (fold (load_step cf) events st) = Some 0"
  shows "finished (fold (load_step cf) events st) \<and>
    (\<forall>wk \<in> set (ld_workers (fold (load_step cf) events st)). rs_violations (wk_res wk) = 0)"
proof -
  let ?st = "fold (load_step cf) events st"
  have nonneg: "\<forall>wk \<in> set (ld_workers ?st). 0 \<le> rs_violations (wk_res wk)"
    by (rule load_violations_nonneg) (use prepare_start(5) [OF assms(1)] in \<open>simp add: emptyResult_def\<close>)
  have fin: "finished ?st" "sum_list (map (\<lambda>wk. rs_violations (wk_res wk)) (ld_workers ?st)) \<le> 0"
    using assms(2,3) by (auto simp: verdict_def exitCode_def report_violations o_def split: if_splits)
  moreover have "\<forall>wk \<in> set (ld_workers ?st). rs_violations (wk_res wk) = 0"
    using fin(2) nonneg sum_list_nonneg_eq_0_iff [of "map (\<lambda>wk. rs_violations (wk_res wk)) (ld_workers ?st)"]
      sum_list_nonneg [of "map (\<lambda>wk. rs_violations (wk_res wk)) (ld_workers ?st)"] by auto
  ultimately show ?thesis by blast
qed

end
