(* ===== verification/Chaos_Main.thy ===== *)
theory Chaos_Main
  imports Chaos Cache_Server Loadgen_Main
begin

text \<open>
  \<^verbatim>\<open>main\<close> of \<^verbatim>\<open>cmd/chaos\<close>: build the binaries, launch the nodes, run the verifying load under faults, tear down and
  report. The other two programs are child processes, so what joins them is their command lines: the nodes get the
  flags of \<^verbatim>\<open>startArgs\<close>, the load generator those of \<^verbatim>\<open>loadArgs\<close>, and its exit code is the verdict. Shown here: the
  flags arrive as meant on both sides, and a run that passes was a verifying run without a violation that leaves no
  process behind but for restarts under way.
\<close>

section \<open>Flags\<close>

record chaosFlags =
  ch_nodes :: int
  ch_etcd :: string
  ch_basePort :: int
  ch_baseMetricsPort :: int
  ch_rf :: int
  ch_leaseTTL :: int64
  ch_maxBytes :: int64
  ch_duration :: duration
  ch_killEvery :: duration
  ch_downTime :: duration
  ch_concurrency :: int
  ch_payloadBytes :: int
  ch_prefixShare :: f64
  ch_seed :: int64

definition chaosFormals :: "chaosFlags formal list" where
  "chaosFormals =
     [IntVar ''nodes'' ch_nodes_update, StringVar ''etcd'' ch_etcd_update, IntVar ''base-port'' ch_basePort_update,
      IntVar ''base-metrics-port'' ch_baseMetricsPort_update, IntVar ''rf'' ch_rf_update, Int64Var ''lease-ttl'' ch_leaseTTL_update,
      Int64Var ''max-bytes'' ch_maxBytes_update, DurationVar ''duration'' ch_duration_update, DurationVar ''kill-every'' ch_killEvery_update,
      DurationVar ''down-time'' ch_downTime_update, IntVar ''concurrency'' ch_concurrency_update,
      IntVar ''payload-bytes'' ch_payloadBytes_update, Float64Var ''prefix-share'' ch_prefixShare_update, Int64Var ''seed'' ch_seed_update]"

definition defaultChaos :: chaosFlags where
  "defaultChaos =
     \<lparr>ch_nodes = 3, ch_etcd = ''localhost:2379'', ch_basePort = 50051, ch_baseMetricsPort = 9100, ch_rf = 2, ch_leaseTTL = 5, ch_maxBytes = 0,
      ch_duration = 60 * 10 ^ 9, ch_killEvery = 15 * 10 ^ 9, ch_downTime = 8 * 10 ^ 9, ch_concurrency = 8, ch_payloadBytes = 256 * 2 ^ 10,
      ch_prefixShare = rnd (8 / 10), ch_seed = 1\<rparr>"

text \<open>The command line of the load generator; \<open>formatFloat\<close> is \<^verbatim>\<open>strconv.FormatFloat(x, 'f', -1, 64)\<close>.\<close>

definition loadArgs :: "(f64 \<Rightarrow> string) \<Rightarrow> chaosFlags \<Rightarrow> string list" where
  "loadArgs formatFloat f =
     [''-etcd'', ch_etcd f, ''-verify'', ''-duration'', DurationString (ch_duration f), ''-stats-every'', ''2s'',
      ''-concurrency'', Itoa (ch_concurrency f), ''-payload-bytes'', Itoa (ch_payloadBytes f),
      ''-prefix-share'', formatFloat (ch_prefixShare f)]"

section \<open>Main\<close>

text \<open>
  What happens while the load runs, one critical section at a time: the fault loop picks a victim with the
  generator's choice or kills the one it picked, a restart timer ends without a launch, launches a process, stores it
  or counts it, and a server ends by itself. What the system answers to a launch depends on the process identities
  in use. An event that is not due has no effect.
\<close>

datatype chaos_event =
    Pick "nat \<Rightarrow> nat"
  | KillPicked
  | TimerEnds nat
  | TimerLaunches nat "pid set \<Rightarrow> string + pid"
  | TimerStores nat pid
  | TimerCounts
  | ServerExits pid

fun exec_event :: "int \<Rightarrow> int \<Rightarrow> chaos_event \<Rightarrow> chaos_state \<Rightarrow> (chaos_state \<times> proc_call list) option" where
  "exec_event rf downTime (Pick intn) s =
     (if cs_victim s \<noteq> None then Some (s, [])
      else case pickVictim rf intn (cs_cluster s) of
             None \<Rightarrow> None
           | Some (i, ok) \<Rightarrow> Some (s\<lparr>cs_victim := (if ok then Some i else None)\<rparr>, []))"
| "exec_event rf downTime KillPicked s =
     (case cs_victim s of
        None \<Rightarrow> Some (s, [])
      | Some i \<Rightarrow>
          (case kill i (cs_cluster s) of
             None \<Rightarrow> None
           | Some (c', calls) \<Rightarrow>
               Some (s\<lparr>cs_cluster := c', cs_victim := None, cs_live := procs calls (cs_live s),
                       cs_waiting := (if 0 < downTime then add_mset i (cs_waiting s) else cs_waiting s)\<rparr>, calls)))"
| "exec_event rf downTime (TimerEnds i) s =
     Some (if i \<in># cs_waiting s then s\<lparr>cs_waiting := cs_waiting s - {#i#}\<rparr> else s, [])"
| "exec_event rf downTime (TimerLaunches i spawn) s =
     (if i \<notin># cs_waiting s then Some (s, [])
      else case spawn (in_use s) of
             Inl err \<Rightarrow> Some (s\<lparr>cs_waiting := cs_waiting s - {#i#}\<rparr>, [])
           | Inr p \<Rightarrow>
               Some (s\<lparr>cs_live := insert p (cs_live s), cs_waiting := cs_waiting s - {#i#},
                       cs_launched := add_mset (i, p) (cs_launched s)\<rparr>,
                     [Spawned p (cl_serverBin (cs_cluster s)) (startArgs i (cs_cluster s))]))"
| "exec_event rf downTime (TimerStores i p) s =
     Some (if (i, p) \<in># cs_launched s
           then s\<lparr>cs_cluster := storeNode p i (cs_cluster s), cs_launched := cs_launched s - {#(i, p)#}, cs_stored := cs_stored s + 1\<rparr>
           else s, [])"
| "exec_event rf downTime TimerCounts s =
     Some (if 0 < cs_stored s then s\<lparr>cs_cluster := countRestart (cs_cluster s), cs_stored := cs_stored s - 1\<rparr> else s, [])"
| "exec_event rf downTime (ServerExits p) s = Some (s\<lparr>cs_live := cs_live s - {p}\<rparr>, [Exited p])"

text \<open>The fault loop has returned before the teardown; timers and servers go on until the process exits.\<close>

fun outlastsLoop :: "chaos_event \<Rightarrow> bool" where
  "outlastsLoop (Pick _) = False"
| "outlastsLoop KillPicked = False"
| "outlastsLoop _ = True"

text \<open>A panic ends the process: the calls made before it, and no state.\<close>

fun exec_events :: "int \<Rightarrow> int \<Rightarrow> chaos_event list \<Rightarrow> chaos_state \<Rightarrow> chaos_state option \<times> proc_call list" where
  "exec_events rf downTime [] s = (Some s, [])"
| "exec_events rf downTime (ev # evs) s =
     (case exec_event rf downTime ev s of
        None \<Rightarrow> (None, [])
      | Some (s', calls) \<Rightarrow> (case exec_events rf downTime evs s' of (res, calls') \<Rightarrow> (res, calls @ calls')))"

text \<open>
  The outcomes of everything \<^verbatim>\<open>main\<close> asks of its surroundings. \<open>ce_loadExit\<close> is the exit code of the load generator run
  with a command line, \<^term>\<open>None\<close> when a signal ended it. \<open>ce_faults\<close> is what happens while the load runs, \<open>ce_late\<close> what
  timers and servers do between the teardown and the deferred one, \<open>ce_after\<close> what they do between that and the exit of
  the process.
\<close>

record chaosEnv =
  ce_GOOS :: string
  ce_dial :: "string list \<Rightarrow> string option"
  ce_etcdGet :: "string \<Rightarrow> string + GetResponse"
  ce_mkdirTemp :: "string + string"
  ce_run :: "string list \<Rightarrow> string option"
  ce_spawn :: "nat \<Rightarrow> string + pid"
  ce_watch :: "coord_error option"
  ce_snaps :: "Member list option list"
  ce_formatFloat :: "f64 \<Rightarrow> string"
  ce_startLoad :: "string option"
  ce_loadExit :: "string list \<Rightarrow> int option"
  ce_faults :: "chaos_event list"
  ce_late :: "chaos_event list"
  ce_after :: "chaos_event list"
  ce_removeAll :: "string option"

text \<open>
  The exit code, what happened to processes, whether the temporary directory is gone, the counters of the report, and
  the restarts still under way at the deferred teardown.
\<close>

record chaosResult =
  cr_exit :: int
  cr_calls :: "proc_call list"
  cr_removed :: bool
  cr_counts :: "int \<times> int"
  cr_pending :: "nat multiset"

text \<open>An exit that skips the deferred calls: the temporary directory stays, and so do the processes.\<close>

definition fatalExit :: "int \<Rightarrow> proc_call list \<Rightarrow> chaosResult" where
  "fatalExit code calls = \<lparr>cr_exit = code, cr_calls = calls, cr_removed = False, cr_counts = (0, 0), cr_pending = {#}\<rparr>"

text \<open>\<^verbatim>\<open>filepath.Join\<close> of a directory that is already clean, as the one \<^verbatim>\<open>os.MkdirTemp\<close> made, and a file name.\<close>

definition joinPath :: "string \<Rightarrow> string \<Rightarrow> string \<Rightarrow> string" where
  "joinPath GOOS dir file = dir @ (if GOOS = ''windows'' then [char_of (92 :: nat)] else ''/'') @ file"

text \<open>\<open>exec\<close> is \<^verbatim>\<open>exec.Command(...).Run()\<close> of a command line.\<close>

definition goBuild :: "(string list \<Rightarrow> string option) \<Rightarrow> string \<Rightarrow> string \<Rightarrow> string option" where
  "goBuild exec pkg out = exec [''go'', ''build'', ''-o'', out, pkg]"

text \<open>
  From the start of the load to the end, on a launched cluster. The ticker of the fault loop panics on a
  non-positive interval. The counters are read right after the first teardown. A failed load exits without the deferred
  calls; a passed one returns through them (\<^verbatim>\<open>killAll\<close>, \<^verbatim>\<open>cancel\<close>, \<^verbatim>\<open>os.RemoveAll\<close>, whose error is dropped).
\<close>

definition chaosLoad :: "chaosEnv \<Rightarrow> chaosFlags \<Rightarrow> cluster \<Rightarrow> proc_call list \<Rightarrow> chaosResult" where
  "chaosLoad env f c0 calls0 =
     (if ce_startLoad env \<noteq> None then fatalExit 1 calls0
      else if ch_killEvery f \<le> 0 then fatalExit 2 calls0
      else case exec_events (ch_rf f) (ch_downTime f) (ce_faults env @ [KillPicked]) (chaos_start c0 calls0) of
             (None, calls1) \<Rightarrow> fatalExit 2 (calls0 @ calls1)
           | (Some s1, calls1) \<Rightarrow>
               let lgErr = (ce_loadExit env (loadArgs (ce_formatFloat env) f) \<noteq> Some 0);
                   cs = calls0 @ calls1 @ snd (killAll (cs_cluster s1))
               in case exec_events (ch_rf f) (ch_downTime f) (filter outlastsLoop (ce_late env)) (torn_down s1) of
                    (None, calls3) \<Rightarrow> fatalExit 2 (cs @ calls3)
                  | (Some s3, calls3) \<Rightarrow>
                      if lgErr then \<lparr>cr_exit = 1, cr_calls = cs @ calls3, cr_removed = False,
                        cr_counts = counts (cs_cluster (torn_down s1)), cr_pending = due s3\<rparr>
                      else (case exec_events (ch_rf f) (ch_downTime f) (filter outlastsLoop (ce_after env)) (torn_down s3) of
                              (None, calls5) \<Rightarrow> fatalExit 2 (cs @ calls3 @ snd (killAll (cs_cluster s3)) @ calls5)
                            | (Some s5, calls5) \<Rightarrow>
                                \<lparr>cr_exit = 0, cr_calls = cs @ calls3 @ snd (killAll (cs_cluster s3)) @ calls5,
                                 cr_removed = (ce_removeAll env = None), cr_counts = counts (cs_cluster (torn_down s1)),
                                 cr_pending = due s3\<rparr>))"

definition chaosRun :: "chaosEnv \<Rightarrow> chaosFlags \<Rightarrow> chaosResult" where
  "chaosRun env f =
     (if ch_nodes f < 1 then fatalExit 1 []
      else if pingEtcd (ce_dial env) (ce_etcdGet env) (ch_etcd f) \<noteq> None then fatalExit 1 []
      else case ce_mkdirTemp env of
             Inl err \<Rightarrow> fatalExit 1 []
           | Inr workDir \<Rightarrow>
               let serverBin = joinPath (ce_GOOS env) workDir (exeName (ce_GOOS env) ''cache-server'');
                   loadgenBin = joinPath (ce_GOOS env) workDir (exeName (ce_GOOS env) ''loadgen'')
               in if goBuild (ce_run env) ''./cmd/cache-server'' serverBin \<noteq> None then fatalExit 1 []
                  else if goBuild (ce_run env) ''./cmd/loadgen'' loadgenBin \<noteq> None then fatalExit 1 []
                  else case launch (map (ce_spawn env) [0..<nat (ch_nodes f)]) 0
                              (newCluster serverBin (ch_etcd f) (ch_rf f) (sint (ch_leaseTTL f)) (sint (ch_maxBytes f))
                                 (ch_basePort f) (ch_baseMetricsPort f)) of
                         (Some err, c0, calls0) \<Rightarrow> fatalExit 1 calls0
                       | (None, c0, calls0) \<Rightarrow>
                           if waitForMembers (ce_dial env) (ce_watch env) (ce_snaps env) (ch_etcd f) (ch_nodes f) \<noteq> None
                           then fatalExit 1 calls0
                           else chaosLoad env f c0 calls0)"

definition chaosMain :: "chaosEnv \<Rightarrow> string list \<Rightarrow> chaosResult" where
  "chaosMain env args =
     (case parseFlags chaosFormals args defaultChaos of
        Inl err \<Rightarrow> fatalExit (flagExit err) []
      | Inr f \<Rightarrow> chaosRun env f)"

section \<open>The child processes get the flags they are meant to get\<close>

lemma find_formal: "List.find (\<lambda>f. fm_name f = name) (f # fs) = (if fm_name f = name then Some f else List.find (\<lambda>f. fm_name f = name) fs)"
  by simp

lemma fm_simps [simp]: "fm_name (flag_var b rd name upd) = name" "fm_bool (flag_var b rd name upd) = b"
  "fm_set (flag_var b rd name upd) v r = map_option (\<lambda>x. upd (\<lambda>_. x) r) (rd v)"
  by (simp_all add: flag_var_def)

definition in_int64 :: "int \<Rightarrow> bool" where
  "in_int64 i \<longleftrightarrow> - (2 ^ 63) \<le> i \<and> i < 2 ^ 63"

lemma ParseInt0_Itoa_int: "in_int64 i \<Longrightarrow> ParseInt0 (Itoa i) = Some (word_of_int i) \<and> sint (word_of_int i :: int64) = i"
  by (simp add: in_int64_def ParseInt0_Itoa signed_take_bit_int_eq_self_iff sint_sbintrunc' signed_of_int)

text \<open>
  Property C35: the nodes of a chaos run are configured as meant. The command line the injector builds for node \<open>i\<close>,
  read by the flags of the cache server, gives the defaults with the listen address and the advertised address of
  that node's port, its identity, the etcd endpoints, the replication factor, the lease and the byte bound of the run;
  so the node publishes itself under a name and an address no other node of the run has.
\<close>

theorem chaos_node_flags:
  assumes "in_int64 (cl_rf c)" and "in_int64 (cl_leaseTTL c)" and "in_int64 (cl_maxBytes c)"
  shows "\<exists>f. parseFlags serverFlags (startArgs i c) defaultFlags = Inr f \<and>
    f = defaultFlags\<lparr>fl_addr := '':'' @ Itoa (cl_basePort c + int i), fl_advertise := ''localhost:'' @ Itoa (cl_basePort c + int i),
          fl_nodeID := nodeID i, fl_etcd := cl_etcd c, fl_rf := cl_rf c, fl_leaseTTL := word_of_int (cl_leaseTTL c),
          fl_maxBytes := word_of_int (cl_maxBytes c), fl_metricsAddr := '':'' @ Itoa (cl_baseMetricsPort c + int i)\<rparr> \<and>
    identity f = (''localhost:'' @ Itoa (cl_basePort c + int i), nodeID i) \<and>
    (\<forall>j. j \<noteq> i \<longrightarrow> nodeID j \<noteq> nodeID i \<and> Itoa (cl_basePort c + int j) \<noteq> Itoa (cl_basePort c + int i))"
proof -
  have "nodeID i \<noteq> []" "\<forall>j. j \<noteq> i \<longrightarrow> nodeID j \<noteq> nodeID i \<and> Itoa (cl_basePort c + int j) \<noteq> Itoa (cl_basePort c + int i)"
    by (simp_all add: nodeID_def decimal_inj Itoa_inj)
  then show ?thesis
    using ParseInt0_Itoa_int [OF assms(1)] ParseInt0_Itoa_int [OF assms(2)] ParseInt0_Itoa_int [OF assms(3)]
    by (simp add: startArgs_def Let_def parseFlags_pair serverFlags_def identity_def)
qed

theorem chaos_node_flags_witness:
  "\<exists>f. parseFlags serverFlags (startArgs 1 ex_cluster) defaultFlags = Inr f \<and> fl_rf f = 2 \<and> fl_etcd f = ''etcd'' \<and>
     identity f = (''localhost:'' @ Itoa (cl_basePort ex_cluster + int 1), nodeID 1)"
proof -
  have "in_int64 (cl_rf ex_cluster)" "in_int64 (cl_leaseTTL ex_cluster)" "in_int64 (cl_maxBytes ex_cluster)"
    "cl_rf ex_cluster = 2" "cl_etcd ex_cluster = ''etcd''"
    by (simp_all add: in_int64_def ex_cluster_def newCluster_def)
  with chaos_node_flags [of ex_cluster 1] show ?thesis by auto
qed

text \<open>The flags of the load generator: the only errors are values that cannot be read.\<close>

lemma parseFlags_switch:
  assumes "s = CHR ''-'' # name" and "name \<noteq> []" and "hd name \<noteq> CHR ''-''" and "CHR ''='' \<notin> set name"
    and "List.find (\<lambda>f. fm_name f = name) formals = Some f" and "fm_bool f" and "fm_set f ''true'' r = Some r'"
  shows "parseFlags formals (s # args) r = parseFlags formals args r'"
proof -
  have "hd name \<noteq> CHR ''=''" using assms(2,4) by (metis list.set_sel(1))
  moreover have "name ! 0 \<noteq> CHR ''-''" using assms(2,3) by (simp add: hd_conv_nth)
  moreover have "2 \<le> length s" using assms(1,2) by (cases name) simp_all
  ultimately have "parseOne formals (s # args) r = Inr (Some (r', args))"
    using assms by (auto simp: parseOne_def Cut_def)
  then show ?thesis by (subst parseFlags.simps) simp
qed

lemma parseFlags_unreadable:
  assumes "s = CHR ''-'' # name" and "name \<noteq> []" and "hd name \<noteq> CHR ''-''" and "CHR ''='' \<notin> set name"
    and "List.find (\<lambda>f. fm_name f = name) formals = Some f" and "\<not> fm_bool f" and "fm_set f v r = None"
  shows "parseFlags formals (s # v # args) r = Inl (InvalidValue v name)"
proof -
  have "hd name \<noteq> CHR ''=''" using assms(2,4) by (metis list.set_sel(1))
  moreover have "name ! 0 \<noteq> CHR ''-''" using assms(2,3) by (simp add: hd_conv_nth)
  moreover have "2 \<le> length s" using assms(1,2) by (cases name) simp_all
  ultimately have "parseOne formals (s # v # args) r = Inl (InvalidValue v name)"
    using assms by (auto simp: parseOne_def Cut_def)
  then show ?thesis by (subst parseFlags.simps) simp
qed

definition loadFlagsOf :: "chaosFlags \<Rightarrow> duration \<Rightarrow> duration \<Rightarrow> f64 \<Rightarrow> loadFlags" where
  "loadFlagsOf f dur every share =
     defaultLoad\<lparr>lf_etcd := ch_etcd f, lf_verify := True, lf_duration := dur, lf_statsEvery := every, lf_concurrency := ch_concurrency f,
       lf_payloadBytes := ch_payloadBytes f, lf_prefixShare := share\<rparr>"

lemma loadArgs_parsed:
  assumes "in_int64 (ch_concurrency f)" and "in_int64 (ch_payloadBytes f)"
  shows "parseFlags loadgenFlags (loadArgs ff f) defaultLoad =
    (case ParseDuration (DurationString (ch_duration f)) of
       None \<Rightarrow> Inl (InvalidValue (DurationString (ch_duration f)) ''duration'')
     | Some dur \<Rightarrow>
         (case ParseDuration ''2s'' of
            None \<Rightarrow> Inl (InvalidValue ''2s'' ''stats-every'')
          | Some every \<Rightarrow>
              (case ParseFloat (ff (ch_prefixShare f)) of
                 None \<Rightarrow> Inl (InvalidValue (ff (ch_prefixShare f)) ''prefix-share'')
               | Some share \<Rightarrow> Inr (loadFlagsOf f dur every share))))"
proof -
  note ints = ParseInt0_Itoa_int [OF assms(1), THEN conjunct1] ParseInt0_Itoa_int [OF assms(1), THEN conjunct2]
    ParseInt0_Itoa_int [OF assms(2), THEN conjunct1] ParseInt0_Itoa_int [OF assms(2), THEN conjunct2]
  note flags = parseFlags_pair parseFlags_switch parseFlags_unreadable
  let ?r = "defaultLoad\<lparr>lf_etcd := ch_etcd f, lf_verify := True\<rparr>"
  have start: "parseFlags loadgenFlags (loadArgs ff f) defaultLoad = parseFlags loadgenFlags (drop 3 (loadArgs ff f)) ?r"
    by (simp add: loadArgs_def flags loadgenFlags_def ParseBool_def)
  have rest: "parseFlags loadgenFlags (drop 7 (loadArgs ff f)) r =
      (case ParseFloat (ff (ch_prefixShare f)) of
         None \<Rightarrow> Inl (InvalidValue (ff (ch_prefixShare f)) ''prefix-share'')
       | Some share \<Rightarrow> Inr (r\<lparr>lf_concurrency := ch_concurrency f, lf_payloadBytes := ch_payloadBytes f, lf_prefixShare := share\<rparr>))" for r
    by (simp add: loadArgs_def flags loadgenFlags_def ints split: option.split)
  have middle: "parseFlags loadgenFlags (drop 3 (loadArgs ff f)) ?r =
      (case ParseDuration (DurationString (ch_duration f)) of
         None \<Rightarrow> Inl (InvalidValue (DurationString (ch_duration f)) ''duration'')
       | Some dur \<Rightarrow>
           (case ParseDuration ''2s'' of
              None \<Rightarrow> Inl (InvalidValue ''2s'' ''stats-every'')
            | Some every \<Rightarrow> parseFlags loadgenFlags (drop 7 (loadArgs ff f)) (?r\<lparr>lf_duration := dur, lf_statsEvery := every\<rparr>)))"
    by (simp add: loadArgs_def flags loadgenFlags_def split: option.split)
  show ?thesis unfolding start middle rest by (simp add: loadFlagsOf_def split: option.split)
qed

section \<open>The verdict\<close>

text \<open>What is documented of the generator and of the system: a choice below the bound, and a process identity not in use.\<close>

fun event_ok :: "chaos_event \<Rightarrow> bool" where
  "event_ok (Pick intn) = (\<forall>n > 0. intn n < n)"
| "event_ok (TimerLaunches i spawn) = (\<forall>R p. spawn R = Inr p \<longrightarrow> p \<notin> R)"
| "event_ok _ = True"

lemma exec_event_step:
  assumes "exec_event rf downTime ev s = Some (t, calls)" and "event_ok ev"
  shows "(chaos_step rf downTime)\<^sup>*\<^sup>* s t \<and> cs_live t = procs calls (cs_live s)"
proof (cases ev)
  case (Pick intn)
  show ?thesis
  proof (cases "cs_victim s")
    case None
    then obtain i ok where pv: "pickVictim rf intn (cs_cluster s) = Some (i, ok)" "t = s\<lparr>cs_victim := (if ok then Some i else None)\<rparr>" "calls = []"
      using assms(1) Pick by (auto split: option.splits)
    have "chaos_step rf downTime s t" unfolding pv(2) by (rule chaos_step.pick [OF None pv(1)]) (use assms(2) Pick in simp)
    then show ?thesis using pv by auto
  qed (use assms(1) Pick in auto)
next
  case KillPicked
  show ?thesis
  proof (cases "cs_victim s")
    case (Some i)
    then obtain c' where k: "kill i (cs_cluster s) = Some (c', calls)" "t = s\<lparr>cs_cluster := c', cs_victim := None, cs_live := procs calls (cs_live s),
        cs_waiting := (if 0 < downTime then add_mset i (cs_waiting s) else cs_waiting s)\<rparr>"
      using assms(1) KillPicked by (auto split: option.splits)
    then show ?thesis using chaos_step.killed [OF Some k(1), of rf downTime] by auto
  qed (use assms(1) KillPicked in auto)
next
  case (TimerLaunches i spawn)
  then show ?thesis
    using assms chaos_step.ends [of i s rf downTime] chaos_step.launches [of i s _ rf downTime]
    by (auto split: if_splits sum.splits intro: r_into_rtranclp)
next
  case (TimerEnds i)
  then show ?thesis using assms(1) chaos_step.ends [of i s rf downTime] by (auto split: if_splits intro: r_into_rtranclp)
next
  case (TimerStores i p)
  then show ?thesis using assms(1) chaos_step.stores [of i p s rf downTime] by (auto split: if_splits intro: r_into_rtranclp)
next
  case TimerCounts
  then show ?thesis using assms(1) chaos_step.counts [of s rf downTime] by (auto split: if_splits intro: r_into_rtranclp)
next
  case (ServerExits p)
  then show ?thesis using assms(1) chaos_step.exits [of rf downTime s p] by (auto intro: r_into_rtranclp)
qed

lemma exec_events_steps:
  assumes "exec_events rf downTime evs s = (Some t, calls)" and "\<forall>ev \<in> set evs. event_ok ev"
  shows "(chaos_step rf downTime)\<^sup>*\<^sup>* s t \<and> cs_live t = procs calls (cs_live s)"
  using assms
proof (induction evs arbitrary: s calls)
  case (Cons ev evs)
  obtain s1 calls1 where e: "exec_event rf downTime ev s = Some (s1, calls1)" using Cons.prems(1) by (auto split: option.splits)
  obtain calls2 where es: "exec_events rf downTime evs s1 = (Some t, calls2)" "calls = calls1 @ calls2"
    using Cons.prems(1) e by (auto split: prod.splits)
  show ?case using exec_event_step [OF e] Cons.IH [OF es(1)] Cons.prems(2) es(2) by (auto dest: rtranclp_trans)
qed simp

text \<open>A quantity that events other than kills never raise: the handles held and the restarts under way.\<close>

definition outstanding :: "chaos_state \<Rightarrow> nat" where
  "outstanding s = card (handles (cmds (cs_cluster s))) + size (cs_waiting s) + size (cs_launched s)"

lemma finite_handles [simp]: "finite (handles xs)"
proof -
  have "handles xs \<subseteq> the ` set xs" by (force simp: handles_def)
  then show ?thesis by (rule finite_subset) simp
qed

lemma exec_event_outstanding:
  assumes "exec_event rf downTime ev s = Some (t, calls)" and "outlastsLoop ev" and "chaos_inv m s"
  shows "outstanding t \<le> outstanding s"
proof (cases ev)
  case (TimerStores i p)
  show ?thesis
  proof (cases "(i, p) \<in># cs_launched s")
    case True
    then obtain L where L: "cs_launched s = add_mset (i, p) L" by (metis multi_member_split)
    have "i \<in># due s" using True by (force simp: due_def)
    then have i: "i < length (cl_nodes (cs_cluster s))" "i \<notin> up (cmds (cs_cluster s))" using chaos_invD(5) [OF assms(3)] by simp_all
    have "cmds (cs_cluster s) ! i = None" using i by (simp add: up_def)
    then have "handles (cmds (storeNode p i (cs_cluster s))) = insert p (handles (cmds (cs_cluster s)))"
      using handles_up(1) [OF chaos_invD(1) [OF assms(3)] _ _ chaos_invD(3) [OF assms(3) True], of i] i(1) by (simp add: storeNode_cmds [OF i(1)])
    then show ?thesis using assms(1) TimerStores True by (auto simp: outstanding_def L card_insert_if)
  qed (use assms(1) TimerStores in auto)
next
  case (TimerLaunches i spawn)
  then show ?thesis using assms(1) by (auto simp: outstanding_def size_Diff_singleton split: if_splits sum.splits dest!: multi_member_split)
next
  case (TimerEnds i)
  then show ?thesis using assms(1) by (auto simp: outstanding_def split: if_splits dest!: multi_member_split)
next
  case TimerCounts
  then show ?thesis using assms(1) by (auto simp: outstanding_def countRestart_def split: if_splits)
qed (use assms in \<open>auto simp: outstanding_def\<close>)

lemma exec_events_outstanding:
  assumes "exec_events rf downTime evs s = (Some t, calls)" and "\<forall>ev \<in> set evs. event_ok ev \<and> outlastsLoop ev" and "chaos_inv m s" and "m \<le> rf"
  shows "outstanding t \<le> outstanding s"
  using assms(1-3)
proof (induction evs arbitrary: s calls)
  case (Cons ev evs)
  obtain s1 calls1 where e: "exec_event rf downTime ev s = Some (s1, calls1)" using Cons.prems(1) by (auto split: option.splits)
  obtain calls2 where es: "exec_events rf downTime evs s1 = (Some t, calls2)" using Cons.prems(1) e by (auto split: prod.splits)
  have "chaos_inv m s1" using exec_event_step [OF e] Cons.prems(2) chaos_reachable_inv [OF _ Cons.prems(3) assms(4)] by auto
  then show ?case using exec_event_outstanding [OF e _ Cons.prems(3)] Cons.IH [OF es] Cons.prems(2) by force
qed simp

text \<open>Without a down time there are no restarts.\<close>

lemma exec_events_no_restart:
  assumes "exec_events rf downTime evs s = (Some t, calls)" and "downTime \<le> 0" and "due s = {#}"
  shows "due t = {#}"
  using assms(1,3)
proof (induction evs arbitrary: s calls)
  case (Cons ev evs)
  obtain s1 calls1 where e: "exec_event rf downTime ev s = Some (s1, calls1)" using Cons.prems(1) by (auto split: option.splits)
  obtain calls2 where es: "exec_events rf downTime evs s1 = (Some t, calls2)" using Cons.prems(1) e by (auto split: prod.splits)
  have "due s1 = {#}" using e assms(2) Cons.prems(2) by (cases ev) (auto simp: due_def split: if_splits option.splits)
  then show ?case by (rule Cons.IH [OF es])
qed simp

lemma exec_events_victim:
  assumes "exec_events rf downTime (evs @ [KillPicked]) s = (Some t, calls)"
  shows "cs_victim t = None"
  using assms
proof (induction evs arbitrary: s calls)
  case Nil
  then show ?case by (auto split: option.splits)
next
  case (Cons ev evs)
  then show ?case by (auto split: option.splits prod.splits)
qed

lemma exec_events_keep_victim:
  assumes "exec_events rf downTime evs s = (Some t, calls)" and "\<forall>ev \<in> set evs. outlastsLoop ev"
  shows "cs_victim t = cs_victim s"
  using assms
proof (induction evs arbitrary: s calls)
  case (Cons ev evs)
  obtain s1 calls1 where e: "exec_event rf downTime ev s = Some (s1, calls1)" using Cons.prems(1) by (auto split: option.splits)
  obtain calls2 where es: "exec_events rf downTime evs s1 = (Some t, calls2)" using Cons.prems(1) e by (auto split: prod.splits)
  have "cs_victim s1 = cs_victim s" using e Cons.prems(2) by (cases ev) (auto split: if_splits sum.splits)
  then show ?case using Cons.IH [OF es] Cons.prems(2) by simp
qed simp

lemma live_outstanding:
  assumes "chaos_inv m s"
  shows "finite (cs_live s) \<and> card (cs_live s) \<le> outstanding s"
proof -
  let ?L = "snd ` set_mset (cs_launched s)"
  have sub: "cs_live s \<subseteq> handles (cmds (cs_cluster s)) \<union> ?L" using chaos_invD(2) [OF assms] .
  have "card ?L \<le> size (cs_launched s)"
    by (metis card_image_le finite_set_mset le_trans size_multiset_overloaded_eq sum_mono card_eq_sum count_greater_eq_one_iff)
  then have "card (handles (cmds (cs_cluster s)) \<union> ?L) \<le> outstanding s"
    using card_Un_le [of "handles (cmds (cs_cluster s))" ?L] by (simp add: outstanding_def)
  moreover have "finite (handles (cmds (cs_cluster s)) \<union> ?L)" by simp
  ultimately show ?thesis using sub by (meson card_mono finite_subset le_trans)
qed

text \<open>What is left of a run that passes.\<close>

lemma chaosLoad_pass:
  assumes "cr_exit (chaosLoad env f c0 calls0) = 0" and "chaos_inv m (chaos_start c0 calls0)" and "m \<le> ch_rf f" and "m \<le> 0"
    and "\<forall>ev \<in> set (ce_faults env @ ce_late env @ ce_after env). event_ok ev" and "r = chaosLoad env f c0 calls0"
  shows "ce_loadExit env (loadArgs (ce_formatFloat env) f) = Some 0" "cr_removed r \<longleftrightarrow> ce_removeAll env = None"
    "finite (procs (cr_calls r) {})" "card (procs (cr_calls r) {}) \<le> size (cr_pending r)" "ch_downTime f \<le> 0 \<Longrightarrow> cr_pending r = {#}"
proof -
  let ?ev = "exec_events (ch_rf f) (ch_downTime f)" and ?s0 = "chaos_start c0 calls0"
  obtain res1 calls1 where e1: "?ev (ce_faults env @ [KillPicked]) ?s0 = (res1, calls1)" by fastforce
  obtain s1 where r1: "res1 = Some s1" and st: "ce_startLoad env = None" "\<not> ch_killEvery f \<le> 0"
    using assms(1) e1 by (auto simp: chaosLoad_def fatalExit_def split: if_splits option.splits)
  obtain res3 calls3 where e3: "?ev (filter outlastsLoop (ce_late env)) (torn_down s1) = (res3, calls3)" by fastforce
  obtain s3 where r3: "res3 = Some s3" and lg: "ce_loadExit env (loadArgs (ce_formatFloat env) f) = Some 0"
    using assms(1) e1 r1 e3 st by (auto simp: chaosLoad_def fatalExit_def Let_def split: if_splits option.splits)
  obtain res5 calls5 where e5: "?ev (filter outlastsLoop (ce_after env)) (torn_down s3) = (res5, calls5)" by fastforce
  obtain s5 where r5: "res5 = Some s5"
    using assms(1) e1 r1 e3 r3 e5 st lg by (auto simp: chaosLoad_def fatalExit_def Let_def split: option.splits)
  note e = e1 [unfolded r1] e3 [unfolded r3] e5 [unfolded r5]
  let ?k1 = "snd (killAll (cs_cluster s1))" and ?k3 = "snd (killAll (cs_cluster s3))"
  have res: "r = \<lparr>cr_exit = 0, cr_calls = (calls0 @ calls1 @ ?k1) @ calls3 @ ?k3 @ calls5, cr_removed = (ce_removeAll env = None),
      cr_counts = counts (cs_cluster (torn_down s1)), cr_pending = due s3\<rparr>"
    using e st lg by (simp add: chaosLoad_def assms(6))
  have step1: "(chaos_step (ch_rf f) (ch_downTime f))\<^sup>*\<^sup>* ?s0 s1 \<and> cs_live s1 = procs calls1 (cs_live ?s0)"
    by (rule exec_events_steps [OF e(1)]) (use assms(5) in auto)
  have i1: "chaos_inv m s1" using chaos_reachable_inv [OF conjunct1 [OF step1] assms(2,3)] .
  have v1: "cs_victim s1 = None" by (rule exec_events_victim [OF e(1)])
  note i2 = torn_down_inv(1) [OF i1 assms(4) v1]
  have step3: "(chaos_step (ch_rf f) (ch_downTime f))\<^sup>*\<^sup>* (torn_down s1) s3 \<and> cs_live s3 = procs calls3 (cs_live (torn_down s1))"
    by (rule exec_events_steps [OF e(2)]) (use assms(5) in auto)
  have i3: "chaos_inv m s3" using chaos_reachable_inv [OF conjunct1 [OF step3] i2 assms(3)] .
  have v3: "cs_victim s3 = None" using exec_events_keep_victim [OF e(2)] v1 by (simp add: torn_down_simps)
  note i4 = torn_down_inv(1) [OF i3 assms(4) v3]
  have step5: "(chaos_step (ch_rf f) (ch_downTime f))\<^sup>*\<^sup>* (torn_down s3) s5 \<and> cs_live s5 = procs calls5 (cs_live (torn_down s3))"
    by (rule exec_events_steps [OF e(3)]) (use assms(5) in auto)
  have i5: "chaos_inv m s5" using chaos_reachable_inv [OF conjunct1 [OF step5] i4 assms(3)] .
  have "procs (cr_calls r) {} = cs_live s5"
    using step1 step3 step5 by (simp add: res chaos_start_def torn_down_def split_def)
  moreover have "outstanding s5 \<le> outstanding (torn_down s3)"
    by (rule exec_events_outstanding [OF e(3) _ i4 assms(3)]) (use assms(5) in auto)
  moreover have "outstanding (torn_down s3) = size (due s3)" by (simp add: outstanding_def torn_down_simps due_def)
  ultimately show "finite (procs (cr_calls r) {})" "card (procs (cr_calls r) {}) \<le> size (cr_pending r)"
    using live_outstanding [OF i5] by (simp_all add: res)
  show "cr_pending r = {#}" if "ch_downTime f \<le> 0"
    using exec_events_no_restart [OF e(1) that] exec_events_no_restart [OF e(2) that] by (simp add: res torn_down_simps chaos_start_def due_def)
  show "ce_loadExit env (loadArgs (ce_formatFloat env) f) = Some 0" "cr_removed r \<longleftrightarrow> ce_removeAll env = None" using lg by (simp_all add: res)
qed

lemma chaosRun_pass:
  assumes "cr_exit (chaosRun env f) = 0"
  obtains bin c0 calls0 where "launch (map (ce_spawn env) [0..<nat (ch_nodes f)]) 0
      (newCluster bin (ch_etcd f) (ch_rf f) (sint (ch_leaseTTL f)) (sint (ch_maxBytes f)) (ch_basePort f) (ch_baseMetricsPort f)) = (None, c0, calls0)"
    "chaosRun env f = chaosLoad env f c0 calls0"
  using assms that
  by (auto simp: chaosRun_def fatalExit_def Let_def split: if_splits sum.splits prod.splits option.splits)

lemma loadgenRun_zero:
  assumes "loadgenRun env f events world = Some 0" and "lf_verify f" and "\<not> lf_verifyColdtier f"
  obtains router cf st where "prepare env f router world = Inr (cf, st)" "verdict env f (fold (load_step cf) events st) = Some 0"
  using assms that
  by (auto simp: loadgenRun_def prepare_def split: option.splits sum.splits prod.splits if_splits)

text \<open>
  Property C31: PASS means what it says. If a chaos run of this program ends with exit code 0, where its load generator is
  the one of this repository, then that load generator was started with \<^verbatim>\<open>-verify\<close> and with the endpoints, the
  number of workers and the block size of the run, all its workers returned, and none of them ever fetched bytes that
  differ from the pattern of the block it asked for. The temporary directory is removed unless its removal failed,
  and at most one server is left running for each restart that was still under way at the deferred teardown: none if
  all of them had finished by then, and none in a run without restarts.
\<close>

theorem chaos_pass_is_sound:
  assumes "cr_exit (chaosRun env f) = 0" and "ce_loadExit env = (\<lambda>args. loadgenMain lenv args events world)"
    and "inj_on (ce_spawn env) {..<nat (ch_nodes f)}" and "\<forall>ev \<in> set (ce_faults env @ ce_late env @ ce_after env). event_ok ev"
    and "in_int64 (ch_concurrency f)" and "in_int64 (ch_payloadBytes f)"
  shows "\<exists>lf router cf st. parseFlags loadgenFlags (loadArgs (ce_formatFloat env) f) defaultLoad = Inr lf \<and> lf_verify lf \<and>
    lf_etcd lf = ch_etcd f \<and> lf_concurrency lf = ch_concurrency f \<and> lf_payloadBytes lf = ch_payloadBytes f \<and>
    prepare lenv lf router world = Inr (cf, st) \<and> finished (fold (load_step cf) events st) \<and>
    (\<forall>wk \<in> set (ld_workers (fold (load_step cf) events st)). rs_violations (wk_res wk) = 0) \<and>
    (cr_removed (chaosRun env f) \<longleftrightarrow> ce_removeAll env = None) \<and> finite (procs (cr_calls (chaosRun env f)) {}) \<and>
    card (procs (cr_calls (chaosRun env f)) {}) \<le> size (cr_pending (chaosRun env f)) \<and>
    (ch_downTime f \<le> 0 \<longrightarrow> cr_pending (chaosRun env f) = {#})"
proof -
  obtain bin c0 calls0 where l: "launch (map (ce_spawn env) [0..<nat (ch_nodes f)]) 0
      (newCluster bin (ch_etcd f) (ch_rf f) (sint (ch_leaseTTL f)) (sint (ch_maxBytes f)) (ch_basePort f) (ch_baseMetricsPort f)) = (None, c0, calls0)"
    and run: "chaosRun env f = chaosLoad env f c0 calls0" using chaosRun_pass [OF assms(1)] by metis
  obtain ps where ps: "map (ce_spawn env) [0..<nat (ch_nodes f)] = map Inr ps" using launch_ok [OF l] by blast
  have "distinct (map (ce_spawn env) [0..<nat (ch_nodes f)])" using assms(3) by (simp add: distinct_map lessThan_atLeast0)
  then have "distinct ps" unfolding ps by (simp add: distinct_map)
  then have inv: "chaos_inv (min (ch_rf f) 0) (chaos_start c0 calls0)" by (rule launch_inv [OF _ l [unfolded ps]]) simp
  note pass = chaosLoad_pass [OF assms(1) [unfolded run] inv _ _ assms(4) run]
  have p: "loadgenMain lenv (loadArgs (ce_formatFloat env) f) events world = Some 0" using pass(1) assms(2) by simp
  obtain lf where lf: "parseFlags loadgenFlags (loadArgs (ce_formatFloat env) f) defaultLoad = Inr lf" "loadgenRun lenv lf events world = Some 0"
    "lf_verify lf \<and> \<not> lf_verifyColdtier lf \<and> lf_etcd lf = ch_etcd f \<and> lf_concurrency lf = ch_concurrency f \<and> lf_payloadBytes lf = ch_payloadBytes f"
    using p loadArgs_parsed [OF assms(5,6), of "ce_formatFloat env"]
    by (auto simp: loadgenMain_def loadFlagsOf_def defaultLoad_def split: option.splits)
  obtain router cf st where "prepare lenv lf router world = Inr (cf, st)" "verdict lenv lf (fold (load_step cf) events st) = Some 0"
    using loadgenRun_zero [OF lf(2)] lf(3) by blast
  with exit_zero_sound [OF this(1) _ this(2)] show ?thesis using lf pass(2-5) by auto
qed

text \<open>A run of one node whose load ends at its deadline.\<close>

definition ex_chaosFlags :: chaosFlags where
  "ex_chaosFlags = defaultChaos\<lparr>ch_nodes := 1, ch_etcd := ''e'', ch_duration := 5, ch_concurrency := 1, ch_payloadBytes := 8\<rparr>"

definition ex_chaosLoadEnv :: "(nat, unit, nat \<times> (nat \<Rightarrow> (LRUPolicy, s3_sink, unit) Server)) loadEnv" where
  "ex_chaosLoadEnv = ex_loadEnv\<lparr>le_snaps := [Some [\<lparr>mem_ID = ''chaos-0'', mem_Addr = ''localhost:50051''\<rparr>]]\<rparr>"

definition ex_chaosEnv :: chaosEnv where
  "ex_chaosEnv = \<lparr>ce_GOOS = ''linux'', ce_dial = \<lambda>_. None, ce_etcdGet = \<lambda>_. Inr \<lparr>gr_Kvs = [], gr_Revision = 0\<rparr>, ce_mkdirTemp = Inr ''/tmp/kvc-chaos-1'',
     ce_run = \<lambda>_. None, ce_spawn = \<lambda>i. Inr (10 + i), ce_watch = None, ce_snaps = [Some [\<lparr>mem_ID = ''chaos-0'', mem_Addr = ''localhost:50051''\<rparr>]],
     ce_formatFloat = \<lambda>_. ''0'', ce_startLoad = None, ce_loadExit = \<lambda>args. loadgenMain ex_chaosLoadEnv args [Iterate 0 10 0 0] (0, ex_shards),
     ce_faults = [Pick (\<lambda>_. 0), ServerExits 10], ce_late = [], ce_after = [], ce_removeAll = None\<rparr>"

lemma ex_durations: "ParseDuration (DurationString 5) = Some 5" "ParseDuration ''2s'' = Some 2000000000" "ParseFloat ''0'' = Some (Fin 0)"
proof -
  have c: "char_of (53 :: nat) = CHR ''5''" by code_simp
  have "DurationString 5 = ''5ns''" by (simp add: DurationString_def decimal.simps c)
  then show "ParseDuration (DurationString 5) = Some 5"
    by (simp add: ParseDuration_def strip_sign_def durationLoop.simps durationPart_def is_digit_def digit_of_def unitMap_def)
  show "ParseDuration ''2s'' = Some 2000000000"
    by (simp add: ParseDuration_def strip_sign_def durationLoop.simps durationPart_def is_digit_def digit_of_def unitMap_def)
  show "ParseFloat ''0'' = Some (Fin 0)"
    by (simp add: ParseFloat_def strip_sign_def lower_def readFloat_def base_prefix_def digit_value_def digit_of_def readExponent_def)
qed

lemma ex_load_passes: "loadgenMain ex_chaosLoadEnv (loadArgs (\<lambda>_. ''0'') ex_chaosFlags) [Iterate 0 10 0 0] (0, ex_shards) = Some 0"
proof -
  let ?lf = "loadFlagsOf ex_chaosFlags 5 2000000000 (Fin 0)"
  have fields: "ch_duration ex_chaosFlags = 5" "in_int64 (ch_concurrency ex_chaosFlags)" "in_int64 (ch_payloadBytes ex_chaosFlags)"
    by (simp_all add: ex_chaosFlags_def in_int64_def)
  have parsed: "parseFlags loadgenFlags (loadArgs (\<lambda>_. ''0'') ex_chaosFlags) defaultLoad = Inr ?lf"
    using loadArgs_parsed [OF fields(2,3)] by (simp add: fields(1) ex_durations)
  obtain router :: "nat Router" where rt: "router_New loadRingVnodes = Some router"
    by (simp add: router_New_def ring_New_def loadRingVnodes_def)
  obtain router' where jm: "joinMembers ex_chaosLoadEnv ?lf router = Some router'"
    by (simp add: joinMembers_def startEtcdMembership_def ex_chaosLoadEnv_def ex_loadEnv_def loadFlagsOf_def ex_chaosFlags_def Let_def)
  have pr: "prepare ex_chaosLoadEnv ?lf router' (0, ex_shards) = Inr (startConfig ex_chaosLoadEnv ?lf None, startState ex_chaosLoadEnv ?lf router' (0, ex_shards))"
    by (simp add: prepare_def loadFlagsOf_def defaultLoad_def ex_chaosFlags_def)
  have "verdict ex_chaosLoadEnv ?lf (fold (load_step (startConfig ex_chaosLoadEnv ?lf None)) [Iterate 0 10 0 0] (startState ex_chaosLoadEnv ?lf router' (0, ex_shards))) = Some 0"
    by (simp add: startState_def startConfig_def iterate_def goesOn_def runIter_def Let_def verdict_def finished_def report_violations
        exitCode_def emptyResult_def loadFlagsOf_def ex_chaosFlags_def defaultLoad_def ex_chaosLoadEnv_def ex_loadEnv_def)
  then show ?thesis by (simp add: loadgenMain_def parsed loadgenRun_def rt jm pr)
qed

theorem chaos_pass_is_sound_witness:
  "cr_removed (chaosRun ex_chaosEnv ex_chaosFlags) \<and>
   card (procs (cr_calls (chaosRun ex_chaosEnv ex_chaosFlags)) {}) \<le> size (cr_pending (chaosRun ex_chaosEnv ex_chaosFlags))"
proof -
  have ok: "ce_loadExit ex_chaosEnv (loadArgs (ce_formatFloat ex_chaosEnv) ex_chaosFlags) = Some 0"
    using ex_load_passes by (simp add: ex_chaosEnv_def)
  have z: "cr_exit (chaosRun ex_chaosEnv ex_chaosFlags) = 0"
    using ok by (simp add: chaosRun_def goBuild_def chaosLoad_def pingEtcd_def Ping_def waitForMembers_def start_def storeNode_def newCluster_def
        Let_def ex_chaosFlags_def defaultChaos_def killAll_def ex_chaosEnv_def chaos_start_def pickVictim_def aliveIdx_def)
  have "ce_loadExit ex_chaosEnv = (\<lambda>args. loadgenMain ex_chaosLoadEnv args [Iterate 0 10 0 0] (0, ex_shards))"
    "inj_on (ce_spawn ex_chaosEnv) {..<nat (ch_nodes ex_chaosFlags)}"
    "\<forall>ev \<in> set (ce_faults ex_chaosEnv @ ce_late ex_chaosEnv @ ce_after ex_chaosEnv). event_ok ev"
    "in_int64 (ch_concurrency ex_chaosFlags)" "in_int64 (ch_payloadBytes ex_chaosFlags)"
    by (simp_all add: ex_chaosEnv_def ex_chaosFlags_def in_int64_def inj_on_def)
  from chaos_pass_is_sound [OF z this] show ?thesis by (auto simp: ex_chaosEnv_def)
qed

end
