(* ===== verification/Failover.thy ===== *)
theory Failover
  imports Replicator
begin

text \<open>
  What a replication factor of two promises, across \<^verbatim>\<open>internal/server\<close>, \<^verbatim>\<open>internal/cluster\<close> and \<^verbatim>\<open>internal/ring\<close>: a block
  the primary acknowledged and its replicator forwarded is served, after the primary has left the membership, by
  the node every client then takes for the owner.
\<close>

section \<open>Placement\<close>

text \<open>
  Two routers with the same members name the same owners, and the replica of a key becomes its owner when the owner
  leaves. Points of different members at one position are the exception: there the two sorts must agree.
\<close>

definition same_members :: "'c Router \<Rightarrow> 'd Router \<Rightarrow> bool" where
  "same_members r r' \<longleftrightarrow> r_vnodes (rt_ring r) = r_vnodes (rt_ring r') \<and> set (Nodes (rt_ring r)) = set (Nodes (rt_ring r')) \<and>
     (no_ties (rt_ring r') \<or> r_points (rt_ring r) = r_points (rt_ring r'))"

lemma owners_agree:
  assumes "router_inv r" and "router_inv r'" and "same_members r r'"
  shows "OwnersN key n r = OwnersN key n r'"
proof -
  have inv: "ring_inv (rt_ring r)" "ring_inv (rt_ring r')" using assms(1,2) by (simp_all add: router_inv_def)
  have "gm_keys (r_members (rt_ring r)) = gm_keys (r_members (rt_ring r'))" using assms(3) by (simp add: same_members_def Nodes_def)
  then have "walk key (rt_ring r) = walk key (rt_ring r')"
    using walk_agree [OF inv(2,1)] assms(3) by (auto simp: same_members_def walk_def clockwise_def)
  then show ?thesis by (simp add: OwnersN_def LookupN_walk inv)
qed

lemma owner_leaves:
  assumes "router_inv r" and "OwnersN key 1 r = [self]" and "mem_ID ` set m = set (Nodes (rt_ring r)) - {self}" and "m \<noteq> []"
  obtains b where "OwnersN key 2 r = [self, b]" "b \<noteq> self" "OwnersN key 1 (SetMembers srt newClient m r) = [b]"
    "OwnerConns key 1 (SetMembers srt newClient m r) = [the (ConnFor b r)]" "ConnFor b r \<noteq> None"
proof -
  have inv: "ring_inv (rt_ring r)" and keys: "gm_keys (r_members (rt_ring r)) = gm_keys (rt_pool r)"
    using assms(1) by (simp_all add: router_inv_def)
  let ?w = "walk key (rt_ring r)"
  have w: "distinct ?w" "set ?w = gm_keys (rt_pool r)" using walk_members(1,2) [OF inv, of key] keys by simp_all
  have members: "mem_ID ` set m = gm_keys (rt_pool r) - {self}" using assms(3) keys by (simp add: Nodes_def)
  have "take 1 ?w = [self]" using assms(2) by (simp add: OwnersN_def LookupN_walk [OF inv])
  then obtain ws where ws: "?w = self # ws" by (cases ?w) auto
  have "set ws \<noteq> {}" using members w ws assms(4) by (cases m) auto
  then obtain b bs where b: "?w = self # b # bs" using ws by (cases ws) auto
  have ne: "b \<noteq> self" and bs: "set (b # bs) = mem_ID ` set m" using w b members by auto
  have sub: "mem_ID ` set m \<subseteq> gm_keys (rt_pool r)" using members by blast
  note drop = SetMembers_drop [OF assms(1) sub, where srt = srt and newClient = newClient]
  let ?r' = "SetMembers srt newClient m r"
  have inv': "ring_inv (rt_ring ?r')" using drop(3) by (simp add: router_inv_def)
  have "filter (\<lambda>i. i \<in> mem_ID ` set m) (self # b # bs) = b # bs"
    using bs members by (auto intro: filter_True)
  then have w': "walk key (rt_ring ?r') = b # bs" unfolding drop(1) b .
  have get: "gm_get (rt_pool ?r') b = gm_get (rt_pool r) b" by (rule drop(2)) (use bs in auto)
  show ?thesis
  proof (rule that [OF _ ne])
    show "OwnersN key 2 r = [self, b]" by (simp add: OwnersN_def LookupN_walk [OF inv] b)
    show "OwnersN key 1 ?r' = [b]" by (simp add: OwnersN_def LookupN_walk [OF inv'] w')
    show "OwnerConns key 1 ?r' = [the (ConnFor b r)]" by (simp add: OwnerConns_eq [OF drop(3)] w' get ConnFor_def)
    show "ConnFor b r \<noteq> None" using w(2) b unfolding ConnFor_def gm_keys_get [symmetric] by auto
  qed
qed

section \<open>The promise\<close>

text \<open>The key a block is placed by: the root of its prompt, or its own hash when the client gives none.\<close>

definition routing :: "WriteHeader \<Rightarrow> bytes" where
  "routing hdr = (if wh_RoutingKey hdr = [] then wh_BlockHash hdr else wh_RoutingKey hdr)"

text \<open>
  Property C5: losing the primary loses no acknowledged block. A client writes a block to the owner of its routing key;
  the owner runs with a replication factor of two, acknowledges the write and its replicator streams it on, over a
  working network. Then exactly one copy is sent, to the node that the client, whose membership agrees with the
  primary's, takes for the owner once the primary has left, and it reaches that node over the connection it already
  had. Any replica with no newer version of the block stores that copy and serves the client's fetch with
  the bytes written.
\<close>

theorem acknowledged_block_survives_primary:
  assumes "store_wf (sv_store s)" and "sv_repl s = Some Enqueue" and "rp_queue (sv_queue s) = []"
    and "length (wh_BlockHash hdr) = 32" and "unat (wh_TotalSize hdr) \<le> maxAlloc"
    and "length (concat (map c_Data cs)) \<le> maxAlloc"
    and "\<not> OverHardLimit (len64 (concat (map c_Data cs))) (sv_store s)"
    and "srv_Write P now (Header hdr # map Chunk cs) EOF None s = (Inr resp, s')" and "wr_Version resp \<noteq> 0"
    and "runOnce (\<lambda>_. healthy) (sv_queue s') = Some (out, r')"
    and "rp_rf (sv_queue s) = 2" and "rp_self (sv_queue s) = self"
    and "router_inv (rp_router (sv_queue s))" and "router_inv rc" and "same_members (rp_router (sv_queue s)) rc"
    and "OwnersN (routing hdr) 1 rc = [self]"
    and "mem_ID ` set m = set (Nodes (rt_ring rc)) - {self}" and "m \<noteq> []"
  shows "\<exists>b conn msgs. b \<noteq> self \<and> OwnersN (routing hdr) 1 (SetMembers srt newClient m rc) = [b] \<and>
    OwnerConns (routing hdr) 1 (SetMembers srt newClient m rc) = [the (ConnFor b rc)] \<and> ConnFor b rc \<noteq> None \<and>
    ConnFor b (rp_router (sv_queue s)) = Some conn \<and> out = [(conn, msgs)] \<and>
    (\<forall>P' now' now'' t. store_wf (sv_store t) \<and>
       (\<forall>e. contents (sv_store t) (storeKey (wh_ModelId hdr) (wh_BlockHash hdr)) = Some e \<longrightarrow> e_Version e < wr_Version resp) \<longrightarrow>
       fst (srv_Fetch P' now'' (\<lambda>_. None) (wh_ModelId hdr)
         \<lparr>fb_BlockHash = wh_BlockHash hdr, fb_Version = 0, fb_TokenIds = wh_TokenIds hdr\<rparr>
         (snd (srv_Replicate P' now' msgs EOF None (t :: ('p, 'x, 'q) Server)))) =
       (None, fetch_frames (concat (map c_Data cs))))"
proof -
  let ?key = "routing hdr" and ?q = "sv_queue s" and ?buf = "concat (map c_Data cs)"
  obtain b where b: "OwnersN ?key 2 rc = [self, b]" "b \<noteq> self" "OwnersN ?key 1 (SetMembers srt newClient m rc) = [b]"
    "OwnerConns ?key 1 (SetMembers srt newClient m rc) = [the (ConnFor b rc)]" "ConnFor b rc \<noteq> None"
    using owner_leaves [OF assms(14,16-18), where srt = srt and newClient = newClient] by blast
  have own: "OwnersN ?key 2 (rp_router ?q) = [self, b]" using owners_agree [OF assms(13-15)] b(1) by simp
  obtain job where job: "sv_queue s' = Enqueue job ?q" "routingKeyOf job = ?key"
    using assms(2,4,7,8) assembleBlock_chunks [OF assms(5), of cs]
    by (auto simp: Write_defs toBlockHash_def sendAndClose_def routingKeyOf_def routing_def Let_def split: prod.splits)
  have same: "?q\<lparr>rp_queue := []\<rparr> = ?q" using assms(3) by simp
  have "forward (\<lambda>_. healthy) job (?q\<lparr>rp_queue := []\<rparr>) = (out, r')"
    using assms(3,10) job(1) by (simp add: runOnce_def Enqueue_def replicaQueueDepth_def)
  then have fw: "forward (\<lambda>_. healthy) job ?q = (out, r')" unfolding same .
  have "map (Some \<circ> fst) out = [ConnFor b (rp_router ?q)]"
    using forward_sends [OF assms(13) fw refl] b(2) by (simp add: job(2) assms(11,12) own)
  then obtain conn msgs where out: "out = [(conn, msgs)]" "ConnFor b (rp_router ?q) = Some conn" by (cases out) auto
  have "fst (srv_Fetch P' now'' (\<lambda>_. None) (wh_ModelId hdr) \<lparr>fb_BlockHash = wh_BlockHash hdr, fb_Version = 0, fb_TokenIds = wh_TokenIds hdr\<rparr>
      (snd (srv_Replicate P' now' msgs EOF None t))) = (None, fetch_frames ?buf)"
    if "store_wf (sv_store t)" "\<forall>e. contents (sv_store t) (storeKey (wh_ModelId hdr) (wh_BlockHash hdr)) = Some e \<longrightarrow> e_Version e < wr_Version resp"
    for P' now' now'' and t :: "('p, 'x, 'q) Server"
    using replica_serves_written_block [OF assms(1-8,10) _ refl that(1) assms(9) that(2) surjective_pairing, of conn msgs 0 P' now'] out by simp
  then show ?thesis using b out by blast
qed

text \<open>Two nodes: the owner of the block is the primary, the other one its replica.\<close>

definition ex_owner :: string where
  "ex_owner = hd (OwnersN (routing ex_header) 2 (ex_router [''a'', ''b'']))"

definition ex_pair :: "(LRUPolicy, unit, nat Replicator) Server" where
  "ex_pair = NewWithReplicator (sv_store ex_server) Enqueue (NewReplicator ex_owner 2 (ex_router [''a'', ''b'']))"

definition ex_rest :: "Member list" where
  "ex_rest = ex_members (removeAll ex_owner [''a'', ''b''])"

lemma OwnersN_first: "ring_inv (rt_ring r) \<Longrightarrow> OwnersN key 1 r = take 1 (OwnersN key 2 r)"
  by (simp add: OwnersN_def LookupN_walk min_def)

lemma ex_owner_first:
  "OwnersN (routing ex_header) 1 (ex_router [''a'', ''b'']) = [ex_owner]" "ex_owner \<in> {''a'', ''b''}"
proof -
  let ?r = "ex_router [''a'', ''b'']" and ?k = "routing ex_header"
  have inv: "ring_inv (rt_ring ?r)" using ex_router_inv by (simp add: router_inv_def)
  have l: "length (OwnersN ?k 2 ?r) = 2" "set (OwnersN ?k 2 ?r) = {''a'', ''b''}" using ex_owners by simp_all
  then have ne: "OwnersN ?k 2 ?r \<noteq> []" by (metis list.size(3) zero_neq_numeral)
  show "ex_owner \<in> {''a'', ''b''}" using hd_in_set [OF ne] unfolding l(2) ex_owner_def .
  have "take 1 xs = [hd xs]" if "xs \<noteq> []" for xs :: "string list" using that by (cases xs) simp_all
  from this [OF ne] show "OwnersN ?k 1 ?r = [ex_owner]" unfolding ex_owner_def OwnersN_first [OF inv] .
qed

lemma ex_members_ids: "mem_ID ` set (ex_members ids) = set ids"
  by (simp add: ex_members_def image_image)

theorem acknowledged_block_survives_primary_witness:
  "\<exists>b. b \<noteq> ex_owner \<and> OwnersN (routing ex_header) 1 (SetMembers (sort_key vp_hash) ex_dial ex_rest (ex_router [''a'', ''b''])) = [b]"
proof -
  let ?w = "srv_Write LRU 1 (Header ex_header # map Chunk ex_chunks) EOF None ex_pair" and ?q = "NewReplicator ex_owner 2 (ex_router [''a'', ''b''])"
  let ?buf = "concat (map c_Data ex_chunks)"
  have wf: "store_wf (sv_store ex_pair)" and room: "\<not> OverHardLimit (len64 ?buf) (sv_store ex_pair)"
    using ex_server_wf ex_room by (simp_all add: ex_pair_def NewWithReplicator_def)
  have c0: "contents (sv_store ex_pair) = Map.empty"
    using empty_store_wf [OF NewStore_stripes [of "[WithMaxBytes 100]" NewLRU "()"]]
    by (simp add: ex_pair_def NewWithReplicator_def ex_server_def server_New_def WithMaxBytes_def)
  have hdr: "length (wh_BlockHash ex_header) = 32" "unat (wh_TotalSize ex_header) \<le> maxAlloc" "length ?buf \<le> maxAlloc"
    by (simp_all add: ex_header_def ex_chunks_def maxAlloc_def)
  note asm = assembleBlock_chunks [OF hdr(2), of ex_chunks]
  have resp: "?w = (Inr \<lparr>wr_Version = 1, wr_Stored = True\<rparr>, snd ?w)"
    using Write_admitted(1) [OF asm hdr(1) room, of LRU 1 None]
      Put_contents(3) [OF wf refl, of LRU 1 "wh_BlockHash ex_header" "header_entry ex_header ?buf"] c0
    by (intro prod_eqI) (simp_all add: sendAndClose_def put_version_def)
  have cfg: "sv_repl ex_pair = Some Enqueue" "rp_queue (sv_queue ex_pair) = []" "sv_queue ex_pair = ?q"
    by (simp_all add: ex_pair_def NewWithReplicator_def NewReplicator_def)
  obtain job where "sv_queue (snd ?w) = Enqueue job ?q"
    using resp asm hdr(1) room cfg(1,3)
    by (auto simp: Write_defs toBlockHash_def sendAndClose_def Let_def split: prod.splits)
  then obtain out r' where run: "runOnce (\<lambda>_. healthy) (sv_queue (snd ?w)) = Some (out, r')"
    by (cases "forward (\<lambda>_. healthy) job ?q") (simp add: runOnce_def Enqueue_def replicaQueueDepth_def NewReplicator_def)
  have rt: "rp_rf (sv_queue ex_pair) = 2" "rp_self (sv_queue ex_pair) = ex_owner" "rp_router (sv_queue ex_pair) = ex_router [''a'', ''b'']"
    by (simp_all add: cfg(3) NewReplicator_def)
  have "mem_ID ` set ex_rest = set (Nodes (rt_ring (ex_router [''a'', ''b'']))) - {ex_owner}"
    unfolding ex_rest_def ex_members_ids ex_router_keys(2) by auto
  moreover have "ex_rest \<noteq> []"
  proof -
    have "''a'' \<noteq> ''b''" by simp
    then have "\<not> (ex_owner = ''a'' \<and> ex_owner = ''b'')" by metis
    then show ?thesis by (auto simp: ex_rest_def ex_members_def)
  qed
  moreover have "same_members (ex_router [''a'', ''b'']) (ex_router [''a'', ''b''])" by (simp add: same_members_def)
  ultimately show ?thesis
    using acknowledged_block_survives_primary [OF wf cfg(1,2) hdr room resp _ run rt(1,2) _ ex_router_inv _ ex_owner_first(1),
        where m = ex_rest and srt = "sort_key vp_hash" and newClient = ex_dial] ex_router_inv rt(3)
    by auto
qed

end
