(* ===== verification/Admission.thy ===== *)
theory Admission
  imports Server_Correct "HOL-Library.Multiset"
begin

text \<open>
  The admission guard of \<^verbatim>\<open>internal/server/server.go\<close> under concurrency. \<^verbatim>\<open>OverHardLimit\<close> reads the byte counter
  without a lock and the \<^verbatim>\<open>Put\<close> comes later, in \<^verbatim>\<open>Write\<close> and in the re-admission of a cold block alike, so
  handlers that passed the guard together all store. The shard is given as a system in which any number of
  handlers up to a bound are between the two, while reads, manual evictions, replicated blocks and the phases
  of the evictor interleave. The theorem bounds by how much the resident bytes can pass the maximum.
\<close>

section \<open>Payload bytes of a store\<close>

definition stripe_payload :: "stripe \<Rightarrow> int" where
  "stripe_payload st = gm_sum (\<lambda>_ e. int (length (e_KV e))) st"

lemma true_bytes_payload: "int (true_bytes s) = (\<Sum>st\<leftarrow>s_stripes s. stripe_payload st)"
proof -
  have "int (gm_sum (\<lambda>_ e. length (e_KV e)) st) = stripe_payload st" for st
    unfolding stripe_payload_def by (induction st) auto
  then have "int (\<Sum>st\<leftarrow>l. gm_sum (\<lambda>_ e. length (e_KV e)) st) = (\<Sum>st\<leftarrow>l. stripe_payload st)" for l
    by (induction l) simp_all
  then show ?thesis by (simp add: true_bytes_def)
qed

lemma true_bytes_cong: "s_stripes s' = s_stripes s \<Longrightarrow> true_bytes s' = true_bytes s"
  by (simp add: true_bytes_def)

lemma true_bytes_setStripe:
  assumes "stripes_ok s"
  shows "int (true_bytes (setStripe k st s)) = int (true_bytes s) - stripe_payload (stripeFor s k) + stripe_payload st"
  using stripeIdx_less [OF stripes_okD(1) [OF assms], of k] stripes_okD(1) [OF assms]
  by (simp add: true_bytes_payload setStripe_def sum_list_map_update stripeFor_def)

definition payload_at :: "BlockHash \<Rightarrow> ('p, 'x) Store \<Rightarrow> nat" where
  "payload_at k s = (case contents s k of None \<Rightarrow> 0 | Some e \<Rightarrow> length (e_KV e))"

lemma stripe_payload_put:
  assumes "stripes_ok s"
  shows "int (true_bytes (setStripe k (gm_put k e (stripeFor s k)) s)) =
    int (true_bytes s) + int (length (e_KV e)) - int (payload_at k s)"
  by (simp add: true_bytes_setStripe [OF assms] stripe_payload_def gm_sum_put [OF stripes_okD(2) [OF assms]]
    gm_weight_def payload_at_def contents_def split: option.split)

lemma stripe_payload_del:
  assumes "stripes_ok s"
  shows "int (true_bytes (setStripe k (gm_del k (stripeFor s k)) s)) = int (true_bytes s) - int (payload_at k s)"
  by (simp add: true_bytes_setStripe [OF assms] stripe_payload_def gm_sum_del [OF stripes_okD(2) [OF assms]]
    gm_weight_def payload_at_def contents_def split: option.split)

lemma publish_payload:
  assumes "store_wf s"
  shows "int (true_bytes (publish P k e prev s)) = int (true_bytes s) + int (length (e_KV e)) - int (payload_at k s)"
proof -
  have "s_stripes (publish P k e prev s) = s_stripes (setStripe k (gm_put k e (stripeFor s k)) s)"
    by (simp add: publish_def Let_def)
  from true_bytes_cong [OF this] show ?thesis by (simp add: stripe_payload_put [OF store_wfD(1) [OF assms]])
qed

text \<open>What each store operation does to the payload bytes and to the limit.\<close>

lemma Put_payload:
  assumes "store_wf s"
  shows "int (true_bytes (snd (Put P now h (Some e) s))) =
      int (true_bytes s) + int (length (e_KV e)) - int (payload_at (storeKey (e_ModelID e) h) s)"
    and "s_maxBytes (snd (Put P now h (Some e) s)) = s_maxBytes s"
  by (simp_all add: Put_effect Let_def publish_payload [OF assms]) (simp add: publish_def Let_def)

lemma PutWithVersion_payload:
  assumes "store_wf s"
  shows "store_wf (snd (PutWithVersion P now h (Some e) v s))"
    and "true_bytes (snd (PutWithVersion P now h (Some e) v s)) \<le> true_bytes s + length (e_KV e)"
    and "s_maxBytes (snd (PutWithVersion P now h (Some e) v s)) = s_maxBytes s"
proof -
  show "store_wf (snd (PutWithVersion P now h (Some e) v s))"
    using publish_effect(1) [OF assms storedEntry_filed refl] assms by (simp add: PutWithVersion_effect Let_def)
  show "s_maxBytes (snd (PutWithVersion P now h (Some e) v s)) = s_maxBytes s"
    by (simp add: PutWithVersion_effect Let_def publish_def)
  have "int (true_bytes (snd (PutWithVersion P now h (Some e) v s))) \<le> int (true_bytes s) + int (length (e_KV e))"
    by (simp add: PutWithVersion_effect Let_def publish_payload [OF assms])
  then show "true_bytes (snd (PutWithVersion P now h (Some e) v s)) \<le> true_bytes s + length (e_KV e)" by simp
qed

lemma Get_payload:
  assumes "store_wf s"
  shows "true_bytes (snd (Get P now model h s)) = true_bytes s" "s_maxBytes (snd (Get P now model h s)) = s_maxBytes s"
proof -
  have "int (true_bytes (snd (Get P now model h s))) = int (true_bytes s)"
  proof (cases "find_entry model h s")
    case (Some e)
    let ?k = "storeKey model h"
    have "contents s ?k = Some e" using Some find_entry_Some by blast
    then have "int (true_bytes (setStripe ?k (gm_put ?k (recordAccess now e) (stripeFor s ?k)) s)) = int (true_bytes s)"
      by (simp add: stripe_payload_put [OF store_wfD(1) [OF assms]] payload_at_def)
    then show ?thesis
      using Some true_bytes_cong [of "snd (Get P now model h s)" "setStripe ?k (gm_put ?k (recordAccess now e) (stripeFor s ?k)) s"]
      by (simp add: Get_effect Let_def)
  qed (simp add: Get_effect)
  then show "true_bytes (snd (Get P now model h s)) = true_bytes s" by simp
  show "s_maxBytes (snd (Get P now model h s)) = s_maxBytes s" by (simp add: Get_effect Let_def split: option.split)
qed

lemma removal_payload:
  assumes "store_wf s" and "s_stripes t \<in> {s_stripes s, s_stripes (setStripe k (gm_del k (stripeFor s k)) s)}"
  shows "true_bytes t \<le> true_bytes s"
proof -
  let ?d = "setStripe k (gm_del k (stripeFor s k)) s"
  have "true_bytes t = true_bytes s \<or> true_bytes t = true_bytes ?d"
    using assms(2) true_bytes_cong [of t s] true_bytes_cong [of t ?d] by auto
  then show ?thesis using stripe_payload_del [OF store_wfD(1) [OF assms(1)], of k] by auto
qed

lemma Delete_payload:
  assumes "store_wf s"
  shows "true_bytes (snd (Delete P model h s)) \<le> true_bytes s" "s_maxBytes (snd (Delete P model h s)) = s_maxBytes s"
proof -
  show "true_bytes (snd (Delete P model h s)) \<le> true_bytes s"
    by (rule removal_payload [OF assms, of _ "storeKey model h"]) (simp add: Delete_def Let_def split: option.split)
  show "s_maxBytes (snd (Delete P model h s)) = s_maxBytes s" by (simp add: Delete_def Let_def split: option.split)
qed

lemma evict_payload:
  assumes "store_wf s"
  shows "true_bytes (snd (evict P k s)) \<le> true_bytes s"
  by (rule removal_payload [OF assms, of _ k]) (simp add: evict_def Let_def setStripe_def stripeIdx_def split: option.split)

section \<open>Handlers between the guard and the store\<close>

text \<open>A handler that passed the guard: a write with its assembled block, or a cold block about to be re-admitted.\<close>

datatype pending =
    PendWrite BlockHash WriteHeader bytes
  | PendCold string BlockHash bytes uint64 "int32 list"

fun pend_size :: "pending \<Rightarrow> nat" where
  "pend_size (PendWrite h hdr buf) = length buf"
| "pend_size (PendCold model h kv ver toks) = length kv"

text \<open>
  The server, the keys its evictor has chosen, the handlers past the guard, and the payload bytes of the replicated
  blocks received so far: \<^verbatim>\<open>Replicate\<close> stores without asking the guard.
\<close>

record ('p, 'x, 'q) race =
  ra_srv :: "('p, 'x, 'q) Server"
  ra_keys :: "BlockHash list"
  ra_pending :: "pending multiset"
  ra_replicated :: nat

abbreviation ra_store :: "('p, 'x, 'q) race \<Rightarrow> ('p, 'x) Store" where
  "ra_store r \<equiv> sv_store (ra_srv r)"

definition in_flight :: "('p, 'x, 'q) race \<Rightarrow> nat" where
  "in_flight r = (\<Sum>p\<in>#ra_pending r. pend_size p)"

definition assembled_size :: "WriteChunk list \<Rightarrow> recv_end \<Rightarrow> nat" where
  "assembled_size msgs fin = (case assembleBlock msgs fin of Inl _ \<Rightarrow> 0 | Inr (hdr, buf) \<Rightarrow> length buf)"

text \<open>
  At most \<open>k\<close> handlers are past the guard at once and their blocks have at most \<open>B\<close> bytes. The halves of a write and
  of a re-admission are steps of their own; the other steps are those of the shard.
\<close>

inductive race_step :: "'p EvictionPolicy \<Rightarrow> nat \<Rightarrow> nat \<Rightarrow> ('p, 'x, 'q) race \<Rightarrow> ('p, 'x, 'q) race \<Rightarrow> bool"
  for P k B where
  guard_write: "writeAdmit msgs fin (ra_srv r) = Inr (h, hdr, buf) \<Longrightarrow> size (ra_pending r) < k \<Longrightarrow> length buf \<le> B \<Longrightarrow>
    race_step P k B r (r\<lparr>ra_pending := add_mset (PendWrite h hdr buf) (ra_pending r)\<rparr>)"
| store_write: "ra_pending r = add_mset (PendWrite h hdr buf) rest \<Longrightarrow>
    race_step P k B r (r\<lparr>ra_srv := snd (writeCommit P now h hdr buf ack (ra_srv r)), ra_pending := rest\<rparr>)"
| guard_cold: "sv_cold (ra_srv r) = Some cold \<Longrightarrow> cold model h = Inr (Some (kv, ver, toks)) \<Longrightarrow>
    \<not> OverHardLimit (len64 kv) (ra_store r) \<Longrightarrow> size (ra_pending r) < k \<Longrightarrow> length kv \<le> B \<Longrightarrow>
    race_step P k B r (r\<lparr>ra_pending := add_mset (PendCold model h kv ver toks) (ra_pending r)\<rparr>)"
| store_cold: "ra_pending r = add_mset (PendCold model h kv ver toks) rest \<Longrightarrow>
    race_step P k B r (r\<lparr>ra_srv := (ra_srv r)\<lparr>sv_store :=
      snd (PutWithVersion P now h (Some (newEntry model kv toks [] 0)) ver (ra_store r))\<rparr>, ra_pending := rest\<rparr>)"
| replicate: "race_step P k B r (r\<lparr>ra_srv := snd (srv_Replicate P now msgs fin ack (ra_srv r)),
    ra_replicated := ra_replicated r + assembled_size msgs fin\<rparr>)"
| read: "race_step P k B r (r\<lparr>ra_srv := (ra_srv r)\<lparr>sv_store := snd (Get P now model h (ra_store r))\<rparr>\<rparr>)"
| evict_rpc: "race_step P k B r (r\<lparr>ra_srv := snd (srv_Evict P model hb (ra_srv r))\<rparr>)"
| meter: "race_step P k B r (r\<lparr>ra_srv := emit ev (ra_srv r)\<rparr>)"
| tier: "race_step P k B r (r\<lparr>ra_srv := (ra_srv r)\<lparr>sv_cold := co\<rparr>\<rparr>)"
| receive: "race_step P k B r (r\<lparr>ra_srv := (ra_srv r)\<lparr>sv_store := (ra_store r)\<lparr>s_evictSig := False\<rparr>\<rparr>\<rparr>)"
| pick: "Victim P (s_policy (ra_store r)) = (p, v) \<Longrightarrow>
    race_step P k B r (r\<lparr>ra_srv := (ra_srv r)\<lparr>sv_store := (ra_store r)\<lparr>s_policy := p\<rparr>\<rparr>,
      ra_keys := ra_keys r @ (case v of None \<Rightarrow> [] | Some h \<Rightarrow> [h])\<rparr>)"
| collect: "st \<in> set (s_stripes (ra_store r)) \<Longrightarrow>
    race_step P k B r (r\<lparr>ra_keys := ra_keys r @ map fst (filter (\<lambda>(h, e). idleSince e < cutoff) st)\<rparr>)"
| evict_next: "ra_keys r = h # hs \<Longrightarrow>
    race_step P k B r (r\<lparr>ra_srv := (ra_srv r)\<lparr>sv_store := snd (evict P h (ra_store r))\<rparr>, ra_keys := hs\<rparr>)"

text \<open>A handler that nobody disturbs is its two halves in a row.\<close>

lemma Write_is_race:
  assumes "ra_pending r = {#}" and "0 < k" and "assembled_size msgs fin \<le> B"
  shows "(race_step P k B)\<^sup>*\<^sup>* r (r\<lparr>ra_srv := snd (srv_Write P now msgs fin ack (ra_srv r))\<rparr>)"
proof (cases "writeAdmit msgs fin (ra_srv r)")
  case (Inl err)
  then show ?thesis by (simp add: srv_Write_def)
next
  case (Inr a)
  obtain h hdr buf where a: "a = (h, hdr, buf)" by (cases a)
  have "length buf \<le> B"
    using Inr a assms(3) by (auto simp: writeAdmit_def assembled_size_def split: sum.splits option.splits if_splits)
  from guard_write [OF Inr [unfolded a] _ this, of k P]
  have g: "race_step P k B r (r\<lparr>ra_pending := {#PendWrite h hdr buf#}\<rparr>)" using assms(1,2) by simp
  have "race_step P k B (r\<lparr>ra_pending := {#PendWrite h hdr buf#}\<rparr>)
      (r\<lparr>ra_srv := snd (writeCommit P now h hdr buf ack (ra_srv r)), ra_pending := {#}\<rparr>)"
    using store_write [of "r\<lparr>ra_pending := {#PendWrite h hdr buf#}\<rparr>" h hdr buf "{#}" P k B now ack] by simp
  with g have "(race_step P k B)\<^sup>*\<^sup>* r (r\<lparr>ra_srv := snd (writeCommit P now h hdr buf ack (ra_srv r)), ra_pending := {#}\<rparr>)" by simp
  moreover have "r\<lparr>ra_srv := s, ra_pending := {#}\<rparr> = r\<lparr>ra_srv := s\<rparr>" for s using assms(1) by (cases r) simp
  ultimately show ?thesis using Inr a by (simp add: srv_Write_def)
qed

lemma coldHit_is_race:
  assumes "ra_pending r = {#}" and "0 < k"
    and "\<And>cold kv ver toks'. sv_cold (ra_srv r) = Some cold \<Longrightarrow> cold model h = Inr (Some (kv, ver, toks')) \<Longrightarrow> length kv \<le> B"
  shows "(race_step P k B)\<^sup>*\<^sup>* r (r\<lparr>ra_srv := snd (coldHit P now model h v toks (ra_srv r))\<rparr>)"
proof -
  let ?s = "ra_srv r"
  have idle: "r\<lparr>ra_srv := s, ra_pending := {#}\<rparr> = r\<lparr>ra_srv := s\<rparr>" for s using assms(1) by (cases r) simp
  have hit: "(race_step P k B)\<^sup>*\<^sup>* r (r\<lparr>ra_srv := emit ev (if \<not> OverHardLimit (len64 kv) (sv_store ?s)
      then ?s\<lparr>sv_store := snd (PutWithVersion P now h (Some (newEntry model kv toks' [] 0)) ver (sv_store ?s))\<rparr> else ?s)\<rparr>)"
    if c: "sv_cold ?s = Some cold" "cold model h = Inr (Some (kv, ver, toks'))" for ev cold kv ver toks'
  proof (cases "OverHardLimit (len64 kv) (sv_store ?s)")
    case True
    then show ?thesis using meter [of P k B r ev] by simp
  next
    case False
    let ?p = "{#PendCold model h kv ver toks'#}"
      and ?s1 = "?s\<lparr>sv_store := snd (PutWithVersion P now h (Some (newEntry model kv toks' [] 0)) ver (sv_store ?s))\<rparr>"
    have "race_step P k B r (r\<lparr>ra_pending := ?p\<rparr>)"
      using guard_cold [OF c False _ assms(3) [OF c], of k P] assms(1,2) by simp
    moreover have "race_step P k B (r\<lparr>ra_pending := ?p\<rparr>) (r\<lparr>ra_srv := ?s1\<rparr>)"
      using store_cold [of "r\<lparr>ra_pending := ?p\<rparr>" model h kv ver toks' "{#}" P k B now] idle by simp
    moreover have "race_step P k B (r\<lparr>ra_srv := ?s1\<rparr>) (r\<lparr>ra_srv := emit ev ?s1\<rparr>)"
      using meter [of P k B "r\<lparr>ra_srv := ?s1\<rparr>" ev] by simp
    ultimately have "(race_step P k B)\<^sup>*\<^sup>* r (r\<lparr>ra_srv := emit ev ?s1\<rparr>)"
      by (blast intro: converse_rtranclp_into_rtranclp rtranclp.rtrancl_refl)
    then show ?thesis using False by simp
  qed
  show ?thesis
  proof (cases "snd (coldHit P now model h v toks ?s) = ?s")
    case True
    then show ?thesis by simp
  next
    case False
    then obtain cold kv ver toks' where c: "sv_cold ?s = Some cold" "cold model h = Inr (Some (kv, ver, toks'))"
      by (auto simp: coldHit_def split: option.splits sum.splits)
    then have "snd (coldHit P now model h v toks ?s) \<in> {?s, emit (MHit ''fetch_cold'') (if \<not> OverHardLimit (len64 kv) (sv_store ?s)
        then ?s\<lparr>sv_store := snd (PutWithVersion P now h (Some (newEntry model kv toks' [] 0)) ver (sv_store ?s))\<rparr> else ?s)}"
      by (simp add: coldHit_def Let_def)
    then show ?thesis using False hit [OF c, of "MHit ''fetch_cold''"] by (elim insertE) simp_all
  qed
qed

section \<open>The bound\<close>

lemma OverHardLimit_iff:
  assumes "store_wf s" and "slt64 0 (s_maxBytes s)" and "true_bytes s + length kv < 2 ^ 63"
  shows "OverHardLimit (len64 kv) s \<longleftrightarrow> sint (s_maxBytes s) < int (true_bytes s + length kv)"
proof -
  have "s_totalBytes s + len64 kv = word_of_nat (true_bytes s + length kv)"
    using true_bytes_word [OF assms(1)] by (simp add: len64_def)
  then have "sint (s_totalBytes s + len64 kv) = int (true_bytes s + length kv)" using sint_small [OF assms(3)] by simp
  then show ?thesis using assms(2) by (simp add: OverHardLimit_def slt64_def)
qed

definition race_inv :: "int64 \<Rightarrow> nat \<Rightarrow> nat \<Rightarrow> ('p, 'x, 'q) race \<Rightarrow> bool" where
  "race_inv m k B r \<longleftrightarrow> store_wf (ra_store r) \<and> s_maxBytes (ra_store r) = m \<and> size (ra_pending r) \<le> k \<and>
     (\<forall>p \<in># ra_pending r. pend_size p \<le> B) \<and>
     int (true_bytes (ra_store r) + in_flight r) \<le> sint m + int ((k - 1) * B + ra_replicated r)"

lemma race_invD:
  assumes "race_inv m k B r"
  shows "store_wf (ra_store r)" "s_maxBytes (ra_store r) = m" "size (ra_pending r) \<le> k" "p \<in># ra_pending r \<Longrightarrow> pend_size p \<le> B"
    "int (true_bytes (ra_store r) + in_flight r) \<le> sint m + int ((k - 1) * B + ra_replicated r)"
  using assms by (auto simp: race_inv_def)

text \<open>A step that moves no more bytes into the store than leave the handlers or arrive from a peer keeps the bound.\<close>

lemma race_inv_keep:
  assumes "race_inv m k B r" and "store_wf (ra_store r')" and "s_maxBytes (ra_store r') = s_maxBytes (ra_store r)"
    and "ra_pending r = ra_pending r' + gone"
    and "true_bytes (ra_store r') \<le> true_bytes (ra_store r) + (\<Sum>p\<in>#gone. pend_size p) + (ra_replicated r' - ra_replicated r)"
    and "ra_replicated r \<le> ra_replicated r'"
  shows "race_inv m k B r'"
proof -
  have f: "in_flight r = in_flight r' + (\<Sum>p\<in>#gone. pend_size p)" using assms(4) by (simp add: in_flight_def)
  have "int (true_bytes (ra_store r') + in_flight r') \<le> sint m + int ((k - 1) * B + ra_replicated r')"
    using race_invD(5) [OF assms(1)] assms(5,6) f by linarith
  then show ?thesis using race_invD(2-4) [OF assms(1)] assms(2-4) by (auto simp: race_inv_def)
qed

lemma sum_mset_bound: "\<forall>p \<in># M. f p \<le> (b :: nat) \<Longrightarrow> (\<Sum>p\<in>#M. f p) \<le> size M * b"
  by (induction M) auto

lemma race_guard:
  assumes inv: "race_inv m k B r" and m: "slt64 0 m" and room: "\<not> OverHardLimit (len64 kv) (ra_store r)"
    and k: "size (ra_pending r) < k" and p: "pend_size p = length kv" "length kv \<le> B"
    and small: "sint m + int (k * B + ra_replicated r) < 2 ^ 63"
  shows "race_inv m k B (r\<lparr>ra_pending := add_mset p (ra_pending r)\<rparr>)"
proof -
  let ?T = "true_bytes (ra_store r)"
  note d = race_invD [OF inv]
  have "in_flight r \<le> size (ra_pending r) * B" unfolding in_flight_def using d(4) by (intro sum_mset_bound) blast
  also have "\<dots> \<le> (k - 1) * B" using k by (intro mult_right_mono) simp_all
  finally have f: "in_flight r \<le> (k - 1) * B" .
  have kB: "k * B = (k - 1) * B + B" using k by (cases k) simp_all
  have "int (?T + length kv) < 2 ^ 63" using d(5) p(2) small kB by linarith
  then have "?T + length kv < 2 ^ 63" by simp
  then have "int (?T + length kv) \<le> sint m" using room OverHardLimit_iff [OF d(1), of kv] d(2) m by (simp add: not_less)
  then have "int (?T + (length kv + in_flight r)) \<le> sint m + int ((k - 1) * B + ra_replicated r)" using f by linarith
  then show ?thesis using d(1-4) k p by (simp add: race_inv_def in_flight_def)
qed

lemma writeCommit_store:
  assumes "store_wf (sv_store s)"
  shows "store_wf (sv_store (snd (writeCommit P now h hdr buf ack s)))"
    and "s_maxBytes (sv_store (snd (writeCommit P now h hdr buf ack s))) = s_maxBytes (sv_store s)"
    and "true_bytes (sv_store (snd (writeCommit P now h hdr buf ack s))) \<le> true_bytes (sv_store s) + length buf"
proof -
  let ?e = "newEntry (wh_ModelId hdr) buf (wh_TokenIds hdr) (wh_TenantId hdr) (wh_RecomputeCost hdr)"
  have st: "sv_store (snd (writeCommit P now h hdr buf ack s)) = snd (Put P now h (Some ?e) (sv_store s))"
    by (simp add: writeCommit_def Let_def split_def split: option.split)
  show "store_wf (sv_store (snd (writeCommit P now h hdr buf ack s)))"
    unfolding st by (rule Put_contents(1) [OF assms refl])
  show "s_maxBytes (sv_store (snd (writeCommit P now h hdr buf ack s))) = s_maxBytes (sv_store s)"
    unfolding st by (rule Put_payload(2) [OF assms])
  have "int (true_bytes (snd (Put P now h (Some ?e) (sv_store s)))) \<le> int (true_bytes (sv_store s)) + int (length buf)"
    unfolding Put_payload(1) [OF assms] by (simp add: newEntry_def)
  then show "true_bytes (sv_store (snd (writeCommit P now h hdr buf ack s))) \<le> true_bytes (sv_store s) + length buf"
    unfolding st by linarith
qed

lemma Replicate_store:
  assumes "store_wf (sv_store s)"
  shows "store_wf (sv_store (snd (srv_Replicate P now msgs fin ack s)))"
    and "s_maxBytes (sv_store (snd (srv_Replicate P now msgs fin ack s))) = s_maxBytes (sv_store s)"
    and "true_bytes (sv_store (snd (srv_Replicate P now msgs fin ack s))) \<le> true_bytes (sv_store s) + assembled_size msgs fin"
proof -
  note pv = PutWithVersion_payload [OF assms]
  have kv: "e_KV (newEntry model kv toks tenant cost) = kv" for model kv toks tenant cost by (simp add: newEntry_def)
  show "store_wf (sv_store (snd (srv_Replicate P now msgs fin ack s)))"
    "s_maxBytes (sv_store (snd (srv_Replicate P now msgs fin ack s))) = s_maxBytes (sv_store s)"
    using assms pv(1,3) by (simp_all add: srv_Replicate_def Let_def split_def split: sum.split option.split)
  show "true_bytes (sv_store (snd (srv_Replicate P now msgs fin ack s))) \<le> true_bytes (sv_store s) + assembled_size msgs fin"
    using pv(2) [where e = "newEntry _ _ _ _ _", unfolded kv]
    by (simp add: srv_Replicate_def assembled_size_def Let_def split_def split: sum.split option.split)
qed

lemma race_step_inv:
  assumes "race_step P k B r r'" and inv: "race_inv m k B r" and m: "slt64 0 m"
    and small: "sint m + int (k * B + ra_replicated r') < 2 ^ 63"
  shows "race_inv m k B r' \<and> ra_replicated r \<le> ra_replicated r'"
  using assms(1)
proof cases
  case (guard_write msgs fin h hdr buf)
  have "\<not> OverHardLimit (len64 buf) (ra_store r)"
    using guard_write(2) by (auto simp: writeAdmit_def split: sum.splits option.splits if_splits)
  from race_guard [OF inv m this guard_write(3), of "PendWrite h hdr buf"] show ?thesis
    using guard_write small by simp
next
  case (guard_cold cold model h kv ver toks)
  from race_guard [OF inv m guard_cold(4,5), of "PendCold model h kv ver toks"] show ?thesis
    using guard_cold small by simp
next
  case (store_write h hdr buf rest now ack)
  show ?thesis
    using race_inv_keep [OF inv, of r' "{#PendWrite h hdr buf#}"] writeCommit_store [OF race_invD(1) [OF inv]] store_write
    by simp
next
  case (store_cold model h kv ver toks rest now)
  have "e_KV (newEntry model kv toks [] 0) = kv" by (simp add: newEntry_def)
  then show ?thesis
    using race_inv_keep [OF inv, of r' "{#PendCold model h kv ver toks#}"] store_cold
      PutWithVersion_payload [OF race_invD(1) [OF inv], of P now h "newEntry model kv toks [] 0" ver]
    by simp
next
  case (replicate now msgs fin ack)
  show ?thesis
    using race_inv_keep [OF inv, of r' "{#}"] Replicate_store [OF race_invD(1) [OF inv]] replicate by simp
next
  case (read now model h)
  then show ?thesis
    using race_inv_keep [OF inv, of r' "{#}"] Get_payload [OF race_invD(1) [OF inv]] Get_contents(1) [OF race_invD(1) [OF inv]]
    by simp
next
  case (evict_rpc model hb)
  then show ?thesis
    using race_inv_keep [OF inv, of r' "{#}"] Delete_payload [OF race_invD(1) [OF inv]] Delete_effect(1) [OF race_invD(1) [OF inv]]
      race_invD(1) [OF inv]
    by (simp add: srv_Evict_def Let_def split_def split: option.splits)
next
  case (pick p v)
  then show ?thesis
    using race_inv_keep [OF inv, of r' "{#}"] race_invD(1) [OF inv] by (simp add: store_wf_def true_bytes_def)
next
  case receive
  then show ?thesis
    using race_inv_keep [OF inv, of r' "{#}"] race_invD(1) [OF inv] stripe_cong [of "(ra_store r)\<lparr>s_evictSig := False\<rparr>" "ra_store r"]
    by (simp add: store_wf_def true_bytes_def)
next
  case (evict_next h hs)
  then show ?thesis
    using race_inv_keep [OF inv, of r' "{#}"] evict_payload [OF race_invD(1) [OF inv]] evict_effect(1,7) [OF race_invD(1) [OF inv]]
    by simp
qed (use race_inv_keep [OF inv, of r' "{#}"] race_invD(1) [OF inv] in simp_all)

lemma race_reachable_inv:
  assumes "(race_step P k B)\<^sup>*\<^sup>* r r'" and "race_inv m k B r" and "slt64 0 m"
    and "sint m + int (k * B + ra_replicated r') < 2 ^ 63"
  shows "race_inv m k B r'"
  using assms(1,4)
proof (induction rule: rtranclp_induct)
  case base
  show ?case by (rule assms(2))
next
  case (step y z)
  have "ra_replicated y \<le> ra_replicated z" using step.hyps(2) by cases simp_all
  then show ?case using step race_step_inv [OF step.hyps(2) _ assms(3)] by simp
qed

text \<open>
  Property C9: what the admission guard guarantees. Take a bounded shard that starts at or below its maximum, with
  writes and cold re-admissions racing between the unlocked check and the store, at most \<open>k\<close> of them at once with
  blocks of at most \<open>B\<close> bytes, while reads, manual evictions, the evictor and replicated blocks interleave. Then at
  every moment the counter is the exact number of payload bytes, and the resident bytes together with those of the
  handlers past the guard exceed the maximum by at most \<open>k - 1\<close> blocks plus what peers have replicated in, which the
  guard does not see; with one handler at a time and no replicas the maximum is never exceeded. In each such state a
  write is admitted exactly if its stream assembles, its hash has 32 bytes and its block fits; an admitted one is
  stored, and one that is refused, for whatever reason, changes nothing.
\<close>

theorem Write_admission:
  assumes "store_wf (sv_store s)" and "slt64 0 (s_maxBytes (sv_store s))"
    and "int (true_bytes (sv_store s)) \<le> sint (s_maxBytes (sv_store s))"
    and "(race_step P k B)\<^sup>*\<^sup>* \<lparr>ra_srv = s, ra_keys = q, ra_pending = {#}, ra_replicated = 0\<rparr> r"
    and "sint (s_maxBytes (sv_store s)) + int (k * B + ra_replicated r) < 2 ^ 63"
    and "assembled_size msgs fin \<le> B" and "0 < k"
  shows "sint (Bytes (ra_store r)) = int (true_bytes (ra_store r)) \<and>
    int (true_bytes (ra_store r) + in_flight r) \<le> sint (s_maxBytes (sv_store s)) + int ((k - 1) * B + ra_replicated r) \<and>
    (case writeAdmit msgs fin (ra_srv r) of
       Inl err \<Rightarrow> srv_Write P now msgs fin ack (ra_srv r) = (Inl err, ra_srv r) \<and>
         (assembleBlock msgs fin = Inl err \<or>
          (\<exists>hdr kv. assembleBlock msgs fin = Inr (hdr, kv) \<and>
             (length (wh_BlockHash hdr) \<noteq> 32 \<or> sint (s_maxBytes (sv_store s)) < int (true_bytes (ra_store r) + length kv))))
     | Inr (h, hdr, kv) \<Rightarrow> assembleBlock msgs fin = Inr (hdr, kv) \<and> h = wh_BlockHash hdr \<and> length h = 32 \<and>
         int (true_bytes (ra_store r) + length kv) \<le> sint (s_maxBytes (sv_store s)) \<and>
         map_option e_KV (contents (sv_store (snd (writeCommit P now h hdr kv ack (ra_srv r)))) (storeKey (wh_ModelId hdr) h)) = Some kv)"
proof -
  let ?m = "s_maxBytes (sv_store s)" and ?T = "true_bytes (ra_store r)"
  have "race_inv ?m k B \<lparr>ra_srv = s, ra_keys = q, ra_pending = {#}, ra_replicated = 0\<rparr>"
    using assms(1,3) by (simp add: race_inv_def in_flight_def add_increasing2)
  from race_reachable_inv [OF assms(4) this assms(2,5)] have inv: "race_inv ?m k B r" .
  note d = race_invD [OF inv]
  have kB: "k * B = (k - 1) * B + B" using assms(7) by (cases k) simp_all
  have fits: "?T + length kv < 2 ^ 63" if "length kv \<le> B" for kv :: bytes
  proof -
    have "int (?T + length kv) < 2 ^ 63" using d(5) that assms(5) kB by linarith
    then show ?thesis by simp
  qed
  have guard: "OverHardLimit (len64 kv) (ra_store r) \<longleftrightarrow> sint ?m < int (?T + length kv)" if "length kv \<le> B" for kv :: bytes
    using OverHardLimit_iff [OF d(1) _ fits [OF that]] d(2) assms(2) by simp
  have size: "length kv \<le> B" if "assembleBlock msgs fin = Inr (hdr, kv)" for hdr kv
    using that assms(6) by (simp add: assembled_size_def)
  have stored: "map_option e_KV (contents (sv_store (snd (writeCommit P now h hdr kv ack (ra_srv r)))) (storeKey (wh_ModelId hdr) h)) = Some kv"
    for h hdr kv
  proof -
    let ?e = "newEntry (wh_ModelId hdr) kv (wh_TokenIds hdr) (wh_TenantId hdr) (wh_RecomputeCost hdr)"
    have "sv_store (snd (writeCommit P now h hdr kv ack (ra_srv r))) = snd (Put P now h (Some ?e) (ra_store r))"
      by (simp add: writeCommit_def Let_def split_def split: option.split)
    moreover have "e_ModelID ?e = wh_ModelId hdr" "e_KV ?e = kv" by (simp_all add: newEntry_def)
    ultimately show ?thesis using Put_contents(2) [OF d(1) refl, of P now h ?e] by simp
  qed
  have "sint (Bytes (ra_store r)) = int ?T" using Bytes_exact [OF d(1)] fits [of "[]"] by simp
  moreover have "case writeAdmit msgs fin (ra_srv r) of
       Inl err \<Rightarrow> srv_Write P now msgs fin ack (ra_srv r) = (Inl err, ra_srv r) \<and>
         (assembleBlock msgs fin = Inl err \<or>
          (\<exists>hdr kv. assembleBlock msgs fin = Inr (hdr, kv) \<and> (length (wh_BlockHash hdr) \<noteq> 32 \<or> sint ?m < int (?T + length kv))))
     | Inr (h, hdr, kv) \<Rightarrow> assembleBlock msgs fin = Inr (hdr, kv) \<and> h = wh_BlockHash hdr \<and> length h = 32 \<and>
         int (?T + length kv) \<le> sint ?m \<and>
         map_option e_KV (contents (sv_store (snd (writeCommit P now h hdr kv ack (ra_srv r)))) (storeKey (wh_ModelId hdr) h)) = Some kv"
    using guard [OF size] stored
    by (auto simp: srv_Write_def writeAdmit_def toBlockHash_def not_less split: sum.splits option.splits if_splits)
  ultimately show ?thesis using d(5) by blast
qed

section \<open>Two writes past the guard\<close>

text \<open>A shard of 100 bytes and two clients that each stream a block of 60 bytes.\<close>

definition ex_big :: "byte \<Rightarrow> WriteHeader" where
  "ex_big b = ex_header\<lparr>wh_BlockHash := replicate 32 b, wh_TotalSize := 60\<rparr>"

definition ex_stream :: "byte \<Rightarrow> WriteChunk list" where
  "ex_stream b = [Header (ex_big b), Chunk \<lparr>c_Data = replicate 60 b, c_Last = True\<rparr>]"

definition ex_both :: "(LRUPolicy, unit, unit) Server" where
  "ex_both = snd (writeCommit LRU 2 (replicate 32 6) (ex_big 6) (replicate 60 6) None
     (snd (writeCommit LRU 1 (replicate 32 5) (ex_big 5) (replicate 60 5) None ex_server)))"

lemma ex_stream_block: "assembleBlock (ex_stream b) EOF = Inr (ex_big b, replicate 60 b)"
  by (simp add: assembleBlock_def ex_stream_def ex_big_def ex_header_def maxAlloc_def)

lemma ex_stream_admitted: "writeAdmit (ex_stream b) EOF ex_server = Inr (replicate 32 b, ex_big b, replicate 60 b)"
  by (simp add: writeAdmit_def ex_stream_block toBlockHash_def ex_big_def OverHardLimit_def ex_server_limit slt64_def len64_def)

lemma ex_race_run:
  "(race_step LRU 2 60)\<^sup>*\<^sup>* \<lparr>ra_srv = ex_server, ra_keys = [], ra_pending = {#}, ra_replicated = 0\<rparr>
     \<lparr>ra_srv = ex_both, ra_keys = [], ra_pending = {#}, ra_replicated = 0\<rparr>"
proof -
  let ?st = "\<lambda>s M. \<lparr>ra_srv = s, ra_keys = [], ra_pending = M, ra_replicated = 0\<rparr> :: (LRUPolicy, unit, unit) race"
  let ?p = "\<lambda>b. PendWrite (replicate 32 b) (ex_big b) (replicate 60 b)"
  let ?s1 = "snd (writeCommit LRU 1 (replicate 32 5) (ex_big 5) (replicate 60 5) None ex_server)"
  have "race_step LRU 2 60 (?st ex_server {#}) (?st ex_server {#?p 5#})"
    using guard_write [of "ex_stream 5" EOF "?st ex_server {#}" _ _ _ 2 60 LRU] ex_stream_admitted [of 5] by simp
  moreover have "race_step LRU 2 60 (?st ex_server {#?p 5#}) (?st ex_server {#?p 6, ?p 5#})"
    using guard_write [of "ex_stream 6" EOF "?st ex_server {#?p 5#}" _ _ _ 2 60 LRU] ex_stream_admitted [of 6] by simp
  moreover have "race_step LRU 2 60 (?st ex_server {#?p 6, ?p 5#}) (?st ?s1 {#?p 6#})"
    using store_write [of "?st ex_server {#?p 6, ?p 5#}" _ _ _ "{#?p 6#}" LRU 2 60 1 None]
    by (simp add: add_mset_commute)
  moreover have "race_step LRU 2 60 (?st ?s1 {#?p 6#}) (?st ex_both {#})"
    using store_write [of "?st ?s1 {#?p 6#}" _ _ _ "{#}" LRU 2 60 2 None] by (simp add: ex_both_def)
  ultimately show ?thesis by (blast intro: converse_rtranclp_into_rtranclp rtranclp.rtrancl_refl)
qed

lemma ex_key_5: "storeKey ''m'' (replicate 32 5) =
    [107, 229, 254, 71, 70, 51, 15, 10, 117, 58, 211, 126, 255, 164, 234, 240, 150, 162, 20, 224, 75, 191, 231, 153, 13, 161, 89, 83, 11, 107, 129, 163]"
  by code_simp

lemma ex_key_6: "storeKey ''m'' (replicate 32 6) =
    [47, 206, 2, 141, 93, 56, 103, 240, 115, 151, 20, 29, 45, 117, 59, 38, 146, 43, 237, 50, 43, 62, 83, 113, 238, 255, 91, 212, 231, 76, 44, 74]"
  by code_simp

lemma ex_keys_differ: "storeKey ''m'' (replicate 32 6) \<noteq> storeKey ''m'' (replicate 32 5)"
  by (simp add: ex_key_5 ex_key_6)

lemma ex_commit_store:
  "sv_store (snd (writeCommit LRU now (replicate 32 b) (ex_big b) (replicate 60 b) None s)) =
     snd (Put LRU now (replicate 32 b) (Some (newEntry ''m'' (replicate 60 b) [1, 2] ''t'' 1)) (sv_store s))"
  by (simp add: writeCommit_def Let_def split_def ex_big_def ex_header_def split: option.split)

text \<open>
  The headroom between the high-water mark and the maximum does not absorb the race: the guard admits up to the
  maximum itself, and two writes that pass it together leave 120 resident bytes on a shard of 100.
\<close>

lemma concurrent_writes_overshoot:
  "true_bytes (sv_store ex_both) = 120 \<and> s_maxBytes (sv_store ex_both) = 100 \<and>
   (race_step LRU 2 60)\<^sup>*\<^sup>* \<lparr>ra_srv = ex_server, ra_keys = [], ra_pending = {#}, ra_replicated = 0\<rparr>
     \<lparr>ra_srv = ex_both, ra_keys = [], ra_pending = {#}, ra_replicated = 0\<rparr>"
proof -
  let ?e = "\<lambda>b :: byte. newEntry ''m'' (replicate 60 b) [1, 2] ''t'' 1" and ?s0 = "sv_store ex_server"
  let ?s1 = "snd (Put LRU 1 (replicate 32 5) (Some (?e 5)) ?s0)"
  have e: "e_ModelID (?e b) = ''m''" "e_KV (?e b) = replicate 60 b" for b by (simp_all add: newEntry_def)
  have both: "sv_store ex_both = snd (Put LRU 2 (replicate 32 6) (Some (?e 6)) ?s1)" by (simp add: ex_both_def ex_commit_store)
  have wf1: "store_wf ?s1" by (rule Put_contents(1) [OF ex_server_wf refl])
  have empty: "contents ?s0 = Map.empty"
    using NewStore_stripes [of "[WithMaxBytes 100]" NewLRU "()"]
    by (intro empty_store_wf(2)) (simp_all add: ex_server_def server_New_def WithMaxBytes_def)
  have c1: "contents ?s1 (storeKey ''m'' (replicate 32 6)) = None"
    using Put_contents(2) [OF ex_server_wf refl, of LRU 1 "replicate 32 5" "?e 5"] ex_keys_differ by (simp add: e empty)
  have "int (true_bytes ?s1) = 60"
    using Put_payload(1) [OF ex_server_wf, of LRU 1 "replicate 32 5" "?e 5"] by (simp add: e ex_server_limit payload_at_def empty)
  then have "int (true_bytes (sv_store ex_both)) = 120"
    using Put_payload(1) [OF wf1, of LRU 2 "replicate 32 6" "?e 6"] c1 unfolding both by (simp add: e payload_at_def)
  moreover have "s_maxBytes (sv_store ex_both) = 100"
    unfolding both using Put_payload(2) [OF wf1] Put_payload(2) [OF ex_server_wf] by (simp add: ex_server_limit)
  ultimately show ?thesis using ex_race_run by simp
qed

theorem Write_admission_witness:
  "int (true_bytes (sv_store ex_both)) \<le> 160 \<and> (\<exists>err. srv_Write LRU 3 (ex_stream 7) EOF None ex_both = (Inl err, ex_both))"
proof -
  note w = Write_admission [OF ex_server_wf _ _ ex_race_run, of "ex_stream 7" EOF 3 None]
  have pre: "slt64 0 (s_maxBytes (sv_store ex_server))" "int (true_bytes (sv_store ex_server)) \<le> sint (s_maxBytes (sv_store ex_server))"
    "assembled_size (ex_stream 7) EOF \<le> 60" "sint (s_maxBytes (sv_store ex_server)) = 100"
    by (simp_all add: ex_server_limit slt64_def assembled_size_def ex_stream_block)
  have "\<exists>err. srv_Write LRU 3 (ex_stream 7) EOF None ex_both = (Inl err, ex_both)"
    using w pre concurrent_writes_overshoot
    by (cases "writeAdmit (ex_stream 7) EOF ex_both") (auto simp: ex_stream_block)
  then show ?thesis using w pre by (simp add: in_flight_def)
qed

end
