(* ===== verification/Spec2Isabelle.thy ===== *)
theory Spec2Isabelle
  imports Block_Hash Chaos_Main Failover Admission
begin

text \<open>
  \<^bold>\<open>A distributed KV cache for LLM inference.\<close> The program (Go, under \<^verbatim>\<open>src/\<close>) caches the key/value tensors of
  prompt blocks. A prompt is cut into blocks of tokens and each block gets a key that chains SHA-256 over the
  tokens before it. Clients place a prompt on the consistent-hash ring by its first key, ask the owner which blocks
  it holds, fetch those and write the others. A shard keeps its blocks in a striped store under a byte bound, with a
  background evictor and a pluggable policy; evicted blocks spill to an S3 bucket and come back on a miss. The
  primary of a block forwards each write to the replicas the ring names. Membership is an etcd prefix under leases.

  \<^bold>\<open>Theories and sources.\<close>

  \<^item> \<open>KV_Prelude\<close>, \<open>Go_Strings\<close>, \<open>Go_Flags\<close>, \<open>Go_SHA256\<close>, \<open>Go_Float64\<close>, \<open>Go_Heap\<close>: what the sources use of the language and its
    standard library. Machine integers are words, Go maps are association lists in iteration order, strings and
    byte slices are lists, \<^verbatim>\<open>crypto/sha256\<close> is executable, \<^verbatim>\<open>float64\<close> is binary64 with round-to-nearest-even on
    rationals, \<^verbatim>\<open>flag\<close> reads an argument list into a record as its \<^verbatim>\<open>FlagSet\<close> does (with \<^verbatim>\<open>strconv\<close> and
    \<^verbatim>\<open>time.ParseDuration\<close> underneath), \<^verbatim>\<open>container/heap\<close> is its sift loops over an interface record (locale \<open>heap_client\<close>).
  \<^item> \<open>Block_Hash\<close> (\<^verbatim>\<open>internal/blockhash\<close>): \<open>ChainBlocks\<close>, \<open>Chain\<close>. The loop computes the reference chain, prompts with a
    common block-aligned prefix share its keys, and equal keys come from equal prefixes unless hashed strings collide.
  \<^item> \<open>Cache_Types\<close>, \<open>Policy_LRU\<close>, \<open>Policy_GDSF\<close>, \<open>GDSF_Correct\<close> (\<^verbatim>\<open>internal/cache\<close>: \<^verbatim>\<open>entry.go\<close>, \<^verbatim>\<open>eviction.go\<close>, \<^verbatim>\<open>lru.go\<close>,
    \<^verbatim>\<open>gdsf.go\<close>): entries and policies. A policy is a record of functions over its state; the locale \<open>eviction_policy\<close> is
    its contract, interpreted for LRU, GDSF and the interface value \<^verbatim>\<open>main\<close> holds. The GDSF items live in an explicit
    memory shared by the item table and the tenants' heaps, as the pointers do in the source; the policy refines the
    algorithm on a map, and its victims are the ones the algorithm names. \<open>orNoop\<close> is the no-op policy a store gets for \<^verbatim>\<open>nil\<close>.
  \<^item> \<open>Store\<close>, \<open>Store_Correct\<close> (\<^verbatim>\<open>store.go\<close>): every method of the store as a function of its record. \<open>store_wf\<close> and \<open>shard_inv\<close>
    are the invariants; the lemmas give the effect of each method on the abstract contents, a partial map.
  \<^item> \<open>Evictor\<close> (\<^verbatim>\<open>evictor.go\<close>): the loop, and the shard as a concurrent system \<open>shard_step\<close> in which client calls
    interleave with the phases of the evictor.
  \<^item> \<open>Ring\<close>, \<open>Router\<close>, \<open>Membership\<close> (\<^verbatim>\<open>internal/ring\<close>, \<^verbatim>\<open>internal/cluster\<close>, \<^verbatim>\<open>internal/coord\<close>): placement, connections and
    the etcd watch. The etcd calls carry their outcomes, so \<open>leases\<close> tells which leases are renewed and which only run
    out after a failed revocation. \<open>walk\<close> is the order of the owners of a key; the locales \<open>slice_sorter\<close> and \<open>member_table\<close> are the contracts
    of \<^verbatim>\<open>sort.Slice\<close> and of the two tables a router keeps in step. A router driven by the watch ends with the live
    members of etcd.
  \<^item> \<open>Cold_Tier\<close> (\<^verbatim>\<open>internal/coldtier\<close>): the framing of objects, the in-memory tier, and the S3 tier with its bounded queue
    and its workers as the relation \<open>s3_step\<close>; the locale \<open>cold_tier\<close> is the contract of a reader.
  \<^item> \<open>Server\<close>, \<open>Server_Correct\<close>, \<open>Replicator\<close> (\<^verbatim>\<open>internal/server\<close>): every handler with its error paths, and the queue, the
    placement and the stream of the replicator. The service refines the shard: \<open>service_refines_shard\<close>.
  \<^item> \<open>Admission\<close>: the admission guard under concurrency. \<^verbatim>\<open>Write\<close> is \<open>writeAdmit\<close> and \<open>writeCommit\<close>, between which other handlers
    run; \<open>race_step\<close> interleaves these halves, those of a cold re-admission and the steps of the shard, and the theorem
    bounds how far the resident bytes can pass the maximum.
  \<^item> \<open>Failover\<close>: primary, replicator, membership, replica and client together. A block acknowledged by the owner of its
    key is served by the node that becomes the owner when the first one leaves.
  \<^item> \<open>Metrics\<close> (\<^verbatim>\<open>internal/metrics\<close>): the registration of the collectors and the calls on them; the interceptors are transparent,
    every call fits the collector it is made on, and the labels of a server stay within a fixed set.
  \<^item> \<open>Provenance\<close>: a whole shard with its tier as the relation \<open>sys_step\<close>, with the theorem that whatever is fetched was
    written under that model and hash.
  \<^item> \<open>Spot\<close>, \<open>Cache_Server\<close> (\<^verbatim>\<open>internal/spot\<close>, \<^verbatim>\<open>cmd/cache-server\<close>): the command line, assembly of a node with every fatal
    path, the gauges, and the drain on a signal or an interruption notice.
  \<^item> \<open>Loadgen\<close>, \<open>Loadgen_Correct\<close>, \<open>Loadgen_Main\<close> (\<^verbatim>\<open>cmd/loadgen\<close>): the client, its worker loop, and \<^verbatim>\<open>main\<close> with its flags, its
    modes and its concurrent workers as a fold of \<open>load_step\<close> over a schedule. The locale \<open>pattern_service\<close> states what a
    verifying client relies on; the shards of \<open>Provenance\<close> provide it, so a verified run exits with 0. \<open>keys_used\<close> are the
    keys of the blocks a schedule really asks for.
  \<^item> \<open>Chaos\<close>, \<open>Chaos_Main\<close> (\<^verbatim>\<open>cmd/chaos\<close>): the fault injector. \<open>chaos_step\<close> interleaves the critical sections of the fault
    loop and of the restart timers (launching a process and storing its handle are two steps) with servers that end by
    themselves; \<^verbatim>\<open>main\<close> runs from the build to the report, and the timers on to the exit of the process. The three programs meet in their command lines and exit codes: the flags a node
    is launched with are the ones it reads, and a run that passes was a verifying one without a violation.

  \<^bold>\<open>How code becomes definitions.\<close> A struct is a record, an operation a function that returns the updated record; a
  mutex-protected method is one atomic step, and the interleavings that locks leave open are step relations
  (\<open>shard_step\<close>, \<open>race_step\<close>, \<open>sys_step\<close>, \<open>s3_step\<close>, \<open>chaos_step\<close>); a function that spans several critical sections, like
  \<open>srv_Write\<close>, \<open>drain\<close> or \<open>faultTick\<close>, is the goroutine that runs undisturbed. Errors
  are values (\<^typ>\<open>'a option\<close> or a sum), a panic is \<^term>\<open>None\<close> or a constructor of its own. Streams are lists of messages
  with the errors of the transport as functions of the position. The clock, the network, etcd, S3, the operating
  system, the random generator and the metadata service are parameters; what the code relies on is a named
  hypothesis (\<open>slice_sorter\<close>, \<open>serves_objects\<close>, \<open>etcd_serves\<close>, \<open>dialable\<close>, \<open>circumstances_ok\<close>, \<open>same_members\<close>, \<open>event_ok\<close>) with a
  witness. Running a command and \<^verbatim>\<open>strconv.FormatFloat\<close> are parameters too. Two panics that end the
  process are kept as the last thing their caller sees: a send on the closed spill channel, and a lookup answer longer
  than the request, which no server of this repository gives (\<open>shard_lookup_no_panic\<close>).

  \<^bold>\<open>Bounds and loops.\<close> The pressure drain and the loop of a load worker may run forever in general and are partial
  functions: the drain is shown to return under every tracking policy, the worker to return exactly when its exit
  conditions allow. All other loops are total. The sizes are those of the source: 16 stripes, chunks of 1 MiB,
  a replication queue of 256, a spill queue and worker count as in \<^verbatim>\<open>s3.go\<close>. \<open>maxAlloc\<close> is the limit beyond which the
  runtime refuses an allocation, 48 address bits on linux/amd64. Byte counters are 64-bit words: the exact-sum
  statement asks for less than \<open>2 ^ 63\<close> bytes. The sizes given by flags of the load generator are taken to be allocatable;
  negative ones panic as in the source. The bound of \<open>Admission\<close> is in the number \<open>k\<close> of handlers past the guard at once and the
  size \<open>B\<close> of their blocks, both arbitrary; the maximum, \<open>k\<close> blocks and the replicated bytes together stay below \<open>2 ^ 63\<close>.

  \<^bold>\<open>Assumptions on hashing.\<close> Nothing assumes that SHA-256 is injective: statements about keys carry the alternative that
  two of the keys in question collide. Where a witness needs two keys to differ, their digests are evaluated.

  \<^bold>\<open>Not modelled.\<close> What \<^verbatim>\<open>promhttp\<close> serves for a scrape, help texts and histogram buckets; log lines and the layout of
  printed reports (their figures are modelled); loading the AWS configuration and dialling etcd, which only call
  their libraries and are outcomes here; the generated gRPC stubs; the Python connector.
\<close>

end
